(* ===== verification/Prelude.thy ===== *)
theory Prelude
  imports Main "HOL-Library.Sublist" "HOL-Library.Word"
begin

text \<open>
  Shared vocabulary of the ivygrep development: Rust strings as lists of UTF-8 bytes, the
  operations of \<^verbatim>\<open>str\<close> and \<^verbatim>\<open>u8\<close> that the sources call, association lists for maps whose
  contents are enumerated, results with errors, and the generic lemmas that the component
  theories use.

  A Rust \<^verbatim>\<open>&str\<close> is modelled by the HOL type \<open>string\<close>: one \<open>char\<close> per UTF-8 byte, so that
  \<open>length\<close> is \<^verbatim>\<open>str::len\<close>, \<open>take\<close> and \<open>drop\<close> are slices at byte offsets and string
  literals are the ASCII literals of the sources. A Rust \<^verbatim>\<open>char\<close> is the list of its UTF-8
  bytes. Sizes and offsets (\<^verbatim>\<open>usize\<close>) are \<open>nat\<close>: every offset is bounded by the length
  of a string in memory, so no addition on them can reach \<open>2^64\<close>; where the source
  saturates, the model saturates.
\<close>

named_theorems rust_defs
  \<open>unfolding rules for the small operations of the Rust standard library\<close>

named_theorems str_bounds
  \<open>length bounds of the string operations\<close>

section \<open>Bytes\<close>

abbreviation code :: "char \<Rightarrow> nat" where
  "code b \<equiv> of_char b"

definition is_ascii :: "char \<Rightarrow> bool" where
  [rust_defs]: "is_ascii b \<longleftrightarrow> code b < 128"

definition is_ascii_lowercase :: "char \<Rightarrow> bool" where
  [rust_defs]: "is_ascii_lowercase b \<longleftrightarrow> 97 \<le> code b \<and> code b \<le> 122"

definition is_ascii_uppercase :: "char \<Rightarrow> bool" where
  [rust_defs]: "is_ascii_uppercase b \<longleftrightarrow> 65 \<le> code b \<and> code b \<le> 90"

definition is_ascii_digit :: "char \<Rightarrow> bool" where
  [rust_defs]: "is_ascii_digit b \<longleftrightarrow> 48 \<le> code b \<and> code b \<le> 57"

definition is_ascii_alphabetic :: "char \<Rightarrow> bool" where
  [rust_defs]: "is_ascii_alphabetic b \<longleftrightarrow> is_ascii_lowercase b \<or> is_ascii_uppercase b"

definition is_ascii_alphanumeric :: "char \<Rightarrow> bool" where
  [rust_defs]: "is_ascii_alphanumeric b \<longleftrightarrow> is_ascii_alphabetic b \<or> is_ascii_digit b"

text \<open>\<^verbatim>\<open>u8::is_ascii_whitespace\<close>: space, tab, line feed, form feed, carriage return.\<close>

definition is_ascii_whitespace :: "char \<Rightarrow> bool" where
  [rust_defs]: "is_ascii_whitespace b \<longleftrightarrow> code b \<in> {32, 9, 10, 12, 13}"

definition to_ascii_lowercase_byte :: "char \<Rightarrow> char" where
  [rust_defs]: "to_ascii_lowercase_byte b = (if is_ascii_uppercase b then char_of (code b + 32) else b)"

definition to_ascii_lowercase :: "string \<Rightarrow> string" where
  [rust_defs]: "to_ascii_lowercase s = map to_ascii_lowercase_byte s"

definition eq_ignore_ascii_case :: "string \<Rightarrow> string \<Rightarrow> bool" where
  "eq_ignore_ascii_case a b \<longleftrightarrow> to_ascii_lowercase a = to_ascii_lowercase b"

lemma code_lt_256 [simp]: "code b < 256"
  by (metis mod_less_divisor of_char_mod_256 zero_less_numeral)

lemma to_ascii_lowercase_byte_not_upper [simp]: "\<not> is_ascii_uppercase (to_ascii_lowercase_byte b)"
  by (auto simp: rust_defs)

lemma to_ascii_lowercase_byte_idem [simp]:
  "to_ascii_lowercase_byte (to_ascii_lowercase_byte b) = to_ascii_lowercase_byte b"
  by (simp add: to_ascii_lowercase_byte_def [of "to_ascii_lowercase_byte b"])

lemma to_ascii_lowercase_idem [simp]:
  "to_ascii_lowercase (to_ascii_lowercase s) = to_ascii_lowercase s"
  by (simp add: to_ascii_lowercase_def)

lemma to_ascii_lowercase_append [simp]:
  "to_ascii_lowercase (s @ t) = to_ascii_lowercase s @ to_ascii_lowercase t"
  by (simp add: to_ascii_lowercase_def)

lemma length_to_ascii_lowercase [simp]: "length (to_ascii_lowercase s) = length s"
  by (simp add: to_ascii_lowercase_def)

lemma to_ascii_lowercase_fixed:
  "\<not> list_ex is_ascii_uppercase s \<Longrightarrow> to_ascii_lowercase s = s"
  by (induction s) (auto simp: to_ascii_lowercase_def to_ascii_lowercase_byte_def)

lemma alnum_is_ascii: "is_ascii_alphanumeric b \<Longrightarrow> is_ascii b"
  by (auto simp: rust_defs)

lemma lower_not_upper: "is_ascii_lowercase b \<Longrightarrow> \<not> is_ascii_uppercase b"
  by (auto simp: rust_defs)

lemma digit_not_alpha: "is_ascii_digit b \<Longrightarrow> \<not> is_ascii_alphabetic b"
  by (auto simp: rust_defs)


section \<open>Characters of a UTF-8 string\<close>

text \<open>The number of bytes that a character with this first byte occupies (\<^verbatim>\<open>char::len_utf8\<close>).\<close>

definition utf8_width :: "char \<Rightarrow> nat" where
  "utf8_width b =
     (if code b < 128 then 1 else if code b < 224 then 2 else if code b < 240 then 3 else 4)"

lemma utf8_width_pos [simp]: "0 < utf8_width b"
  by (simp add: utf8_width_def)

lemma utf8_width_ascii [simp]: "is_ascii b \<Longrightarrow> utf8_width b = 1"
  by (simp add: utf8_width_def is_ascii_def)

text \<open>\<^verbatim>\<open>s.chars().next()\<close> for a string that is not empty.\<close>

fun first_char :: "string \<Rightarrow> string" where
  "first_char [] = []"
| "first_char (b # bs) = take (utf8_width b) (b # bs)"

lemma first_char_nonempty [simp]: "s \<noteq> [] \<Longrightarrow> first_char s \<noteq> []"
  using utf8_width_pos by (cases s) (auto simp: take_Cons')

lemma length_first_char_le [str_bounds]: "length (first_char s) \<le> length s"
  by (cases s) auto

lemma first_char_pos: "s \<noteq> [] \<Longrightarrow> 0 < length (first_char s)"
  by simp

lemma take_first_char [simp]: "take (length (first_char s)) s = first_char s"
  by (cases s) (auto simp: min_def)

lemma first_char_append_drop: "first_char s @ drop (length (first_char s)) s = s"
  by (cases s) (auto simp: min_def take_Cons' drop_Cons')

text \<open>\<^verbatim>\<open>s.char_indices()\<close>: every character with its byte offset, counted from \<open>off\<close>.\<close>

function char_indices :: "nat \<Rightarrow> string \<Rightarrow> (nat \<times> string) list" where
  "char_indices off [] = []"
| "char_indices off (b # bs) =
     (let ch = first_char (b # bs)
      in (off, ch) # char_indices (off + length ch) (drop (length ch) (b # bs)))"
  by pat_completeness auto
termination
proof (relation "measure (\<lambda>(off, s). length s)", goal_cases)
  case (2 off b bs x)
  then show ?case using first_char_pos [of "b # bs"] by simp
qed simp

definition chars :: "string \<Rightarrow> string list" where
  "chars s = map snd (char_indices 0 s)"

text \<open>A class of ASCII bytes as a class of characters: a character longer than one byte is
  never in it.\<close>

definition char_is :: "(char \<Rightarrow> bool) \<Rightarrow> string \<Rightarrow> bool" where
  "char_is P ch = (case ch of [b] \<Rightarrow> P b | _ \<Rightarrow> False)"

lemma char_is_simps [simp]:
  "char_is P [b] = P b" "\<not> char_is P []" "\<not> char_is P (b # c # cs)"
  by (simp_all add: char_is_def)

text \<open>
  The part of UTF-8 validity that the proofs use: the first byte of a character announces
  its width and all bytes of a wide character are outside ASCII. Every Rust \<^verbatim>\<open>str\<close> has it.
\<close>

function utf8_shape :: "string \<Rightarrow> bool" where
  "utf8_shape [] = True"
| "utf8_shape (b # bs) =
     (if is_ascii b then utf8_shape bs
      else 192 \<le> code b \<and> utf8_width b \<le> length (b # bs)
         \<and> list_all (\<lambda>c. 128 \<le> code c \<and> code c < 192) (take (utf8_width b - 1) bs)
         \<and> utf8_shape (drop (utf8_width b - 1) bs))"
  by pat_completeness auto
termination
  by (relation "measure length") auto

definition is_continuation :: "char \<Rightarrow> bool" where
  "is_continuation b \<longleftrightarrow> 128 \<le> code b \<and> code b < 192"

text \<open>A UTF-8 string may be cut wherever the right part does not start inside a character.\<close>

definition starts_char :: "string \<Rightarrow> bool" where
  "starts_char s = (case s of [] \<Rightarrow> True | b # _ \<Rightarrow> \<not> is_continuation b)"

lemma starts_char_simps [simp]: "starts_char []" "starts_char (b # bs) = (\<not> is_continuation b)"
  by (simp_all add: starts_char_def)

lemma utf8_shape_starts_char: "utf8_shape s \<Longrightarrow> starts_char s"
  by (cases s) (auto simp: is_continuation_def is_ascii_def split: if_splits)

lemma utf8_shape_append:
  "starts_char c \<Longrightarrow> utf8_shape (a @ c) \<longleftrightarrow> utf8_shape a \<and> utf8_shape c"
proof (induction a rule: utf8_shape.induct)
  case 1
  then show ?case by simp
next
  case (2 b bs)
  show ?case
  proof (cases "is_ascii b")
    case True
    then show ?thesis using 2 by simp
  next
    case False
    let ?w = "utf8_width b - 1"
    have w: "0 < utf8_width b" by simp
    show ?thesis
    proof (cases "?w \<le> length bs")
      case True
      then show ?thesis using 2 False by (auto simp: Suc_le_eq)
    next
      case short: False
      have "\<not> utf8_shape ((b # bs) @ c)"
      proof
        assume sh: "utf8_shape ((b # bs) @ c)"
        then have "?w \<le> length bs + length c"
          using False by auto
        with short obtain x xs where c: "c = x # xs" by (cases c) auto
        have "list_all is_continuation (take ?w (bs @ c))"
          using sh False by (simp add: is_continuation_def [abs_def])
        then have "is_continuation x"
          using short c by (simp add: take_Cons' list_all_iff split: if_splits)
        then show False using 2 c by simp
      qed
      then show ?thesis using short False by auto
    qed
  qed
qed

lemma utf8_shape_ascii: "list_all is_ascii s \<Longrightarrow> utf8_shape s"
  by (induction s) auto

text \<open>\<^verbatim>\<open>char::is_whitespace\<close>: the Unicode property \<open>White_Space\<close>, as UTF-8 bytes.\<close>

definition whitespace_chars :: "string list" where
  "whitespace_chars =
     map (map char_of)
       ([[9], [10], [11], [12], [13], [32], [194, 133], [194, 160], [225, 154, 128],
         [226, 128, 168], [226, 128, 169], [226, 128, 175], [226, 129, 159], [227, 128, 128]]
        @ map (\<lambda>k. [226, 128, k]) [128..<139] :: nat list list)"

definition is_whitespace :: "string \<Rightarrow> bool" where
  "is_whitespace ch \<longleftrightarrow> ch \<in> set whitespace_chars"

lemma whitespace_chars_nonempty: "w \<in> set whitespace_chars \<Longrightarrow> w \<noteq> []"
  by (auto simp: whitespace_chars_def)

lemma not_whitespace_Nil [simp]: "\<not> is_whitespace []"
  using whitespace_chars_nonempty by (auto simp: is_whitespace_def)


section \<open>Slices\<close>

text \<open>\<^verbatim>\<open>&s[from..to]\<close>.\<close>

definition slice_of :: "'a list \<Rightarrow> nat \<Rightarrow> nat \<Rightarrow> 'a list" where
  "slice_of s i j = take (j - i) (drop i s)"

lemma slice_same [simp]: "slice_of s i i = []"
  by (simp add: slice_of_def)

lemma slice_full [simp]: "slice_of s 0 (length s) = s"
  by (simp add: slice_of_def)

lemma length_slice: "j \<le> length s \<Longrightarrow> i \<le> j \<Longrightarrow> length (slice_of s i j) = j - i"
  by (simp add: slice_of_def)

lemma slice_append: "i \<le> j \<Longrightarrow> j \<le> k \<Longrightarrow> slice_of s i j @ slice_of s j k = slice_of s i k"
proof -
  assume "i \<le> j" "j \<le> k"
  then have "drop j s = drop (j - i) (drop i s)" by simp
  moreover have "k - i = (j - i) + (k - j)" using \<open>i \<le> j\<close> \<open>j \<le> k\<close> by simp
  ultimately show ?thesis by (simp add: slice_of_def take_add)
qed

lemma slice_snoc: "i \<le> j \<Longrightarrow> j < length s \<Longrightarrow> slice_of s i (Suc j) = slice_of s i j @ [s ! j]"
  by (simp add: slice_of_def Suc_diff_le take_Suc_conv_app_nth)

lemma slice_append_left: "j \<le> length s \<Longrightarrow> slice_of (s @ t) i j = slice_of s i j"
  by (simp add: slice_of_def)

lemma slice_slice:
  "s + j \<le> e \<Longrightarrow> slice_of (slice_of tx s e) i j = slice_of tx (s + i) (s + j)"
  by (simp add: slice_of_def drop_take add.commute)

lemma slice_drop: "slice_of (drop k s) i j = slice_of s (k + i) (k + j)"
  by (simp add: slice_of_def add.commute)


section \<open>Operations on strings\<close>

abbreviation starts_with :: "string \<Rightarrow> string \<Rightarrow> bool" where
  "starts_with s p \<equiv> prefix p s"

abbreviation ends_with :: "string \<Rightarrow> string \<Rightarrow> bool" where
  "ends_with s p \<equiv> suffix p s"

definition strip_prefix :: "string \<Rightarrow> string \<Rightarrow> string option" where
  "strip_prefix s p = (if prefix p s then Some (drop (length p) s) else None)"

definition strip_suffix :: "string \<Rightarrow> string \<Rightarrow> string option" where
  "strip_suffix s p = (if suffix p s then Some (take (length s - length p) s) else None)"

lemma strip_prefix_Some: "strip_prefix s p = Some r \<longleftrightarrow> s = p @ r"
  by (auto simp: strip_prefix_def prefix_def)

lemma strip_suffix_Some: "strip_suffix s p = Some r \<longleftrightarrow> s = r @ p"
  by (auto simp: strip_suffix_def suffix_def)

text \<open>\<^verbatim>\<open>str::contains\<close> and \<^verbatim>\<open>str::find\<close> of a substring: the offset of its first occurrence.\<close>

fun find_str :: "string \<Rightarrow> string \<Rightarrow> nat option" where
  "find_str pat s =
     (if prefix pat s then Some 0
      else case s of [] \<Rightarrow> None | _ # t \<Rightarrow> map_option Suc (find_str pat t))"

declare find_str.simps [simp del]

definition contains_str :: "string \<Rightarrow> string \<Rightarrow> bool" where
  "contains_str s pat \<longleftrightarrow> find_str pat s \<noteq> None"

lemma find_str_Some:
  "find_str pat s = Some i \<Longrightarrow> i + length pat \<le> length s \<and> take (length pat) (drop i s) = pat"
proof (induction s arbitrary: i)
  case Nil
  then show ?case by (auto simp: find_str.simps prefix_def split: if_splits)
next
  case (Cons b s)
  show ?case
  proof (cases "prefix pat (b # s)")
    case True
    with Cons.prems have "i = 0" by (simp add: find_str.simps [of pat "b # s"])
    with True show ?thesis
      using prefix_length_le [OF True] by (auto simp: prefix_def simp flip: append_Cons)
  next
    case False
    with Cons.prems obtain j where "find_str pat s = Some j" "i = Suc j"
      by (auto simp: find_str.simps [of pat "b # s"])
    with Cons.IH [of j] show ?thesis by simp
  qed
qed

lemma find_str_None: "find_str pat s = None \<longleftrightarrow> \<not> sublist pat s"
proof (induction s)
  case Nil
  then show ?case by (simp add: find_str.simps)
next
  case (Cons b s)
  then show ?case by (auto simp: find_str.simps [of pat "b # s"] sublist_Cons_right)
qed

lemma contains_str_sublist: "contains_str s pat \<longleftrightarrow> sublist pat s"
  by (simp add: contains_str_def find_str_None)

text \<open>\<^verbatim>\<open>s.find(pred)\<close> for a predicate on ASCII bytes, \<^verbatim>\<open>s.len()\<close> when no byte satisfies it.\<close>

fun find_byte :: "(char \<Rightarrow> bool) \<Rightarrow> string \<Rightarrow> nat" where
  "find_byte P [] = 0"
| "find_byte P (b # bs) = (if P b then 0 else Suc (find_byte P bs))"

lemma find_byte_le [str_bounds, simp]: "find_byte P s \<le> length s"
  by (induction s) auto

lemma find_byte_before: "list_all (\<lambda>b. \<not> P b) (take (find_byte P s) s)"
  by (induction s) auto

lemma find_byte_at: "find_byte P s < length s \<Longrightarrow> P (s ! find_byte P s)"
  by (induction s) auto

text \<open>\<^verbatim>\<open>trim_start\<close>, \<^verbatim>\<open>trim_end\<close> and \<^verbatim>\<open>trim\<close>: remove whitespace characters.\<close>

function trim_start :: "string \<Rightarrow> string" where
  "trim_start s =
     (if is_whitespace (first_char s) then trim_start (drop (length (first_char s)) s) else s)"
  by pat_completeness auto
termination
proof (relation "measure length", goal_cases)
  case (2 s)
  then show ?case by (cases s) (auto simp: first_char_pos)
qed simp

declare trim_start.simps [simp del]

definition ws_suffix :: "string \<Rightarrow> string option" where
  "ws_suffix s = List.find (\<lambda>w. suffix w s) whitespace_chars"

lemma ws_suffix_Some:
  "ws_suffix s = Some w \<Longrightarrow> is_whitespace w \<and> suffix w s \<and> w \<noteq> []"
  by (auto simp: ws_suffix_def find_Some_iff is_whitespace_def whitespace_chars_nonempty)

lemma ws_suffix_shrinks:
  "ws_suffix s = Some w \<Longrightarrow> length s - length w < length s"
  by (cases s) (auto dest: ws_suffix_Some)

function trim_end :: "string \<Rightarrow> string" where
  "trim_end s =
     (case ws_suffix s of None \<Rightarrow> s | Some w \<Rightarrow> trim_end (take (length s - length w) s))"
  by pat_completeness auto
termination
  by (relation "measure length") (auto dest: ws_suffix_shrinks)

declare trim_end.simps [simp del]

definition trim :: "string \<Rightarrow> string" where
  "trim s = trim_end (trim_start s)"

lemma trim_start_suffix: "suffix (trim_start s) s"
proof (induction s rule: trim_start.induct)
  case (1 s)
  show ?case
  proof (cases "is_whitespace (first_char s)")
    case True
    with 1 have "suffix (trim_start (drop (length (first_char s)) s)) (drop (length (first_char s)) s)"
      by simp
    also have "suffix (drop (length (first_char s)) s) s" by (rule suffix_drop)
    finally show ?thesis using True by (simp add: trim_start.simps [of s])
  next
    case False
    then show ?thesis by (simp add: trim_start.simps [of s])
  qed
qed

lemma trim_end_prefix: "prefix (trim_end s) s"
proof (induction s rule: trim_end.induct)
  case (1 s)
  show ?case
  proof (cases "ws_suffix s")
    case None
    then show ?thesis by (simp add: trim_end.simps [of s])
  next
    case (Some w)
    with 1 have "prefix (trim_end (take (length s - length w) s)) (take (length s - length w) s)"
      by simp
    also have "prefix (take (length s - length w) s) s" by (rule take_is_prefix)
    finally show ?thesis using Some by (simp add: trim_end.simps [of s])
  qed
qed

lemma length_trim_start [str_bounds, simp]: "length (trim_start s) \<le> length s"
  using trim_start_suffix suffix_length_le by blast

lemma length_trim_end [str_bounds, simp]: "length (trim_end s) \<le> length s"
  using trim_end_prefix prefix_length_le by blast

lemma length_trim [str_bounds, simp]: "length (trim s) \<le> length s"
  using length_trim_end [of "trim_start s"] length_trim_start [of s]
  unfolding trim_def by linarith

lemma trim_start_not_ws: "\<not> is_whitespace (first_char (trim_start s))"
proof (induction s rule: trim_start.induct)
  case (1 s)
  then show ?case by (cases "is_whitespace (first_char s)") (auto simp: trim_start.simps [of s])
qed

text \<open>Trimming both ends finds the same end as trimming the end alone.\<close>

lemma whitespace_char_shape:
  "w \<in> set whitespace_chars \<Longrightarrow> \<exists>b bs. w = b # bs \<and> list_all is_continuation bs"
  by (auto simp: whitespace_chars_def is_continuation_def)

lemma suffix_append_cases: "suffix w (p @ x) \<Longrightarrow> suffix w x \<or> (\<exists>v. v \<noteq> [] \<and> w = v @ x)"
  by (auto simp: suffix_def append_eq_append_conv2)

lemma ws_suffix_append:
  assumes "starts_char x" "x \<noteq> []"
  shows "ws_suffix (p @ x) = ws_suffix x"
proof -
  have "suffix w (p @ x) = suffix w x" if w: "w \<in> set whitespace_chars" for w
  proof
    assume "suffix w (p @ x)"
    then consider "suffix w x" | v where "v \<noteq> []" "w = v @ x" by (auto dest: suffix_append_cases)
    then show "suffix w x"
    proof cases
      case 2
      obtain b bs where "w = b # bs" "list_all is_continuation bs"
        using whitespace_char_shape [OF w] by auto
      with 2 have "list_all is_continuation x" by (cases v) auto
      with assms show ?thesis by (cases x) auto
    qed
  qed (simp add: suffix_appendI)
  then show ?thesis unfolding ws_suffix_def by (rule find_cong [OF refl])
qed

lemma trim_end_append:
  assumes "starts_char x" "trim_end x \<noteq> []"
  shows "trim_end (p @ x) = p @ trim_end x"
  using assms
proof (induction x rule: trim_end.induct)
  case (1 x)
  have "x \<noteq> []" using "1.prems"(2) trim_end_prefix [of x] by auto
  note ws = ws_suffix_append [OF "1.prems"(1) this, of p]
  show ?case
  proof (cases "ws_suffix x")
    case None
    then show ?thesis by (simp add: trim_end.simps [of x] trim_end.simps [of "p @ x"] ws)
  next
    case (Some w)
    let ?y = "take (length x - length w) x"
    have te: "trim_end x = trim_end ?y" using Some by (simp add: trim_end.simps [of x])
    have "length w \<le> length x" using ws_suffix_Some [OF Some] suffix_length_le by blast
    then have "trim_end (p @ x) = trim_end (p @ ?y)"
      using Some ws by (simp add: trim_end.simps [of "p @ x"])
    moreover have "starts_char ?y" using "1.prems"(1) by (cases x) (auto simp: take_Cons')
    ultimately show ?thesis using "1.IH" [OF Some] "1.prems"(2) te by simp
  qed
qed

lemma trim_start_shape: "utf8_shape s \<Longrightarrow> utf8_shape (trim_start s)"
proof (induction s rule: trim_start.induct)
  case (1 s)
  show ?case
  proof (cases "is_whitespace (first_char s)")
    case True
    then have ne: "s \<noteq> []" by auto
    then have "utf8_shape (drop (length (first_char s)) s)"
    proof (cases s)
      case (Cons b bs)
      show ?thesis
      proof (cases "is_ascii b")
        case True
        then show ?thesis using "1.prems" Cons by (simp add: take_Cons')
      next
        case False
        have "length (first_char s) = utf8_width b" "1 < utf8_width b"
          using False "1.prems" Cons by (auto simp: utf8_width_def is_ascii_def)
        then show ?thesis using "1.prems" False Cons by (simp add: drop_Cons' del: first_char.simps)
      qed
    qed simp
    with 1 True show ?thesis by (simp add: trim_start.simps [of s])
  next
    case False
    then show ?thesis using "1.prems" by (simp add: trim_start.simps [of s])
  qed
qed

lemma trim_position:
  assumes "utf8_shape s" "trim s \<noteq> []"
  shows "slice_of s (length s - length (trim_start s)) (length (trim_end s)) = trim s"
    and "length (trim_end s) = (length s - length (trim_start s)) + length (trim s)"
proof -
  obtain p where p: "s = p @ trim_start s" using trim_start_suffix [of s] by (auto simp: suffix_def)
  have ts: "starts_char (trim_start s)"
    using assms(1) trim_start_shape utf8_shape_starts_char by blast
  have te: "trim_end s = p @ trim s"
    using trim_end_append [OF ts, of p] assms(2) p by (simp add: trim_def)
  obtain q where q: "trim_start s = trim s @ q"
    using trim_end_prefix [of "trim_start s"] by (auto simp: trim_def prefix_def)
  have lp: "length s - length (trim_start s) = length p" by (subst p) simp
  show "length (trim_end s) = (length s - length (trim_start s)) + length (trim s)"
    by (simp add: te lp)
  have "slice_of s (length p) (length p + length (trim s)) = trim s"
    by (subst p, subst q) (simp add: slice_of_def)
  then show "slice_of s (length s - length (trim_start s)) (length (trim_end s)) = trim s"
    by (simp add: te lp)
qed

lemma trim_sublist: "sublist (trim s) s"
  unfolding trim_def
  using trim_end_prefix trim_start_suffix
  by (meson prefix_imp_sublist suffix_imp_sublist sublist_order.order_trans)

text \<open>\<^verbatim>\<open>split_inclusive('\n')\<close>: the lines with their terminators.\<close>

fun split_inclusive :: "char \<Rightarrow> string \<Rightarrow> string list" where
  "split_inclusive d [] = []"
| "split_inclusive d (b # bs) =
     (if b = d then [b] # split_inclusive d bs
      else case split_inclusive d bs of
             [] \<Rightarrow> [[b]]
           | l # ls \<Rightarrow> (b # l) # ls)"

lemma concat_split_inclusive [simp]: "concat (split_inclusive d s) = s"
  by (induction s) (auto split: list.splits)

lemma split_inclusive_nonempty: "l \<in> set (split_inclusive d s) \<Longrightarrow> l \<noteq> []"
  by (induction s) (auto split: list.splits if_splits)

lemma line_newline: "line \<in> set (split_inclusive d s) \<Longrightarrow> d \<notin> set (butlast line)"
  by (induction s arbitrary: line) (auto split: list.splits if_splits)

lemma split_inclusive_no_sep: "d \<notin> set s \<Longrightarrow> split_inclusive d s = (if s = [] then [] else [s])"
  by (induction s) auto

lemma split_inclusive_sep:
  "d \<notin> set l \<Longrightarrow> split_inclusive d (l @ d # r) = (l @ [d]) # split_inclusive d r"
  by (induction l) auto

lemma split_inclusive_shape:
  "utf8_shape s \<Longrightarrow> is_ascii d \<Longrightarrow> line \<in> set (split_inclusive d s) \<Longrightarrow> utf8_shape line"
proof (induction s rule: length_induct)
  case (1 s)
  show ?case
  proof (cases "d \<in> set s")
    case False
    then show ?thesis using 1 by (simp add: split_inclusive_no_sep split: if_splits)
  next
    case True
    then obtain l r where s: "s = l @ d # r" and l: "d \<notin> set l" using split_list_first by metis
    have nc: "\<not> is_continuation d" using \<open>is_ascii d\<close> by (simp add: is_ascii_def is_continuation_def)
    then have sh: "utf8_shape l" "utf8_shape r"
      using \<open>utf8_shape s\<close> \<open>is_ascii d\<close> unfolding s by (auto simp: utf8_shape_append)
    then have "utf8_shape (l @ [d])" using nc \<open>is_ascii d\<close> by (simp add: utf8_shape_append)
    moreover have "line \<in> set (split_inclusive d r) \<Longrightarrow> utf8_shape line"
      using "1.IH" [rule_format, of r] sh(2) \<open>is_ascii d\<close> unfolding s by simp
    ultimately show ?thesis
      using "1.prems"(3) unfolding s split_inclusive_sep [OF l] by auto
  qed
qed

text \<open>\<^verbatim>\<open>s.split(d)\<close> for a byte: always at least one part.\<close>

fun split_on :: "(char \<Rightarrow> bool) \<Rightarrow> string \<Rightarrow> string list" where
  "split_on d [] = [[]]"
| "split_on d (b # bs) =
     (if d b then [] # split_on d bs
      else (b # hd (split_on d bs)) # tl (split_on d bs))"

lemma split_on_nonempty [simp]: "split_on d s \<noteq> []"
  by (cases s) auto

lemma split_on_no_sep: "p \<in> set (split_on d s) \<Longrightarrow> list_all (\<lambda>b. \<not> d b) p"
proof (induction s arbitrary: p)
  case (Cons b bs)
  have "hd (split_on d bs) \<in> set (split_on d bs)" by simp
  with Cons show ?case
    by (cases "split_on d bs") (auto split: if_splits)
qed simp


text \<open>\<^verbatim>\<open>split_whitespace\<close>: the maximal runs of characters that are not whitespace.\<close>

fun ws_words :: "string \<Rightarrow> string list \<Rightarrow> string list" where
  "ws_words cur [] = (if cur = [] then [] else [cur])"
| "ws_words cur (ch # rest) =
     (if is_whitespace ch then (if cur = [] then ws_words [] rest else cur # ws_words [] rest)
      else ws_words (cur @ ch) rest)"

definition split_whitespace :: "string \<Rightarrow> string list" where
  "split_whitespace s = ws_words [] (chars s)"

text \<open>\<^verbatim>\<open>rsplit_once\<close>: around the last occurrence of a pattern.\<close>

fun rsplit_once :: "string \<Rightarrow> string \<Rightarrow> (string \<times> string) option" where
  "rsplit_once [] pat = (if pat = [] then Some ([], []) else None)"
| "rsplit_once (c # s) pat =
     (case rsplit_once s pat of
        Some (a, b) \<Rightarrow> Some (c # a, b)
      | None \<Rightarrow> if prefix pat (c # s) then Some ([], drop (length pat) (c # s)) else None)"

lemma rsplit_once_None: "pat \<noteq> [] \<Longrightarrow> rsplit_once s pat = None \<longleftrightarrow> \<not> sublist pat s"
  by (induction s) (auto simp: sublist_Cons_right split: option.splits)

lemma rsplit_once_last:
  assumes "pat \<noteq> []" and "\<not> sublist pat (tl pat @ b)"
  shows "rsplit_once (a @ pat @ b) pat = Some (a, b)"
proof (induction a)
  case Nil
  obtain c pat' where pat: "pat = c # pat'" using assms(1) by (cases pat) auto
  have "rsplit_once (pat' @ b) pat = None" using assms pat rsplit_once_None [of pat] by simp
  then show ?case using pat by simp
qed simp

lemma chars_ascii: "list_all is_ascii s \<Longrightarrow> chars s = map (\<lambda>c. [c]) s"
proof -
  have "list_all is_ascii s \<Longrightarrow> map snd (char_indices n s) = map (\<lambda>c. [c]) s" for n
    by (induction s arbitrary: n) auto
  then show "list_all is_ascii s \<Longrightarrow> ?thesis" by (simp add: chars_def)
qed

lemma ws_words_word:
  "list_all (\<lambda>c. \<not> is_whitespace [c]) w \<Longrightarrow>
   ws_words cur (map (\<lambda>c. [c]) w @ rest) = ws_words (cur @ w) rest"
  by (induction w arbitrary: cur) auto

text \<open>Decimal digits of a number.\<close>

fun decimal :: "nat \<Rightarrow> string" where
  "decimal n = (if n < 10 then [char_of (48 + n)] else decimal (n div 10) @ [char_of (48 + n mod 10)])"

declare decimal.simps [simp del]

definition undecimal :: "string \<Rightarrow> nat" where
  "undecimal s = foldl (\<lambda>acc c. 10 * acc + (code c - 48)) 0 s"

lemma code_digit: "d < 10 \<Longrightarrow> code (char_of (48 + d :: nat)) = 48 + d"
  by (simp add: of_char_of)

lemma undecimal_decimal: "undecimal (decimal n) = n"
proof (induction n rule: decimal.induct)
  case (1 n)
  then show ?case
    by (subst decimal.simps) (auto simp: undecimal_def code_digit)
qed

lemma decimal_inj [simp]: "decimal m = decimal n \<longleftrightarrow> m = n"
  using undecimal_decimal by metis

lemma decimal_digits: "list_all is_ascii_digit (decimal n)"
proof (induction n rule: decimal.induct)
  case (1 n)
  have "is_ascii_digit (char_of (48 + d :: nat))" if "d < 10" for d
    using code_digit [OF that] that by (simp add: is_ascii_digit_def)
  with 1 show ?case by (subst decimal.simps) auto
qed

text \<open>Fields of a line: words without whitespace and parentheses, joined by blanks.\<close>

definition plain_word :: "string \<Rightarrow> bool" where
  "plain_word w \<longleftrightarrow> w \<noteq> [] \<and> list_all (\<lambda>c. is_ascii c \<and> \<not> is_whitespace [c] \<and> c \<noteq> CHR '')'') w"

fun spaced :: "string list \<Rightarrow> string" where
  "spaced [] = []"
| "spaced [w] = w"
| "spaced (w # ws) = w @ '' '' @ spaced ws"

lemma space_whitespace [simp]: "is_whitespace '' ''"
  by code_simp

lemma spaced_ascii: "list_all plain_word ws \<Longrightarrow> list_all is_ascii (spaced ws)"
  by (induction ws rule: spaced.induct) (auto simp: plain_word_def list_all_iff rust_defs)

lemma spaced_no_paren: "list_all plain_word ws \<Longrightarrow> CHR '')'' \<notin> set (spaced ws)"
  by (induction ws rule: spaced.induct) (auto simp: plain_word_def list_all_iff)

lemma newline_whitespace [simp]: "is_whitespace [CHR 0x0A]"
  by code_simp

lemma ws_words_spaced:
  assumes "list_all plain_word ws" and "tail = [] \<or> tail = [[CHR 0x0A]]"
  shows "ws_words [] (map (\<lambda>c. [c]) (spaced ws) @ tail) = ws"
  using assms(1)
proof (induction ws rule: spaced.induct)
  case 1
  then show ?case using assms(2) by auto
next
  case (2 w)
  then have w: "w \<noteq> []" "list_all (\<lambda>c. \<not> is_whitespace [c]) w"
    by (auto simp: plain_word_def list_all_iff)
  have "ws_words [] (map (\<lambda>c. [c]) (spaced [w]) @ tail) = ws_words w tail"
    using ws_words_word [OF w(2), of "[]" tail] by simp
  then show ?case using w(1) assms(2) by (elim disjE) simp_all
next
  case (3 w v vs)
  have w: "w \<noteq> []" "list_all (\<lambda>c. \<not> is_whitespace [c]) w"
    using "3.prems" by (auto simp: plain_word_def list_all_iff)
  have "ws_words [] (map (\<lambda>c. [c]) (spaced (w # v # vs)) @ tail) =
      ws_words ([] @ w) ('' '' # map (\<lambda>c. [c]) (spaced (v # vs)) @ tail)"
    using ws_words_word [OF w(2), of "[]" "'' '' # map (\<lambda>c. [c]) (spaced (v # vs)) @ tail"] by simp
  then show ?case using w(1) 3 by simp
qed

lemma split_whitespace_spaced: "list_all plain_word ws \<Longrightarrow> split_whitespace (spaced ws) = ws"
  using ws_words_spaced [of ws "[]"] chars_ascii [OF spaced_ascii] by (simp add: split_whitespace_def)

lemma split_whitespace_line:
  assumes "list_all plain_word ws"
  shows "split_whitespace (spaced ws @ [CHR 0x0A]) = ws"
proof -
  have "chars (spaced ws @ [CHR 0x0A]) = map (\<lambda>c. [c]) (spaced ws) @ [[CHR 0x0A]]"
    using chars_ascii [of "spaced ws @ [CHR 0x0A]"] spaced_ascii [OF assms] by (simp add: is_ascii_def)
  then show ?thesis using ws_words_spaced [OF assms] by (simp add: split_whitespace_def)
qed

lemma digit_facts:
  "is_ascii_digit c \<Longrightarrow> is_ascii c \<and> \<not> is_whitespace [c] \<and> c \<noteq> CHR '')''"
  by (auto simp: is_ascii_digit_def is_ascii_def is_whitespace_def whitespace_chars_def)

lemma decimal_nonempty [simp]: "decimal n \<noteq> []"
  by (subst decimal.simps) simp

lemma decimal_plain: "plain_word (decimal n)"
  using decimal_digits [of n] digit_facts by (auto simp: plain_word_def list_all_iff)

text \<open>\<^verbatim>\<open>str::parse\<close> for unsigned and signed integers of a width.\<close>

definition parse_digits :: "string \<Rightarrow> nat option" where
  "parse_digits s = (if s \<noteq> [] \<and> list_all is_ascii_digit s then Some (undecimal s) else None)"

definition parse_unsigned :: "nat \<Rightarrow> string \<Rightarrow> nat option" where
  "parse_unsigned bits s =
     (let digits = (case strip_prefix s ''+'' of Some d \<Rightarrow> d | None \<Rightarrow> s)
      in Option.bind (parse_digits digits) (\<lambda>n. if n < 2 ^ bits then Some n else None))"

definition parse_signed :: "nat \<Rightarrow> string \<Rightarrow> int option" where
  "parse_signed bits s =
     (case strip_prefix s ''-'' of
        Some d \<Rightarrow> Option.bind (parse_digits d) (\<lambda>n. if n \<le> 2 ^ (bits - 1) then Some (- int n) else None)
      | None \<Rightarrow>
          let digits = (case strip_prefix s ''+'' of Some d \<Rightarrow> d | None \<Rightarrow> s)
          in Option.bind (parse_digits digits) (\<lambda>n. if n < 2 ^ (bits - 1) then Some (int n) else None))"

definition show_int :: "int \<Rightarrow> string" where
  "show_int i = (if i < 0 then ''-'' @ decimal (nat (- i)) else decimal (nat i))"

lemma digits_no_sign: "list_all is_ascii_digit s \<Longrightarrow> strip_prefix s ''+'' = None \<and> strip_prefix s ''-'' = None"
  by (cases s) (auto simp: strip_prefix_def is_ascii_digit_def)

lemma parse_digits_decimal [simp]: "parse_digits (decimal n) = Some n"
  by (simp add: parse_digits_def decimal_digits undecimal_decimal)

lemma parse_unsigned_decimal: "n < 2 ^ bits \<Longrightarrow> parse_unsigned bits (decimal n) = Some n"
  using digits_no_sign [OF decimal_digits] by (simp add: parse_unsigned_def)

lemma parse_signed_show:
  assumes "- (2 ^ (bits - 1)) \<le> i" "i < 2 ^ (bits - 1)"
  shows "parse_signed bits (show_int i) = Some i"
proof (cases "i < 0")
  case True
  have "nat (- i) \<le> nat (2 ^ (bits - 1))" using assms(1) by (intro nat_mono) simp
  then have "nat (- i) \<le> 2 ^ (bits - 1)" by (simp add: nat_power_eq)
  then show ?thesis using True by (simp add: parse_signed_def show_int_def strip_prefix_def)
next
  case False
  have "nat i < nat (2 ^ (bits - 1))" using assms(2) False by simp
  then have "nat i < 2 ^ (bits - 1)" by (simp add: nat_power_eq)
  then show ?thesis using False digits_no_sign [OF decimal_digits] by (simp add: parse_signed_def show_int_def)
qed

lemma show_int_plain: "plain_word (show_int i)"
proof -
  have "\<not> is_whitespace ''-''" by code_simp
  then show ?thesis
    using decimal_plain [of "nat i"] decimal_plain [of "nat (- i)"]
    by (auto simp: show_int_def plain_word_def is_ascii_def)
qed

text \<open>Numbers have no whitespace to trim.\<close>

lemma whitespace_not_digit: "list_all (\<lambda>w. \<not> is_ascii_digit (last w) \<and> \<not> is_ascii_digit (hd w)) whitespace_chars"
  by code_simp

lemma trim_digits:
  assumes "list_all is_ascii_digit s"
  shows "trim s = s"
proof -
  have "ws_suffix s = None"
  proof (rule ccontr)
    assume "ws_suffix s \<noteq> None"
    then obtain w where w: "is_whitespace w" "suffix w s" "w \<noteq> []" using ws_suffix_Some by blast
    then have "last w \<in> set s" by (meson last_in_set set_mono_suffix subsetD)
    then show False using assms w(1) whitespace_not_digit by (auto simp: list_all_iff is_whitespace_def)
  qed
  then have e: "trim_end s = s" by (simp add: trim_end.simps)
  have "\<not> is_whitespace (first_char s)"
  proof
    assume ws: "is_whitespace (first_char s)"
    then have "first_char s \<noteq> []" by auto
    moreover have "prefix (first_char s) s" by (cases s) (simp_all add: take_is_prefix del: take_Suc_Cons)
    ultimately have "hd (first_char s) \<in> set s" by (metis hd_in_set set_mono_prefix subsetD)
    then show False using assms ws whitespace_not_digit by (auto simp: list_all_iff is_whitespace_def)
  qed
  then show ?thesis using e by (simp add: trim_def trim_start.simps)
qed

lemma in_map_filter: "y \<in> set (List.map_filter f xs) \<longleftrightarrow> (\<exists>x\<in>set xs. f x = Some y)"
  by (induction xs) (auto simp: map_filter_simps split: option.splits)

lemma sorted_wrt_subseq: "subseq xs ys \<Longrightarrow> sorted_wrt P ys \<Longrightarrow> sorted_wrt P xs"
  by (induction rule: list_emb.induct) (auto dest: list_emb_set)

lemma subseq_distinct: "subseq xs ys \<Longrightarrow> distinct ys \<Longrightarrow> distinct xs"
proof (induction rule: list_emb.induct)
  case (list_emb_Cons2 x y xs ys)
  then show ?case by (auto dest: list_emb_set)
qed auto


section \<open>Association lists\<close>

text \<open>
  A \<^verbatim>\<open>HashMap\<close> or \<^verbatim>\<open>BTreeMap\<close> that the code enumerates is an association list with distinct
  keys: \<open>map_of\<close> looks a key up, \<open>alist_put\<close> is \<^verbatim>\<open>insert\<close>, \<open>alist_remove\<close> is
  \<^verbatim>\<open>remove\<close>, \<open>alist_retain\<close> is \<^verbatim>\<open>retain\<close>.
\<close>

definition alist_remove :: "'k \<Rightarrow> ('k \<times> 'v) list \<Rightarrow> ('k \<times> 'v) list" where
  "alist_remove k m = filter (\<lambda>p. fst p \<noteq> k) m"

definition alist_put :: "'k \<Rightarrow> 'v \<Rightarrow> ('k \<times> 'v) list \<Rightarrow> ('k \<times> 'v) list" where
  "alist_put k v m = (k, v) # alist_remove k m"

definition alist_retain :: "('k \<Rightarrow> 'v \<Rightarrow> bool) \<Rightarrow> ('k \<times> 'v) list \<Rightarrow> ('k \<times> 'v) list" where
  "alist_retain P m = filter (\<lambda>(k, v). P k v) m"

definition distinct_keys :: "('k \<times> 'v) list \<Rightarrow> bool" where
  "distinct_keys m \<longleftrightarrow> distinct (map fst m)"

lemma map_of_filter_key: "map_of (filter (\<lambda>p. fst p \<noteq> k) m) = (map_of m)(k := None)"
  by (induction m) (auto simp: fun_eq_iff)

lemma map_of_alist_remove [simp]: "map_of (alist_remove k m) = (map_of m)(k := None)"
  by (simp add: alist_remove_def map_of_filter_key)

lemma map_of_alist_put [simp]: "map_of (alist_put k v m) = (map_of m)(k \<mapsto> v)"
  by (simp add: alist_put_def)

lemma distinct_keys_Nil [simp]: "distinct_keys []"
  by (simp add: distinct_keys_def)

lemma distinct_map_fst_filter: "distinct (map fst m) \<Longrightarrow> distinct (map fst (filter P m))"
  by (induction m) auto

lemma distinct_keys_remove [simp]: "distinct_keys m \<Longrightarrow> distinct_keys (alist_remove k m)"
  by (simp add: distinct_keys_def alist_remove_def distinct_map_fst_filter)

lemma distinct_keys_retain [simp]: "distinct_keys m \<Longrightarrow> distinct_keys (alist_retain P m)"
  by (simp add: distinct_keys_def alist_retain_def distinct_map_fst_filter)

lemma distinct_keys_put [simp]: "distinct_keys m \<Longrightarrow> distinct_keys (alist_put k v m)"
  using distinct_keys_remove [of m k]
  by (auto simp: distinct_keys_def alist_put_def alist_remove_def)

lemma map_of_retain:
  "distinct_keys m \<Longrightarrow>
   map_of (alist_retain P m) k = (case map_of m k of None \<Rightarrow> None | Some v \<Rightarrow> if P k v then Some v else None)"
proof (induction m)
  case (Cons p m)
  obtain a v where p: "p = (a, v)" by (cases p)
  from Cons.prems have d: "distinct_keys m" and a: "a \<notin> fst ` set m"
    by (auto simp: distinct_keys_def p)
  have "k = a \<Longrightarrow> map_of m k = None" using a by (simp add: map_of_eq_None_iff)
  with Cons.IH [OF d] show ?case by (auto simp: p alist_retain_def)
qed (simp add: alist_retain_def)

lemma set_alist_remove: "set (alist_remove k m) = {p \<in> set m. fst p \<noteq> k}"
  by (auto simp: alist_remove_def)

lemma length_alist_remove_le: "length (alist_remove k m) \<le> length m"
  by (simp add: alist_remove_def)

lemma length_alist_put_le: "length (alist_put k v m) \<le> Suc (length m)"
  by (simp add: alist_put_def length_alist_remove_le)

lemma length_alist_remove_absent: "k \<notin> fst ` set m \<Longrightarrow> alist_remove k m = m"
  by (induction m) (auto simp: alist_remove_def)

lemma length_alist_remove_present:
  "distinct_keys m \<Longrightarrow> k \<in> fst ` set m \<Longrightarrow> Suc (length (alist_remove k m)) = length m"
proof (induction m)
  case (Cons p m)
  then show ?case
    using length_alist_remove_absent [of k m]
    by (cases "fst p = k") (auto simp: alist_remove_def distinct_keys_def)
qed simp

lemma length_alist_put_present:
  "distinct_keys m \<Longrightarrow> k \<in> fst ` set m \<Longrightarrow> length (alist_put k v m) = length m"
  by (simp add: alist_put_def length_alist_remove_present)

lemma keys_alist_remove: "fst ` set (alist_remove k m) = fst ` set m - {k}"
  by (auto simp: alist_remove_def)

lemma keys_alist_put: "fst ` set (alist_put k v m) = insert k (fst ` set m)"
  by (auto simp: alist_put_def keys_alist_remove)

lemma list_all_alist_put:
  "list_all P m \<Longrightarrow> P (k, v) \<Longrightarrow> list_all P (alist_put k v m)"
  by (auto simp: alist_put_def alist_remove_def list_all_iff)

lemma list_all_alist_remove: "list_all P m \<Longrightarrow> list_all P (alist_remove k m)"
  by (auto simp: alist_remove_def list_all_iff)

lemma keys_map_of: "k \<in> fst ` set m \<longleftrightarrow> (\<exists>v. map_of m k = Some v)"
  by (metis map_of_eq_None_iff not_None_eq)

lemma distinct_keys_set_map_of: "distinct_keys m \<Longrightarrow> (k, v) \<in> set m \<longleftrightarrow> map_of m k = Some v"
  by (auto simp: distinct_keys_def)

lemma map_of_SomeD_set: "map_of m k = Some v \<Longrightarrow> (k, v) \<in> set m"
  by (rule map_of_SomeD)


section \<open>Components as transition systems\<close>

text \<open>The states that a component can be in: those it starts in and those its operations
  lead to.\<close>

inductive reachable :: "('s \<Rightarrow> bool) \<Rightarrow> ('s \<Rightarrow> 's \<Rightarrow> bool) \<Rightarrow> 's \<Rightarrow> bool"
  for start :: "'s \<Rightarrow> bool" and step :: "'s \<Rightarrow> 's \<Rightarrow> bool" where
  reachable_start: "start s \<Longrightarrow> reachable start step s"
| reachable_step: "reachable start step s \<Longrightarrow> step s t \<Longrightarrow> reachable start step t"

text \<open>The contract of a stateful component: its start states satisfy the invariant and every
  operation keeps it. Whoever uses the component may then rely on the invariant whatever
  operations were called in whatever order.\<close>

locale component =
  fixes start :: "'s \<Rightarrow> bool"
    and step :: "'s \<Rightarrow> 's \<Rightarrow> bool"
    and invar :: "'s \<Rightarrow> bool"
  assumes start_invar: "start s \<Longrightarrow> invar s"
    and step_invar: "step s t \<Longrightarrow> invar s \<Longrightarrow> invar t"
begin

lemma reachable_invar: "reachable start step s \<Longrightarrow> invar s"
  by (induction rule: reachable.induct) (auto intro: start_invar step_invar)

lemma reachable_induct_invar:
  assumes "reachable start step s"
    and "\<And>s. start s \<Longrightarrow> P s"
    and "\<And>s t. invar s \<Longrightarrow> P s \<Longrightarrow> step s t \<Longrightarrow> P t"
  shows "P s"
  using assms(1)
proof (induction rule: reachable.induct)
  case (reachable_step s t)
  then show ?case using assms(3) reachable_invar by blast
qed (rule assms(2))

end

end
