(* ===== verification/Text_Tokens.thy ===== *)
theory Text_Tokens
  imports Prelude
begin

text \<open>
  The tokenizers of \<^verbatim>\<open>src/src/text.rs\<close> that feed the lexical index: the ASCII trigram
  tokenizer, the splitting of identifiers into segments (the loop over characters and its
  optimised version over bytes) and the code-aware token stream. The theorems say that the
  optimised splitter agrees with the loop over characters, that segments are ordered, lie in
  the token and lose no alphanumeric byte, and what the two token streams emit.
\<close>

section \<open>Segments of an identifier\<close>

record PendingSegment =
  offset_from :: nat
  offset_to :: nat

text \<open>The local variables of the two splitting loops.\<close>

record split_state =
  segments :: "PendingSegment list"
  current_start :: "nat option"
  current_end :: nat
  prev_is_lower :: bool
  prev_is_alpha :: bool

definition push_current_segment ::
    "PendingSegment list \<Rightarrow> nat option \<Rightarrow> nat \<Rightarrow> nat \<Rightarrow> PendingSegment list \<times> nat option" where
  "push_current_segment segs start base to =
     (case start of
        None \<Rightarrow> (segs, None)
      | Some from \<Rightarrow> (segs @ [\<lparr>offset_from = base + from, offset_to = to\<rparr>], None))"

definition push_state :: "nat \<Rightarrow> split_state \<Rightarrow> split_state" where
  "push_state base st =
     (let (segs, start) =
        push_current_segment (segments st) (current_start st) base (base + current_end st)
      in st\<lparr>segments := segs, current_start := start\<rparr>)"

definition split_init :: "PendingSegment list \<Rightarrow> split_state" where
  "split_init segs =
     \<lparr>segments = segs, current_start = None, current_end = 0,
      prev_is_lower = False, prev_is_alpha = False\<rparr>"

text \<open>One iteration of the loop over \<^verbatim>\<open>token.char_indices()\<close>.\<close>

definition split_char_step :: "nat \<Rightarrow> split_state \<Rightarrow> nat \<times> string \<Rightarrow> split_state" where
  "split_char_step base st item =
     (let (offset, ch) = item in
      if \<not> char_is is_ascii_alphanumeric ch
      then (push_state base st)\<lparr>prev_is_lower := False, prev_is_alpha := False\<rparr>
      else
        let is_upper = char_is is_ascii_uppercase ch;
            is_alpha = char_is is_ascii_alphabetic ch;
            st1 = (if current_start st \<noteq> None \<and> is_upper \<and> prev_is_lower st
                   then push_state base st else st);
            st2 = (if current_start st1 \<noteq> None \<and> is_alpha \<noteq> prev_is_alpha st1
                   then push_state base st1 else st1);
            st3 = (if current_start st2 = None then st2\<lparr>current_start := Some offset\<rparr> else st2)
        in st3\<lparr>current_end := offset + length ch,
               prev_is_lower := char_is is_ascii_lowercase ch,
               prev_is_alpha := is_alpha\<rparr>)"

text \<open>One iteration of the loop over the bytes of an ASCII token.\<close>

definition split_byte_step :: "nat \<Rightarrow> split_state \<Rightarrow> nat \<times> char \<Rightarrow> split_state" where
  "split_byte_step base st item =
     (let (offset, byte) = item in
      if \<not> is_ascii_alphanumeric byte
      then (push_state base st)\<lparr>prev_is_lower := False, prev_is_alpha := False\<rparr>
      else
        let is_upper = is_ascii_uppercase byte;
            is_alpha = is_ascii_alphabetic byte;
            st1 = (if current_start st \<noteq> None \<and> is_upper \<and> prev_is_lower st
                   then push_state base st else st);
            st2 = (if current_start st1 \<noteq> None \<and> is_alpha \<noteq> prev_is_alpha st1
                   then push_state base st1 else st1);
            st3 = (if current_start st2 = None then st2\<lparr>current_start := Some offset\<rparr> else st2)
        in st3\<lparr>current_end := offset + 1,
               prev_is_lower := is_ascii_lowercase byte,
               prev_is_alpha := is_alpha\<rparr>)"

definition split_chars_with_offsets ::
    "string \<Rightarrow> nat \<Rightarrow> PendingSegment list \<Rightarrow> PendingSegment list" where
  "split_chars_with_offsets token base segs =
     segments (push_state base
       (foldl (split_char_step base) (split_init segs) (char_indices 0 token)))"

definition split_ascii_identifier_segments_with_offsets ::
    "string \<Rightarrow> nat \<Rightarrow> PendingSegment list \<Rightarrow> PendingSegment list" where
  "split_ascii_identifier_segments_with_offsets token base segs =
     (if list_all is_ascii_lowercase token \<or> list_all is_ascii_digit token
      then if token \<noteq> []
           then segs @ [\<lparr>offset_from = base, offset_to = base + length token\<rparr>]
           else segs
      else segments (push_state base
             (foldl (split_byte_step base) (split_init segs) (List.enumerate 0 token))))"

definition split_identifier_segments_with_offsets ::
    "string \<Rightarrow> nat \<Rightarrow> PendingSegment list \<Rightarrow> PendingSegment list" where
  "split_identifier_segments_with_offsets token base segs =
     (if list_all is_ascii token
      then split_ascii_identifier_segments_with_offsets token base segs
      else split_chars_with_offsets token base segs)"

definition split_identifier_segments :: "string \<Rightarrow> string list" where
  "split_identifier_segments token =
     map (\<lambda>seg. to_ascii_lowercase (slice_of token (offset_from seg) (offset_to seg)))
       (split_identifier_segments_with_offsets token 0 [])"

definition push_ascii_lowercase :: "string \<Rightarrow> string \<Rightarrow> string" where
  "push_ascii_lowercase output tx =
     (if list_ex is_ascii_uppercase tx
      then output @ map to_ascii_lowercase_byte tx
      else output @ tx)"


section \<open>The loop over characters is the loop over bytes\<close>

text \<open>The segments that the loop over the bytes finds in a token.\<close>

definition split_bytes :: "string \<Rightarrow> nat \<Rightarrow> PendingSegment list \<Rightarrow> PendingSegment list" where
  "split_bytes token base segs =
     segments (push_state base
       (foldl (split_byte_step base) (split_init segs) (List.enumerate 0 token)))"

lemma push_state_simps [simp]:
  "current_start (push_state base st) = None"
  "current_end (push_state base st) = current_end st"
  "prev_is_lower (push_state base st) = prev_is_lower st"
  "prev_is_alpha (push_state base st) = prev_is_alpha st"
  by (auto simp: push_state_def push_current_segment_def split: option.splits prod.splits)

lemma push_state_idle: "current_start st = None \<Longrightarrow> push_state base st = st"
  by (simp add: push_state_def push_current_segment_def)

lemma split_byte_step_reset:
  "\<not> is_ascii_alphanumeric b \<Longrightarrow>
   split_byte_step base st (i, b) =
     (push_state base st)\<lparr>prev_is_lower := False, prev_is_alpha := False\<rparr>"
  by (simp add: split_byte_step_def)

lemma split_char_step_ascii: "split_char_step base st (i, [b]) = split_byte_step base st (i, b)"
  by (simp add: split_char_step_def split_byte_step_def Let_def)

lemma split_char_step_wide:
  "length ch \<noteq> 1 \<Longrightarrow>
   split_char_step base st (i, ch) =
     (push_state base st)\<lparr>prev_is_lower := False, prev_is_alpha := False\<rparr>"
  by (cases ch rule: remdups_adj.cases) (simp_all add: split_char_step_def)

lemma split_bytes_reset:
  assumes "list_all (\<lambda>b. \<not> is_ascii_alphanumeric b) bs" and "bs \<noteq> []"
  shows "foldl (split_byte_step base) st (List.enumerate i bs) =
     (push_state base st)\<lparr>prev_is_lower := False, prev_is_alpha := False\<rparr>"
  using assms
proof (induction bs arbitrary: i st)
  case (Cons b bs)
  then show ?case
    by (cases "bs = []") (auto simp: split_byte_step_reset push_state_idle)
qed simp

lemma wide_not_alnum: "128 \<le> code c \<Longrightarrow> \<not> is_ascii_alphanumeric c"
  using alnum_is_ascii [of c] by (auto simp: is_ascii_def)

lemma first_char_wide:
  assumes "utf8_shape (b # bs)" and "\<not> is_ascii b"
  shows "first_char (b # bs) = b # take (utf8_width b - 1) bs"
    and "length (first_char (b # bs)) = utf8_width b"
    and "1 < utf8_width b"
    and "list_all (\<lambda>c. \<not> is_ascii_alphanumeric c) (first_char (b # bs))"
proof -
  show fc: "first_char (b # bs) = b # take (utf8_width b - 1) bs"
    using utf8_width_pos [of b] by (simp add: take_Cons')
  show "length (first_char (b # bs)) = utf8_width b" using assms by simp
  show "1 < utf8_width b" using assms(2) by (simp add: utf8_width_def is_ascii_def)
  have "128 \<le> code b" using assms(2) by (simp add: is_ascii_def)
  moreover have "list_all (\<lambda>c. 128 \<le> code c) (take (utf8_width b - 1) bs)"
    using assms by (auto simp: list_all_iff)
  ultimately show "list_all (\<lambda>c. \<not> is_ascii_alphanumeric c) (first_char (b # bs))"
    unfolding fc by (auto simp: list_all_iff wide_not_alnum)
qed

lemma utf8_shape_drop:
  "utf8_shape (b # bs) \<Longrightarrow> utf8_shape (drop (length (first_char (b # bs))) (b # bs))"
proof (cases "is_ascii b")
  case True
  then show "utf8_shape (b # bs) \<Longrightarrow> ?thesis" by (simp add: take_Cons')
next
  case False
  assume sh: "utf8_shape (b # bs)"
  have "drop (length (first_char (b # bs))) (b # bs) = drop (utf8_width b - 1) bs"
    using first_char_wide(2,3) [OF sh False] by (simp add: drop_Cons' del: first_char.simps)
  with sh False show ?thesis by (simp del: first_char.simps)
qed

lemma char_loop_byte_loop:
  "utf8_shape s \<Longrightarrow>
   foldl (split_char_step base) st (char_indices off s)
     = foldl (split_byte_step base) st (List.enumerate off s)"
proof (induction off s arbitrary: st rule: char_indices.induct)
  case (1 off)
  then show ?case by simp
next
  case (2 off b bs)
  let ?ch = "first_char (b # bs)"
  let ?rest = "drop (length ?ch) (b # bs)"
  have app: "?ch @ ?rest = b # bs" by (rule first_char_append_drop)
  have IH: "foldl (split_char_step base) st' (char_indices (off + length ?ch) ?rest)
      = foldl (split_byte_step base) st' (List.enumerate (off + length ?ch) ?rest)" for st'
    using "2.IH" [OF refl utf8_shape_drop [OF "2.prems"]] .
  have one: "split_char_step base st (off, ?ch)
      = foldl (split_byte_step base) st (List.enumerate off ?ch)"
  proof (cases "is_ascii b")
    case True
    then show ?thesis by (simp add: split_char_step_ascii take_Cons')
  next
    case False
    note w = first_char_wide [OF "2.prems" False]
    have "length ?ch \<noteq> 1" using w(2,3) by simp
    moreover have "?ch \<noteq> []" by simp
    ultimately show ?thesis using w(4) by (simp add: split_char_step_wide split_bytes_reset del: first_char.simps)
  qed
  have "foldl (split_char_step base) st (char_indices off (b # bs))
      = foldl (split_byte_step base) st (List.enumerate off ?ch @ List.enumerate (off + length ?ch) ?rest)"
    by (simp add: Let_def one IH del: first_char.simps)
  also have "\<dots> = foldl (split_byte_step base) st (List.enumerate off (?ch @ ?rest))"
    by (simp add: enumerate_append_eq del: first_char.simps)
  finally show ?case by (simp only: app)
qed

lemma split_chars_eq_split_bytes:
  "utf8_shape token \<Longrightarrow> split_chars_with_offsets token base segs = split_bytes token base segs"
  by (simp add: split_chars_with_offsets_def split_bytes_def char_loop_byte_loop)

text \<open>Inside a run of lowercase letters, or of digits, no segment ends.\<close>

lemma split_bytes_run:
  assumes "list_all (\<lambda>b. is_ascii_alphanumeric b \<and> \<not> is_ascii_uppercase b
             \<and> is_ascii_alphabetic b = al) bs"
    and "current_start st = Some s" and "prev_is_alpha st = al"
  shows "\<exists>st'. foldl (split_byte_step base) st (List.enumerate i bs) = st'
           \<and> segments st' = segments st \<and> current_start st' = Some s
           \<and> current_end st' = (if bs = [] then current_end st else i + length bs)"
  using assms
proof (induction bs arbitrary: i st)
  case (Cons b bs)
  let ?st = "split_byte_step base st (i, b)"
  have st: "segments ?st = segments st" "current_start ?st = Some s"
    "current_end ?st = Suc i" "prev_is_alpha ?st = al"
    using Cons.prems by (auto simp: split_byte_step_def Let_def)
  with Cons.IH [of ?st "Suc i"] Cons.prems(1) show ?case by auto
qed simp

lemma split_bytes_uniform:
  assumes "list_all (\<lambda>b. is_ascii_alphanumeric b \<and> \<not> is_ascii_uppercase b
             \<and> is_ascii_alphabetic b = al) (b # bs)"
  shows "split_bytes (b # bs) base segs
      = segs @ [\<lparr>offset_from = base, offset_to = base + length (b # bs)\<rparr>]"
proof -
  let ?st = "split_byte_step base (split_init segs) (0, b)"
  have st: "segments ?st = segs" "current_start ?st = Some 0" "current_end ?st = 1"
    "prev_is_alpha ?st = al"
    using assms by (auto simp: split_byte_step_def split_init_def Let_def)
  obtain st' where "foldl (split_byte_step base) ?st (List.enumerate 1 bs) = st'"
    "segments st' = segs" "current_start st' = Some 0"
    "current_end st' = (if bs = [] then 1 else 1 + length bs)"
    using split_bytes_run [of al bs ?st 0 base 1] assms st by auto
  then show ?thesis
    by (auto simp: split_bytes_def push_state_def push_current_segment_def split: if_splits)
qed

lemma fast_path_eq_split_bytes:
  "split_ascii_identifier_segments_with_offsets token base segs = split_bytes token base segs"
proof -
  consider "token = []"
    | b bs where "token = b # bs" "list_all is_ascii_lowercase token"
    | b bs where "token = b # bs" "list_all is_ascii_digit token"
    | "\<not> list_all is_ascii_lowercase token" "\<not> list_all is_ascii_digit token"
    by (cases token) auto
  then show ?thesis
  proof cases
    case 1
    then show ?thesis
      by (simp add: split_ascii_identifier_segments_with_offsets_def split_bytes_def
            split_init_def push_state_idle)
  next
    case 2
    have "list_all (\<lambda>b. is_ascii_alphanumeric b \<and> \<not> is_ascii_uppercase b
             \<and> is_ascii_alphabetic b = True) token"
      using 2(2) by (auto simp: list_all_iff rust_defs)
    with 2 show ?thesis
      using split_bytes_uniform [of True b bs base segs]
      by (simp add: split_ascii_identifier_segments_with_offsets_def)
  next
    case 3
    have "list_all (\<lambda>b. is_ascii_alphanumeric b \<and> \<not> is_ascii_uppercase b
             \<and> is_ascii_alphabetic b = False) token"
      using 3(2) by (auto simp: list_all_iff rust_defs)
    with 3 show ?thesis
      using split_bytes_uniform [of False b bs base segs]
      by (simp add: split_ascii_identifier_segments_with_offsets_def)
  next
    case 4
    then show ?thesis
      by (simp add: split_ascii_identifier_segments_with_offsets_def split_bytes_def)
  qed
qed

lemma split_identifier_eq_split_bytes:
  "utf8_shape token \<Longrightarrow>
   split_identifier_segments_with_offsets token base segs = split_bytes token base segs"
  by (simp add: split_identifier_segments_with_offsets_def fast_path_eq_split_bytes
        split_chars_eq_split_bytes)


section \<open>What the segments are\<close>

text \<open>Segments in increasing order between two offsets, none of them empty.\<close>

fun segs_in :: "nat \<Rightarrow> nat \<Rightarrow> PendingSegment list \<Rightarrow> bool" where
  "segs_in lo hi [] = (lo \<le> hi)"
| "segs_in lo hi (seg # segs) =
     (lo \<le> offset_from seg \<and> offset_from seg < offset_to seg \<and> segs_in (offset_to seg) hi segs)"

definition seg_text :: "string \<Rightarrow> nat \<Rightarrow> PendingSegment \<Rightarrow> string" where
  "seg_text token base seg = slice_of token (offset_from seg - base) (offset_to seg - base)"

definition uniform_text :: "string \<Rightarrow> bool" where
  "uniform_text s \<longleftrightarrow> list_all is_ascii_alphabetic s \<or> list_all is_ascii_digit s"

lemma segs_in_le: "segs_in lo hi segs \<Longrightarrow> lo \<le> hi"
  by (induction segs arbitrary: lo) (auto dest: less_imp_le order_trans)

lemma segs_in_mono: "segs_in lo hi segs \<Longrightarrow> hi \<le> hi' \<Longrightarrow> segs_in lo hi' segs"
  by (induction segs arbitrary: lo) auto

lemma segs_in_lower: "segs_in lo hi segs \<Longrightarrow> lo' \<le> lo \<Longrightarrow> segs_in lo' hi segs"
  by (cases segs) auto

lemma segs_in_append:
  "segs_in lo hi (xs @ ys) \<longleftrightarrow> (\<exists>m. segs_in lo m xs \<and> segs_in m hi ys)"
proof (induction xs arbitrary: lo)
  case Nil
  show ?case by (auto intro: segs_in_lower)
next
  case (Cons x xs)
  then show ?case by auto
qed

lemma segs_in_bounds:
  "segs_in lo hi segs \<Longrightarrow> seg \<in> set segs \<Longrightarrow>
   lo \<le> offset_from seg \<and> offset_from seg < offset_to seg \<and> offset_to seg \<le> hi"
proof (induction segs arbitrary: lo)
  case (Cons x xs)
  then show ?case
    using segs_in_le [of "offset_to x" hi xs] by (fastforce dest: less_imp_le)
qed simp

definition split_inv :: "string \<Rightarrow> nat \<Rightarrow> PendingSegment list \<Rightarrow> nat \<Rightarrow> split_state \<Rightarrow> bool" where
  "split_inv token base segs0 i st \<longleftrightarrow>
     (\<exists>new. segments st = segs0 @ new
        \<and> list_all (\<lambda>seg. uniform_text (seg_text token base seg)) new
        \<and> (case current_start st of
             None \<Rightarrow> segs_in base (base + i) new
               \<and> concat (map (seg_text token base) new) = filter is_ascii_alphanumeric (take i token)
           | Some s \<Rightarrow> current_end st = i \<and> s < i \<and> segs_in base (base + s) new
               \<and> concat (map (seg_text token base) new) @ slice_of token s i
                   = filter is_ascii_alphanumeric (take i token)
               \<and> list_all (if prev_is_alpha st then is_ascii_alphabetic else is_ascii_digit)
                   (slice_of token s i)))"

lemma split_inv_init: "split_inv token base segs 0 (split_init segs)"
  by (simp add: split_inv_def split_init_def)

lemma split_inv_push: "split_inv token base segs i st \<Longrightarrow> split_inv token base segs i (push_state base st)"
proof (cases "current_start st")
  case None
  then show "split_inv token base segs i st \<Longrightarrow> ?thesis" by (simp add: push_state_idle)
next
  case (Some s)
  assume inv: "split_inv token base segs i st"
  let ?seg = "\<lparr>offset_from = base + s, offset_to = base + i\<rparr>"
  from inv Some obtain new where new: "segments st = segs @ new" "current_end st = i" "s < i"
      "segs_in base (base + s) new"
      "concat (map (seg_text token base) new) @ slice_of token s i
         = filter is_ascii_alphanumeric (take i token)"
      "list_all (if prev_is_alpha st then is_ascii_alphabetic else is_ascii_digit) (slice_of token s i)"
      "list_all (\<lambda>seg. uniform_text (seg_text token base seg)) new"
    by (auto simp: split_inv_def)
  have "seg_text token base ?seg = slice_of token s i" by (simp add: seg_text_def)
  moreover from this new(6) have "uniform_text (seg_text token base ?seg)"
    by (auto simp: uniform_text_def split: if_splits)
  moreover have "segs_in base (base + i) (new @ [?seg])"
    using new(3,4) by (auto simp: segs_in_append intro!: exI [of _ "base + s"])
  moreover have "segments (push_state base st) = segs @ (new @ [?seg])"
    using Some new(1,2) by (simp add: push_state_def push_current_segment_def)
  ultimately show ?thesis
    using new(5,7) unfolding split_inv_def by (intro exI [of _ "new @ [?seg]"]) simp
qed

lemma split_inv_step_reset:
  assumes "split_inv token base segs i st" and "i < length token"
    and "\<not> is_ascii_alphanumeric (token ! i)"
  shows "split_inv token base segs (Suc i) (split_byte_step base st (i, token ! i))"
proof -
  have "split_inv token base segs i (push_state base st)" by (rule split_inv_push) fact
  then obtain new where "segments (push_state base st) = segs @ new"
      "list_all (\<lambda>seg. uniform_text (seg_text token base seg)) new"
      "segs_in base (base + i) new"
      "concat (map (seg_text token base) new) = filter is_ascii_alphanumeric (take i token)"
    by (auto simp: split_inv_def)
  then show ?thesis
    using assms(2,3) segs_in_mono [of base "base + i" new "base + Suc i"]
    unfolding split_inv_def split_byte_step_reset [OF assms(3)]
    by (intro exI [of _ new]) (simp add: take_Suc_conv_app_nth)
qed

text \<open>A byte that opens a new segment, and one that extends the open segment.\<close>

lemma split_inv_open:
  assumes inv: "split_inv token base segs i st" and idle: "current_start st = None"
    and i: "i < length token" and alnum: "is_ascii_alphanumeric (token ! i)"
  shows "split_inv token base segs (Suc i)
     (st\<lparr>current_start := Some i, current_end := Suc i, prev_is_lower := l,
         prev_is_alpha := is_ascii_alphabetic (token ! i)\<rparr>)"
proof -
  from inv idle obtain new where "segments st = segs @ new"
      "list_all (\<lambda>seg. uniform_text (seg_text token base seg)) new"
      "segs_in base (base + i) new"
      "concat (map (seg_text token base) new) = filter is_ascii_alphanumeric (take i token)"
    by (auto simp: split_inv_def)
  moreover have "slice_of token i (Suc i) = [token ! i]"
    using i slice_snoc [of i i token] by simp
  moreover have "is_ascii_alphabetic (token ! i) \<or> is_ascii_digit (token ! i)"
    using alnum by (simp add: is_ascii_alphanumeric_def)
  ultimately show ?thesis
    using i alnum unfolding split_inv_def
    by (intro exI [of _ new]) (auto simp: take_Suc_conv_app_nth)
qed

lemma split_inv_extend:
  assumes inv: "split_inv token base segs i st" and open_seg: "current_start st = Some s"
    and i: "i < length token" and alnum: "is_ascii_alphanumeric (token ! i)"
    and kind: "is_ascii_alphabetic (token ! i) = prev_is_alpha st"
  shows "split_inv token base segs (Suc i)
     (st\<lparr>current_end := Suc i, prev_is_lower := l,
         prev_is_alpha := is_ascii_alphabetic (token ! i)\<rparr>)"
proof -
  from inv open_seg obtain new where new: "segments st = segs @ new" "s < i"
      "list_all (\<lambda>seg. uniform_text (seg_text token base seg)) new"
      "segs_in base (base + s) new"
      "concat (map (seg_text token base) new) @ slice_of token s i
         = filter is_ascii_alphanumeric (take i token)"
      "list_all (if prev_is_alpha st then is_ascii_alphabetic else is_ascii_digit) (slice_of token s i)"
    by (auto simp: split_inv_def)
  have sl: "slice_of token s (Suc i) = slice_of token s i @ [token ! i]"
    using i new(2) by (simp add: slice_snoc)
  moreover have "\<not> is_ascii_alphabetic (token ! i) \<Longrightarrow> is_ascii_digit (token ! i)"
    using alnum by (simp add: is_ascii_alphanumeric_def)
  moreover have "filter is_ascii_alphanumeric (take (Suc i) token)
      = filter is_ascii_alphanumeric (take i token) @ [token ! i]"
    using i alnum by (simp add: take_Suc_conv_app_nth)
  moreover have "concat (map (seg_text token base) new) @ slice_of token s (Suc i)
      = filter is_ascii_alphanumeric (take i token) @ [token ! i]"
    using new(5) sl by (simp flip: append_assoc)
  ultimately show ?thesis
    using new kind open_seg unfolding split_inv_def
    by (intro exI [of _ new]) auto
qed

lemma split_inv_step:
  assumes inv: "split_inv token base segs i st" and i: "i < length token"
  shows "split_inv token base segs (Suc i) (split_byte_step base st (i, token ! i))"
proof (cases "is_ascii_alphanumeric (token ! i)")
  case False
  then show ?thesis by (rule split_inv_step_reset [OF inv i])
next
  case True
  define st1 where "st1 = (if current_start st \<noteq> None \<and> is_ascii_uppercase (token ! i) \<and> prev_is_lower st
     then push_state base st else st)"
  define st2 where "st2 = (if current_start st1 \<noteq> None
     \<and> is_ascii_alphabetic (token ! i) \<noteq> prev_is_alpha st1 then push_state base st1 else st1)"
  have inv2: "split_inv token base segs i st2"
    using inv split_inv_push by (simp add: st1_def st2_def)
  have kind2: "current_start st2 \<noteq> None \<Longrightarrow> is_ascii_alphabetic (token ! i) = prev_is_alpha st2"
    by (auto simp: st2_def split: if_splits)
  have step: "split_byte_step base st (i, token ! i)
      = (if current_start st2 = None then st2\<lparr>current_start := Some i\<rparr> else st2)
          \<lparr>current_end := Suc i, prev_is_lower := is_ascii_lowercase (token ! i),
           prev_is_alpha := is_ascii_alphabetic (token ! i)\<rparr>"
    using True by (simp add: split_byte_step_def st1_def st2_def Let_def)
  show ?thesis
  proof (cases "current_start st2")
    case None
    show ?thesis unfolding step using split_inv_open [OF inv2 None i True] None by simp
  next
    case (Some s)
    show ?thesis unfolding step
      using split_inv_extend [OF inv2 Some i True kind2] Some by simp
  qed
qed

lemma split_inv_loop:
  "split_inv token base segs i st \<Longrightarrow> i \<le> length token \<Longrightarrow>
   split_inv token base segs (length token)
     (foldl (split_byte_step base) st (List.enumerate i (drop i token)))"
proof (induction "length token - i" arbitrary: i st)
  case 0
  then show ?case by simp
next
  case (Suc n)
  then have i: "i < length token" by simp
  then have "drop i token = token ! i # drop (Suc i) token"
    by (simp add: Cons_nth_drop_Suc)
  moreover have "split_inv token base segs (Suc i) (split_byte_step base st (i, token ! i))"
    by (rule split_inv_step) (use Suc.prems i in auto)
  ultimately show ?case using Suc.hyps(1) [of "Suc i"] Suc.hyps(2) i by simp
qed

lemma split_bytes_sound:
  "\<exists>new. split_bytes token base segs = segs @ new
     \<and> segs_in base (base + length token) new
     \<and> concat (map (seg_text token base) new) = filter is_ascii_alphanumeric token
     \<and> list_all (\<lambda>seg. uniform_text (seg_text token base seg)) new"
proof -
  let ?st = "foldl (split_byte_step base) (split_init segs) (List.enumerate 0 token)"
  have "split_inv token base segs (length token) ?st"
    using split_inv_loop [of token base segs 0 "split_init segs"] by (simp add: split_inv_init)
  then have "split_inv token base segs (length token) (push_state base ?st)"
    by (rule split_inv_push)
  then show ?thesis by (auto simp: split_inv_def split_bytes_def)
qed


section \<open>The trigram tokenizer\<close>

text \<open>A \<^verbatim>\<open>tantivy::tokenizer::Token\<close>, the record that a token stream fills in.\<close>

record token =
  tok_from :: nat
  tok_to :: nat
  tok_position :: nat
  tok_text :: string
  tok_position_length :: nat

record AsciiTrigramTokenStream =
  tri_text :: string
  tri_cursor :: nat
  tri_token :: token

text \<open>The token that the tokenizer keeps is reset by \<^verbatim>\<open>Token::reset\<close>, a function of the
  tokenizer API: its result is the argument \<open>reset\<close>.\<close>

definition trigram_token_stream :: "token \<Rightarrow> string \<Rightarrow> AsciiTrigramTokenStream" where
  "trigram_token_stream reset tx = \<lparr>tri_text = tx, tri_cursor = 0, tri_token = reset\<rparr>"

text \<open>\<^verbatim>\<open>AsciiTrigramTokenStream::advance\<close>: the flag says whether a token was produced.\<close>

function trigram_advance :: "AsciiTrigramTokenStream \<Rightarrow> bool \<times> AsciiTrigramTokenStream" where
  "trigram_advance st =
     (if tri_cursor st + 3 \<le> length (tri_text st)
      then
        let start = tri_cursor st;
            st1 = st\<lparr>tri_cursor := start + 1\<rparr>;
            trigram = slice_of (tri_text st) start (start + 3)
        in if \<not> list_all is_ascii_alphanumeric trigram then trigram_advance st1
           else (True, st1\<lparr>tri_token := (tri_token st1)
                   \<lparr>tok_from := start, tok_to := start + 3, tok_position := start,
                    tok_text := map to_ascii_lowercase_byte trigram\<rparr>\<rparr>)
      else (False, st))"
  by pat_completeness auto
termination
  by (relation "measure (\<lambda>st. length (tri_text st) - tri_cursor st)") auto

declare trigram_advance.simps [simp del]

text \<open>What a consumer sees that calls \<^verbatim>\<open>advance\<close> until it answers \<^verbatim>\<open>false\<close>.\<close>

lemma trigram_advance_progress:
  "trigram_advance st = (True, st') \<Longrightarrow>
   tri_text st' = tri_text st \<and> tri_cursor st < tri_cursor st' \<and> tri_cursor st' \<le> length (tri_text st)"
proof (induction st arbitrary: st' rule: trigram_advance.induct)
  case (1 st)
  show ?case
    using 1 by (subst (asm) (2) trigram_advance.simps)
      (fastforce simp: Let_def split: if_splits)
qed

function trigram_drain :: "AsciiTrigramTokenStream \<Rightarrow> token list" where
  "trigram_drain st =
     (case trigram_advance st of
        (True, st') \<Rightarrow> tri_token st' # trigram_drain st'
      | (False, _) \<Rightarrow> [])"
  by pat_completeness auto
termination
proof (relation "measure (\<lambda>st. length (tri_text st) - tri_cursor st)", goal_cases)
  case (2 st ok st')
  then show ?case using trigram_advance_progress [of st st'] by auto
qed simp

declare trigram_drain.simps [simp del]

definition trigram_tokens :: "token \<Rightarrow> string \<Rightarrow> token list" where
  "trigram_tokens reset tx = trigram_drain (trigram_token_stream reset tx)"

text \<open>The positions at which three alphanumeric bytes start.\<close>

definition trigram_at :: "string \<Rightarrow> nat \<Rightarrow> bool" where
  "trigram_at tx i \<longleftrightarrow>
     i + 3 \<le> length tx \<and> list_all is_ascii_alphanumeric (slice_of tx i (i + 3))"

definition trigram_positions :: "string \<Rightarrow> nat \<Rightarrow> nat list" where
  "trigram_positions tx i = filter (trigram_at tx) [i..<length tx]"

lemma trigram_advance_found:
  "trigram_at (tri_text st) (tri_cursor st) \<Longrightarrow>
   trigram_advance st = (True, st\<lparr>tri_cursor := Suc (tri_cursor st), tri_token := (tri_token st)
     \<lparr>tok_from := tri_cursor st, tok_to := tri_cursor st + 3, tok_position := tri_cursor st,
      tok_text := to_ascii_lowercase (slice_of (tri_text st) (tri_cursor st) (tri_cursor st + 3))\<rparr>\<rparr>)"
  by (subst trigram_advance.simps) (simp add: trigram_at_def Let_def to_ascii_lowercase_def)

lemma trigram_advance_skip:
  assumes "\<not> trigram_at (tri_text st) (tri_cursor st)" and "tri_cursor st < length (tri_text st)"
  shows "fst (trigram_advance st) = fst (trigram_advance (st\<lparr>tri_cursor := Suc (tri_cursor st)\<rparr>))
     \<and> (fst (trigram_advance st) \<longrightarrow>
          snd (trigram_advance st) = snd (trigram_advance (st\<lparr>tri_cursor := Suc (tri_cursor st)\<rparr>)))"
proof (cases "tri_cursor st + 3 \<le> length (tri_text st)")
  case True
  with assms(1) show ?thesis
    by (subst (1 3) trigram_advance.simps) (simp add: trigram_at_def Let_def)
next
  case False
  then show ?thesis
    by (subst (1 2 3) trigram_advance.simps) (simp add: Let_def)
qed

lemma trigram_drain_step:
  "tri_cursor st < length (tri_text st) \<Longrightarrow> \<not> trigram_at (tri_text st) (tri_cursor st) \<Longrightarrow>
   trigram_drain st = trigram_drain (st\<lparr>tri_cursor := Suc (tri_cursor st)\<rparr>)"
  using trigram_advance_skip [of st]
  by (subst (1 2) trigram_drain.simps) (auto split: prod.splits bool.splits)

lemma trigram_drain_positions:
  "tri_cursor st \<le> length (tri_text st) \<Longrightarrow>
   map tok_position (trigram_drain st) = trigram_positions (tri_text st) (tri_cursor st)
   \<and> list_all (\<lambda>t. tok_from t = tok_position t \<and> tok_to t = tok_position t + 3
        \<and> tok_text t = to_ascii_lowercase (slice_of (tri_text st) (tok_position t) (tok_position t + 3)))
      (trigram_drain st)"
proof (induction "length (tri_text st) - tri_cursor st" arbitrary: st)
  case 0
  then have "fst (trigram_advance st) = False"
    by (subst trigram_advance.simps) simp
  then have "trigram_drain st = []"
    by (subst trigram_drain.simps) (auto split: prod.splits bool.splits)
  with 0 show ?case by (simp add: trigram_positions_def)
next
  case (Suc n)
  then have lt: "tri_cursor st < length (tri_text st)" by simp
  then have up: "[tri_cursor st..<length (tri_text st)]
      = tri_cursor st # [Suc (tri_cursor st)..<length (tri_text st)]"
    by (rule upt_conv_Cons)
  show ?case
  proof (cases "trigram_at (tri_text st) (tri_cursor st)")
    case True
    note adv = trigram_advance_found [OF True]
    have "trigram_drain st = tri_token (snd (trigram_advance st)) # trigram_drain (snd (trigram_advance st))"
      by (subst trigram_drain.simps) (simp add: adv)
    then show ?thesis
      using Suc.hyps(1) [of "snd (trigram_advance st)"] Suc.hyps(2) lt True
      by (simp add: adv trigram_positions_def up)
  next
    case False
    then show ?thesis
      using Suc.hyps(1) [of "st\<lparr>tri_cursor := Suc (tri_cursor st)\<rparr>"] Suc.hyps(2) lt
      by (simp add: trigram_drain_step trigram_positions_def up)
  qed
qed


section \<open>The code tokenizer\<close>

text \<open>The separators of \<^verbatim>\<open>is_code_separator\<close>; the last four are the backslash, the double
  quote, the single quote and the backtick.\<close>

definition code_separators :: string where
  "code_separators = ''.:/-()[]{}<>=,;!@#$%^&*+|~?'' @ [CHR 0x5C, CHR 0x22, CHR 0x27, CHR 0x60]"

definition is_code_separator :: "string \<Rightarrow> bool" where
  "is_code_separator ch \<longleftrightarrow> char_is (\<lambda>b. b \<in> set code_separators) ch"

record CodeTokenStream =
  cts_text :: string
  cts_cursor :: nat
  cts_pending :: "PendingSegment list"
  cts_pending_index :: nat
  cts_position :: nat
  cts_token :: token

definition code_token_stream :: "token \<Rightarrow> string \<Rightarrow> CodeTokenStream" where
  "code_token_stream deflt tx =
     \<lparr>cts_text = tx, cts_cursor = 0, cts_pending = [], cts_pending_index = 0,
      cts_position = 0, cts_token = deflt\<rparr>"

text \<open>The two loops of \<^verbatim>\<open>next_word_range\<close>: over the separators and over the word.\<close>

function skip_separators :: "string \<Rightarrow> nat \<Rightarrow> nat" where
  "skip_separators tx cur =
     (if cur < length tx
      then let ch = first_char (drop cur tx)
           in if is_whitespace ch \<or> is_code_separator ch
              then skip_separators tx (cur + length ch) else cur
      else cur)"
  by pat_completeness auto
termination
  by (relation "measure (\<lambda>(tx, cur). length tx - cur)")
    (auto simp: first_char_pos intro!: diff_less_mono2)

function word_end :: "string \<Rightarrow> nat \<Rightarrow> nat" where
  "word_end tx cur =
     (if cur < length tx
      then let ch = first_char (drop cur tx)
           in if is_whitespace ch \<or> is_code_separator ch then cur
              else word_end tx (cur + length ch)
      else cur)"
  by pat_completeness auto
termination
  by (relation "measure (\<lambda>(tx, cur). length tx - cur)")
    (auto simp: first_char_pos intro!: diff_less_mono2)

declare skip_separators.simps [simp del] word_end.simps [simp del]

definition next_word_range :: "CodeTokenStream \<Rightarrow> (nat \<times> nat) option \<times> CodeTokenStream" where
  "next_word_range st =
     (let start = skip_separators (cts_text st) (cts_cursor st)
      in if length (cts_text st) \<le> start then (None, st\<lparr>cts_cursor := start\<rparr>)
         else let stop = word_end (cts_text st) start
              in (Some (start, stop), st\<lparr>cts_cursor := stop\<rparr>))"

lemma skip_separators_bounds:
  "cur \<le> length tx \<Longrightarrow> cur \<le> skip_separators tx cur \<and> skip_separators tx cur \<le> length tx"
proof (induction tx cur rule: skip_separators.induct)
  case (1 tx cur)
  have "cur < length tx \<Longrightarrow> cur + length (first_char (drop cur tx)) \<le> length tx"
    using length_first_char_le [of "drop cur tx"] by simp
  then show ?case using 1
    by (subst (1 2) skip_separators.simps) (force simp: Let_def)
qed

lemma word_end_bounds:
  "cur \<le> length tx \<Longrightarrow> cur \<le> word_end tx cur \<and> word_end tx cur \<le> length tx"
proof (induction tx cur rule: word_end.induct)
  case (1 tx cur)
  have "cur < length tx \<Longrightarrow> cur + length (first_char (drop cur tx)) \<le> length tx"
    using length_first_char_le [of "drop cur tx"] by simp
  then show ?case using 1
    by (subst (1 2) word_end.simps) (force simp: Let_def)
qed

lemma skip_separators_stop:
  assumes "skip_separators tx cur < length tx"
  shows "\<not> is_whitespace (first_char (drop (skip_separators tx cur) tx))
       \<and> \<not> is_code_separator (first_char (drop (skip_separators tx cur) tx))"
  using assms
proof (induction tx cur rule: skip_separators.induct)
  case (1 tx cur)
  then show ?case
    by (cases "cur < length tx \<and> (is_whitespace (first_char (drop cur tx))
          \<or> is_code_separator (first_char (drop cur tx)))")
       (auto simp: skip_separators.simps [of tx cur] Let_def split: if_splits)
qed

lemma word_end_progress:
  assumes "cur < length tx" "\<not> is_whitespace (first_char (drop cur tx))"
    "\<not> is_code_separator (first_char (drop cur tx))"
  shows "cur < word_end tx cur"
proof -
  let ?ch = "first_char (drop cur tx)"
  have "cur + length ?ch \<le> length tx" using assms(1) length_first_char_le [of "drop cur tx"] by simp
  then have "cur + length ?ch \<le> word_end tx (cur + length ?ch)" by (simp add: word_end_bounds)
  moreover have "0 < length ?ch" using assms(1) by (intro first_char_pos) simp
  ultimately have "cur < word_end tx (cur + length ?ch)" by linarith
  then show ?thesis using assms by (subst word_end.simps) (simp add: Let_def)
qed

lemma next_word_range_progress:
  assumes "next_word_range st = (Some (s, e), st1)" and "cts_cursor st \<le> length (cts_text st)"
  shows "cts_cursor st \<le> s \<and> s < e \<and> e \<le> length (cts_text st)
     \<and> st1 = st\<lparr>cts_cursor := e\<rparr>"
proof -
  let ?s = "skip_separators (cts_text st) (cts_cursor st)"
  have se: "s = ?s" "e = word_end (cts_text st) ?s" "?s < length (cts_text st)"
    "st1 = st\<lparr>cts_cursor := e\<rparr>"
    using assms(1) by (auto simp: next_word_range_def Let_def split: if_splits)
  show ?thesis
    using se skip_separators_bounds [OF assms(2)] skip_separators_stop [OF se(3)]
      word_end_progress [OF se(3)] word_end_bounds [of ?s "cts_text st"] by auto
qed

lemma next_word_range_cursor_ge:
  "next_word_range st = (Some r, st1) \<Longrightarrow> length (cts_text st) - cts_cursor st1 < length (cts_text st) - cts_cursor st
     \<and> cts_text st1 = cts_text st"
proof (cases "cts_cursor st \<le> length (cts_text st)")
  case True
  assume "next_word_range st = (Some r, st1)"
  then show ?thesis using next_word_range_progress [of st "fst r" "snd r" st1] True by auto
next
  case False
  then have "skip_separators (cts_text st) (cts_cursor st) = cts_cursor st"
    by (subst skip_separators.simps) simp
  with False show "next_word_range st = (Some r, st1) \<Longrightarrow> ?thesis"
    by (simp add: next_word_range_def Let_def)
qed

text \<open>The loop of \<^verbatim>\<open>fill_next_word_segments\<close>.\<close>

function fill_loop :: "CodeTokenStream \<Rightarrow> bool \<times> CodeTokenStream" where
  "fill_loop st =
     (case next_word_range st of
        (None, st1) \<Rightarrow> (False, st1)
      | (Some (s, e), st1) \<Rightarrow>
          let st2 = st1\<lparr>cts_pending :=
                split_identifier_segments_with_offsets (slice_of (cts_text st1) s e) s (cts_pending st1)\<rparr>
          in if cts_pending st2 \<noteq> [] then (True, st2) else fill_loop st2)"
  by pat_completeness auto
termination
  by (relation "measure (\<lambda>st. length (cts_text st) - cts_cursor st)")
    (auto dest!: sym [of "(Some _, _)"] next_word_range_cursor_ge)

declare fill_loop.simps [simp del]

definition fill_next_word_segments :: "CodeTokenStream \<Rightarrow> bool \<times> CodeTokenStream" where
  "fill_next_word_segments st = fill_loop (st\<lparr>cts_pending := [], cts_pending_index := 0\<rparr>)"

text \<open>The branch of \<^verbatim>\<open>advance\<close> that hands out a pending segment.\<close>

definition emit_segment :: "CodeTokenStream \<Rightarrow> CodeTokenStream" where
  "emit_segment st =
     (let segment = cts_pending st ! cts_pending_index st
      in st\<lparr>cts_pending_index := cts_pending_index st + 1,
            cts_token := (cts_token st)
              \<lparr>tok_from := offset_from segment, tok_to := offset_to segment,
               tok_position := cts_position st,
               tok_text := push_ascii_lowercase []
                 (slice_of (cts_text st) (offset_from segment) (offset_to segment)),
               tok_position_length := 1\<rparr>,
            cts_position := cts_position st + 1\<rparr>)"

text \<open>
  \<^verbatim>\<open>CodeTokenStream::advance\<close>. Its loop runs at most twice: a successful
  \<^verbatim>\<open>fill_next_word_segments\<close> leaves a pending segment (lemma \<open>fill_loop_pending\<close>), which
  the second round hands out.
\<close>

definition code_advance :: "CodeTokenStream \<Rightarrow> bool \<times> CodeTokenStream" where
  "code_advance st =
     (if cts_pending_index st < length (cts_pending st) then (True, emit_segment st)
      else case fill_next_word_segments st of
             (False, st1) \<Rightarrow> (False, st1)
           | (True, st1) \<Rightarrow> (True, emit_segment st1))"

lemma fill_loop_pending:
  "fill_loop st = (True, st1) \<Longrightarrow>
     cts_pending st1 \<noteq> [] \<and> cts_pending_index st1 = cts_pending_index st \<and> cts_text st1 = cts_text st
     \<and> length (cts_text st) - cts_cursor st1 < length (cts_text st) - cts_cursor st"
proof (induction st rule: fill_loop.induct)
  case (1 st)
  obtain r st' where nw: "next_word_range st = (r, st')" by (cases "next_word_range st")
  show ?case
  proof (cases r)
    case None
    with 1(2) nw show ?thesis by (simp add: fill_loop.simps [of st])
  next
    case (Some se)
    obtain s e where se: "se = (s, e)" by (cases se)
    let ?st2 = "st'\<lparr>cts_pending :=
        split_identifier_segments_with_offsets (slice_of (cts_text st') s e) s (cts_pending st')\<rparr>"
    have pr: "length (cts_text st) - cts_cursor st' < length (cts_text st) - cts_cursor st"
      "cts_text st' = cts_text st"
      using next_word_range_cursor_ge nw Some by auto
    have idx: "cts_pending_index st' = cts_pending_index st"
      using nw by (auto simp: next_word_range_def Let_def split: if_splits)
    show ?thesis
    proof (cases "cts_pending ?st2 = []")
      case True
      then have "fill_loop ?st2 = (True, st1)"
        using 1(2) nw Some se by (simp add: fill_loop.simps [of st] Let_def)
      then show ?thesis using 1(1) [OF nw [symmetric] Some se [symmetric] refl] True pr idx by auto
    next
      case False
      then have "st1 = ?st2" using 1(2) nw Some se by (simp add: fill_loop.simps [of st] Let_def)
      then show ?thesis using False pr idx by simp
    qed
  qed
qed

lemma emit_segment_simps [simp]:
  "cts_text (emit_segment st) = cts_text st" "cts_cursor (emit_segment st) = cts_cursor st"
  "cts_pending (emit_segment st) = cts_pending st"
  "cts_pending_index (emit_segment st) = Suc (cts_pending_index st)"
  "cts_position (emit_segment st) = Suc (cts_position st)"
  by (simp_all add: emit_segment_def Let_def)

text \<open>All tokens that the stream hands out before \<^verbatim>\<open>advance\<close> answers \<^verbatim>\<open>false\<close>.\<close>

function code_drain :: "CodeTokenStream \<Rightarrow> token list" where
  "code_drain st =
     (case code_advance st of
        (True, st1) \<Rightarrow> cts_token st1 # code_drain st1
      | (False, _) \<Rightarrow> [])"
  by pat_completeness auto
termination
proof (relation "measures [\<lambda>st. length (cts_text st) - cts_cursor st,
    \<lambda>st. length (cts_pending st) - cts_pending_index st]", goal_cases)
  case (2 st ok st1)
  then show ?case
    by (auto simp: code_advance_def fill_next_word_segments_def
        dest!: fill_loop_pending split: if_splits prod.splits bool.splits)
qed simp

declare code_drain.simps [simp del]

definition code_tokens :: "token \<Rightarrow> string \<Rightarrow> token list" where
  "code_tokens deflt tx = code_drain (code_token_stream deflt tx)"


section \<open>What the code tokenizer emits\<close>

lemma whitespace_not_alnum: "is_whitespace ch \<Longrightarrow> list_all (\<lambda>b. \<not> is_ascii_alphanumeric b) ch"
  by (auto simp: is_whitespace_def whitespace_chars_def rust_defs)

lemma code_separators_not_alnum: "list_all (\<lambda>b. \<not> is_ascii_alphanumeric b) code_separators"
  by (simp add: code_separators_def rust_defs)

lemma separator_not_alnum: "is_code_separator ch \<Longrightarrow> list_all (\<lambda>b. \<not> is_ascii_alphanumeric b) ch"
  using code_separators_not_alnum
  by (auto simp: is_code_separator_def char_is_def list_all_iff split: list.splits)

lemma filter_alnum_Nil: "list_all (\<lambda>b. \<not> is_ascii_alphanumeric b) s \<Longrightarrow> filter is_ascii_alphanumeric s = []"
  by (simp add: list_all_iff filter_empty_conv)

lemma drop_first_char:
  "cur < length tx \<Longrightarrow>
   drop cur tx = first_char (drop cur tx) @ drop (cur + length (first_char (drop cur tx))) tx"
  using first_char_append_drop [of "drop cur tx"] by (simp add: add.commute)

lemma utf8_shape_drop_first:
  "cur < length tx \<Longrightarrow> utf8_shape (drop cur tx) \<Longrightarrow>
   utf8_shape (drop (cur + length (first_char (drop cur tx))) tx)"
  using utf8_shape_drop [of "hd (drop cur tx)" "tl (drop cur tx)"]
  by (simp add: add.commute del: first_char.simps)

lemma utf8_shape_first_append:
  assumes "utf8_shape s" "s \<noteq> []" "utf8_shape r"
  shows "utf8_shape (first_char s @ r)"
proof (cases s)
  case (Cons b bs)
  show ?thesis
  proof (cases "is_ascii b")
    case True
    then show ?thesis using assms(3) Cons by (simp add: take_Cons')
  next
    case False
    note w = first_char_wide [OF assms(1) [unfolded Cons] False]
    have len: "length (take (utf8_width b - 1) bs) = utf8_width b - 1"
      using w(2) unfolding w(1) by simp
    then have "utf8_shape (b # take (utf8_width b - 1) bs @ r)"
      using False assms(1,3) w(3) Cons by (auto simp: min_def)
    then show ?thesis unfolding Cons w(1) by simp
  qed
qed (use assms in simp)

lemma skip_separators_skips:
  "cur \<le> length tx \<Longrightarrow> utf8_shape (drop cur tx) \<Longrightarrow>
   utf8_shape (drop (skip_separators tx cur) tx)
   \<and> filter is_ascii_alphanumeric (drop (skip_separators tx cur) tx)
       = filter is_ascii_alphanumeric (drop cur tx)"
proof (induction tx cur rule: skip_separators.induct)
  case (1 tx cur)
  let ?ch = "first_char (drop cur tx)"
  show ?case
  proof (cases "cur < length tx \<and> (is_whitespace ?ch \<or> is_code_separator ?ch)")
    case True
    then have cur: "cur < length tx" and sep: "is_whitespace ?ch \<or> is_code_separator ?ch" by auto
    have le: "cur + length ?ch \<le> length tx" using cur length_first_char_le [of "drop cur tx"] by simp
    have "filter is_ascii_alphanumeric ?ch = []"
      using sep whitespace_not_alnum separator_not_alnum filter_alnum_Nil by blast
    then have "filter is_ascii_alphanumeric (drop cur tx)
        = filter is_ascii_alphanumeric (drop (cur + length ?ch) tx)"
      by (subst drop_first_char [OF cur]) simp
    moreover have "skip_separators tx cur = skip_separators tx (cur + length ?ch)"
      using True by (subst skip_separators.simps) (simp add: Let_def)
    ultimately show ?thesis
      using "1.IH" [OF cur refl sep le utf8_shape_drop_first [OF cur "1.prems"(2)]] by simp
  next
    case False
    then have "skip_separators tx cur = cur" by (subst skip_separators.simps) (auto simp: Let_def)
    then show ?thesis using "1.prems" by simp
  qed
qed

lemma word_end_shape:
  "cur \<le> length tx \<Longrightarrow> utf8_shape (drop cur tx) \<Longrightarrow>
   utf8_shape (slice_of tx cur (word_end tx cur)) \<and> utf8_shape (drop (word_end tx cur) tx)"
proof (induction tx cur rule: word_end.induct)
  case (1 tx cur)
  let ?ch = "first_char (drop cur tx)"
  show ?case
  proof (cases "cur < length tx \<and> \<not> (is_whitespace ?ch \<or> is_code_separator ?ch)")
    case True
    then have cur: "cur < length tx" and nsep: "\<not> (is_whitespace ?ch \<or> is_code_separator ?ch)" by auto
    let ?w = "word_end tx (cur + length ?ch)"
    have le: "cur + length ?ch \<le> length tx" using cur length_first_char_le [of "drop cur tx"] by simp
    have IH: "utf8_shape (slice_of tx (cur + length ?ch) ?w)" "utf8_shape (drop ?w tx)"
      using "1.IH" [OF cur refl nsep le utf8_shape_drop_first [OF cur "1.prems"(2)]] by simp_all
    have "slice_of tx cur (cur + length ?ch) = ?ch"
      by (simp add: slice_of_def)
    moreover have "slice_of tx cur ?w = slice_of tx cur (cur + length ?ch) @ slice_of tx (cur + length ?ch) ?w"
      using word_end_bounds [OF le] by (simp add: slice_append)
    ultimately have "utf8_shape (slice_of tx cur ?w)"
      using utf8_shape_first_append [OF "1.prems"(2) _ IH(1)] cur by simp
    moreover have "word_end tx cur = ?w" using True by (subst word_end.simps) (simp add: Let_def)
    ultimately show ?thesis using IH(2) by simp
  next
    case False
    then have "word_end tx cur = cur" by (subst word_end.simps) (auto simp: Let_def)
    then show ?thesis using "1.prems" by simp
  qed
qed

lemma seg_text_slice:
  assumes "s \<le> offset_from seg" "offset_from seg < offset_to seg" "offset_to seg \<le> e"
  shows "seg_text (slice_of tx s e) s seg = seg_text tx 0 seg"
  using slice_slice [of s "offset_to seg - s" e tx "offset_from seg - s"] assms
  by (simp add: seg_text_def)

lemma word_segments:
  assumes "cur \<le> s" "s < e" "e \<le> length tx" "utf8_shape (slice_of tx s e)"
  shows "\<exists>new. split_identifier_segments_with_offsets (slice_of tx s e) s [] = new
     \<and> segs_in cur e new
     \<and> concat (map (seg_text tx 0) new) = filter is_ascii_alphanumeric (slice_of tx s e)
     \<and> list_all (\<lambda>seg. uniform_text (seg_text tx 0 seg)) new"
proof -
  obtain new where new: "split_bytes (slice_of tx s e) s [] = new"
      "segs_in s (s + length (slice_of tx s e)) new"
      "concat (map (seg_text (slice_of tx s e) s) new) = filter is_ascii_alphanumeric (slice_of tx s e)"
      "list_all (\<lambda>seg. uniform_text (seg_text (slice_of tx s e) s seg)) new"
    using split_bytes_sound [of "slice_of tx s e" s "[]"] by auto
  have e: "s + length (slice_of tx s e) = e" using assms(2,3) by (simp add: length_slice)
  have seg: "seg_text (slice_of tx s e) s seg = seg_text tx 0 seg" if "seg \<in> set new" for seg
    using segs_in_bounds [OF new(2) that] e by (intro seg_text_slice) auto
  then have "map (seg_text (slice_of tx s e) s) new = map (seg_text tx 0) new" by simp
  with new seg e segs_in_lower [OF new(2) assms(1)] show ?thesis
    by (auto simp: split_identifier_eq_split_bytes [OF assms(4)] list_all_iff)
qed

definition fill_post :: "CodeTokenStream \<Rightarrow> bool \<times> CodeTokenStream \<Rightarrow> bool" where
  "fill_post st r =
     (let tx = cts_text st; rest = filter is_ascii_alphanumeric (drop (cts_cursor st) tx)
      in case r of
           (False, st1) \<Rightarrow> rest = []
         | (True, st1) \<Rightarrow> cts_text st1 = tx \<and> cts_pending st1 \<noteq> []
             \<and> cts_pending_index st1 = cts_pending_index st \<and> cts_position st1 = cts_position st
             \<and> cts_cursor st1 \<le> length tx \<and> utf8_shape (drop (cts_cursor st1) tx)
             \<and> segs_in (cts_cursor st) (cts_cursor st1) (cts_pending st1)
             \<and> list_all (\<lambda>seg. uniform_text (seg_text tx 0 seg)) (cts_pending st1)
             \<and> concat (map (seg_text tx 0) (cts_pending st1))
                 @ filter is_ascii_alphanumeric (drop (cts_cursor st1) tx) = rest)"

lemma fill_loop_post:
  "cts_cursor st \<le> length (cts_text st) \<Longrightarrow> utf8_shape (drop (cts_cursor st) (cts_text st)) \<Longrightarrow>
   cts_pending st = [] \<Longrightarrow> fill_post st (fill_loop st)"
proof (induction st rule: fill_loop.induct)
  case (1 st)
  let ?tx = "cts_text st" and ?cur = "cts_cursor st"
  let ?s = "skip_separators ?tx ?cur"
  note sk = skip_separators_skips [OF "1.prems"(1,2)]
  show ?case
  proof (cases "length ?tx \<le> ?s")
    case True
    then have "next_word_range st = (None, st\<lparr>cts_cursor := ?s\<rparr>)"
      by (simp add: next_word_range_def Let_def)
    then have "fill_loop st = (False, st\<lparr>cts_cursor := ?s\<rparr>)" by (subst fill_loop.simps) simp
    then show ?thesis using sk True by (simp add: fill_post_def Let_def)
  next
    case False
    let ?e = "word_end ?tx ?s"
    let ?st1 = "st\<lparr>cts_cursor := ?e\<rparr>"
    have nw: "next_word_range st = (Some (?s, ?e), ?st1)"
      using False by (simp add: next_word_range_def Let_def)
    have b: "?cur \<le> ?s" "?s < ?e" "?e \<le> length ?tx"
      using next_word_range_progress [OF nw "1.prems"(1)] by auto
    note we = word_end_shape [of ?s ?tx]
    have sh: "utf8_shape (slice_of ?tx ?s ?e)" "utf8_shape (drop ?e ?tx)"
      using we sk False by simp_all
    obtain new where new: "split_identifier_segments_with_offsets (slice_of ?tx ?s ?e) ?s [] = new"
        "segs_in ?cur ?e new"
        "concat (map (seg_text ?tx 0) new) = filter is_ascii_alphanumeric (slice_of ?tx ?s ?e)"
        "list_all (\<lambda>seg. uniform_text (seg_text ?tx 0 seg)) new"
      using word_segments [OF b sh(1)] by auto
    have "drop ?s ?tx = slice_of ?tx ?s ?e @ drop ?e ?tx"
      using b by (metis append_take_drop_id drop_drop le_add_diff_inverse2 less_imp_le slice_of_def)
    then have rest: "filter is_ascii_alphanumeric (drop ?cur ?tx)
        = concat (map (seg_text ?tx 0) new) @ filter is_ascii_alphanumeric (drop ?e ?tx)"
      using sk new(3) by simp
    show ?thesis
    proof (cases "new = []")
      case True
      have fl: "fill_loop st = fill_loop (?st1\<lparr>cts_pending := []\<rparr>)"
        using True new(1) "1.prems"(3) by (subst fill_loop.simps) (simp add: nw Let_def)
      have "fill_post (?st1\<lparr>cts_pending := []\<rparr>) (fill_loop (?st1\<lparr>cts_pending := []\<rparr>))"
        using "1.IH" [OF nw [symmetric] refl refl refl] True new(1) sh(2) b(3) "1.prems"(3) by simp
      then show ?thesis
        unfolding fl using rest True b
        by (auto simp: fill_post_def Let_def split: prod.splits bool.splits intro: segs_in_lower)
    next
      case False
      then have "fill_loop st = (True, ?st1\<lparr>cts_pending := new\<rparr>)"
        using new(1) "1.prems"(3) by (subst fill_loop.simps) (simp add: nw Let_def)
      then show ?thesis
        using False new b sh(2) rest by (simp add: fill_post_def Let_def)
    qed
  qed
qed


definition tok_seg :: "token \<Rightarrow> PendingSegment" where
  "tok_seg t = \<lparr>offset_from = tok_from t, offset_to = tok_to t\<rparr>"

definition stream_inv :: "nat \<Rightarrow> CodeTokenStream \<Rightarrow> bool" where
  "stream_inv lo st \<longleftrightarrow>
     cts_cursor st \<le> length (cts_text st) \<and> utf8_shape (drop (cts_cursor st) (cts_text st))
     \<and> segs_in lo (cts_cursor st) (drop (cts_pending_index st) (cts_pending st))
     \<and> list_all (\<lambda>seg. uniform_text (seg_text (cts_text st) 0 seg))
         (drop (cts_pending_index st) (cts_pending st))"

definition stream_rest :: "CodeTokenStream \<Rightarrow> string" where
  "stream_rest st =
     concat (map (seg_text (cts_text st) 0) (drop (cts_pending_index st) (cts_pending st)))
     @ filter is_ascii_alphanumeric (drop (cts_cursor st) (cts_text st))"

definition drain_spec :: "nat \<Rightarrow> CodeTokenStream \<Rightarrow> token list \<Rightarrow> bool" where
  "drain_spec lo st ts \<longleftrightarrow>
     map tok_position ts = [cts_position st ..< cts_position st + length ts]
     \<and> segs_in lo (length (cts_text st)) (map tok_seg ts)
     \<and> list_all (\<lambda>t. tok_text t = to_ascii_lowercase (slice_of (cts_text st) (tok_from t) (tok_to t))
          \<and> uniform_text (slice_of (cts_text st) (tok_from t) (tok_to t))) ts
     \<and> concat (map tok_text ts) = to_ascii_lowercase (stream_rest st)"

lemma push_ascii_lowercase_eq: "push_ascii_lowercase output tx = output @ to_ascii_lowercase tx"
  using to_ascii_lowercase_fixed [of tx]
  by (simp add: push_ascii_lowercase_def to_ascii_lowercase_def)

text \<open>Handing out the first pending segment.\<close>

lemma drain_spec_emit:
  assumes inv: "stream_inv lo st" and idx: "cts_pending_index st < length (cts_pending st)"
    and ts: "\<And>lo'. stream_inv lo' (emit_segment st) \<Longrightarrow> drain_spec lo' (emit_segment st) ts"
  shows "drain_spec lo st (cts_token (emit_segment st) # ts)"
proof -
  let ?seg = "cts_pending st ! cts_pending_index st"
  have d: "drop (cts_pending_index st) (cts_pending st)
      = ?seg # drop (Suc (cts_pending_index st)) (cts_pending st)"
    using idx by (simp add: Cons_nth_drop_Suc)
  have tok: "tok_from (cts_token (emit_segment st)) = offset_from ?seg"
    "tok_to (cts_token (emit_segment st)) = offset_to ?seg"
    "tok_position (cts_token (emit_segment st)) = cts_position st"
    "tok_text (cts_token (emit_segment st)) = to_ascii_lowercase (seg_text (cts_text st) 0 ?seg)"
    by (simp_all add: emit_segment_def Let_def push_ascii_lowercase_eq seg_text_def)
  have b: "lo \<le> offset_from ?seg" "offset_from ?seg < offset_to ?seg"
    "segs_in (offset_to ?seg) (cts_cursor st) (drop (Suc (cts_pending_index st)) (cts_pending st))"
    "uniform_text (seg_text (cts_text st) 0 ?seg)"
    using inv by (auto simp: stream_inv_def d)
  have "stream_inv (offset_to ?seg) (emit_segment st)"
    using inv b by (auto simp: stream_inv_def d)
  then have spec: "drain_spec (offset_to ?seg) (emit_segment st) ts" by (rule ts)
  have "stream_rest st = seg_text (cts_text st) 0 ?seg @ stream_rest (emit_segment st)"
    by (simp add: stream_rest_def d)
  moreover have "[cts_position st..<cts_position st + length (cts_token (emit_segment st) # ts)]
      = cts_position st # [Suc (cts_position st)..<Suc (cts_position st) + length ts]"
    by (simp add: upt_rec)
  ultimately show ?thesis
    using spec b tok by (simp add: drain_spec_def tok_seg_def seg_text_def)
qed

lemma code_drain_spec: "stream_inv lo st \<Longrightarrow> drain_spec lo st (code_drain st)"
proof (induction st arbitrary: lo rule: code_drain.induct)
  case (1 st)
  show ?case
  proof (cases "cts_pending_index st < length (cts_pending st)")
    case True
    then have adv: "code_advance st = (True, emit_segment st)" by (simp add: code_advance_def)
    then have "code_drain st = cts_token (emit_segment st) # code_drain (emit_segment st)"
      by (subst code_drain.simps) simp
    then show ?thesis
      using drain_spec_emit [OF "1.prems" True] "1.IH" [OF adv [symmetric]] by simp
  next
    case False
    let ?st0 = "st\<lparr>cts_pending := [], cts_pending_index := 0\<rparr>"
    have post: "fill_post ?st0 (fill_loop ?st0)"
      using "1.prems" by (intro fill_loop_post) (simp_all add: stream_inv_def)
    have lo: "lo \<le> cts_cursor st" "stream_rest st = stream_rest ?st0"
      using "1.prems" False segs_in_le by (auto simp: stream_inv_def stream_rest_def)
    obtain ok st1 where fl: "fill_loop ?st0 = (ok, st1)" by (cases "fill_loop ?st0")
    show ?thesis
    proof (cases ok)
      case True
      have inv1: "stream_inv lo st1" and idx: "cts_pending_index st1 < length (cts_pending st1)"
        using post fl True lo(1) segs_in_lower [of "cts_cursor st" _ "cts_pending st1" lo]
        by (auto simp: fill_post_def stream_inv_def Let_def)
      have adv: "code_advance st = (True, emit_segment st1)"
        using False True fl by (simp add: code_advance_def fill_next_word_segments_def)
      then have "code_drain st = cts_token (emit_segment st1) # code_drain (emit_segment st1)"
        by (subst code_drain.simps) simp
      then have "drain_spec lo st1 (code_drain st)"
        using drain_spec_emit [OF inv1 idx] "1.IH" [OF adv [symmetric]] by simp
      moreover have "stream_rest st1 = stream_rest st" "cts_text st1 = cts_text st"
        "cts_position st1 = cts_position st"
        using post fl True lo(2) by (auto simp: fill_post_def stream_rest_def Let_def)
      ultimately show ?thesis by (simp add: drain_spec_def)
    next
      case False
      then have "code_advance st = (False, st1)"
        using \<open>\<not> cts_pending_index st < length (cts_pending st)\<close> fl
        by (simp add: code_advance_def fill_next_word_segments_def)
      then have "code_drain st = []" by (subst code_drain.simps) simp
      moreover have "stream_rest st = []"
        using post fl False lo(2) by (simp add: fill_post_def stream_rest_def Let_def)
      ultimately show ?thesis
        using lo(1) "1.prems" by (simp add: drain_spec_def stream_inv_def to_ascii_lowercase_def)
    qed
  qed
qed


section \<open>Properties\<close>

text \<open>Claim C25. The splitter with the ASCII fast paths computes exactly what the loop over the
  characters computes, on every UTF-8 token: the fast paths are an optimisation only.\<close>

theorem split_fast_path_equiv:
  assumes "utf8_shape token"
  shows "split_identifier_segments_with_offsets token base segs
           = split_chars_with_offsets token base segs"
  using assms by (simp add: split_identifier_eq_split_bytes split_chars_eq_split_bytes)

theorem split_fast_path_equiv_witness:
  "utf8_shape ''parseHTTP2''
   \<and> split_identifier_segments_with_offsets ''parseHTTP2'' 3 []
       = split_chars_with_offsets ''parseHTTP2'' 3 []"
proof -
  have "utf8_shape ''parseHTTP2''" by (rule utf8_shape_ascii) (simp add: is_ascii_def)
  then show ?thesis using split_fast_path_equiv [of "''parseHTTP2''" 3 "[]"] by simp
qed

text \<open>Theorem. The segments of a token lie inside it in strictly increasing order, each is
  not empty and consists of letters only or of digits only, and together they are exactly
  the alphanumeric bytes of the token: splitting loses nothing and invents nothing.\<close>

theorem split_segments_partition:
  assumes "utf8_shape token"
  shows "\<exists>new. split_identifier_segments_with_offsets token base segs = segs @ new
     \<and> segs_in base (base + length token) new
     \<and> concat (map (seg_text token base) new) = filter is_ascii_alphanumeric token
     \<and> list_all (\<lambda>seg. uniform_text (seg_text token base seg)) new"
  using split_bytes_sound [of token base segs] assms by (simp add: split_identifier_eq_split_bytes)

theorem split_segments_partition_witness:
  "\<exists>new. split_identifier_segments_with_offsets ''taxRate42'' 0 [] = [] @ new
     \<and> segs_in 0 (0 + length ''taxRate42'') new
     \<and> concat (map (seg_text ''taxRate42'' 0) new) = filter is_ascii_alphanumeric ''taxRate42''
     \<and> list_all (\<lambda>seg. uniform_text (seg_text ''taxRate42'' 0 seg)) new"
  by (rule split_segments_partition, rule utf8_shape_ascii) (simp add: is_ascii_def)

text \<open>Claim C26. The code tokenizer, driven until it is exhausted, numbers its tokens 0, 1, 2
  and so on, their byte ranges lie in the text in strictly increasing order, each token is
  the lowercased text of its range, which is all letters or all digits, and the token texts
  together are exactly the lowercased alphanumeric bytes of the indexed text.\<close>

theorem code_tokens_correct:
  assumes "utf8_shape tx"
  shows "map tok_position (code_tokens deflt tx) = [0 ..< length (code_tokens deflt tx)]
     \<and> segs_in 0 (length tx) (map tok_seg (code_tokens deflt tx))
     \<and> list_all (\<lambda>t. tok_text t = to_ascii_lowercase (slice_of tx (tok_from t) (tok_to t))
          \<and> uniform_text (slice_of tx (tok_from t) (tok_to t))) (code_tokens deflt tx)
     \<and> concat (map tok_text (code_tokens deflt tx))
          = to_ascii_lowercase (filter is_ascii_alphanumeric tx)"
proof -
  have "stream_inv 0 (code_token_stream deflt tx)"
    using assms by (simp add: stream_inv_def code_token_stream_def)
  from code_drain_spec [OF this] show ?thesis
    by (simp add: drain_spec_def code_tokens_def stream_rest_def code_token_stream_def)
qed

theorem code_tokens_correct_witness:
  "\<exists>deflt. map tok_position (code_tokens deflt ''std::ioWrite'')
       = [0 ..< length (code_tokens deflt ''std::ioWrite'')]
     \<and> concat (map tok_text (code_tokens deflt ''std::ioWrite''))
       = to_ascii_lowercase (filter is_ascii_alphanumeric ''std::ioWrite'')"
proof -
  have "utf8_shape ''std::ioWrite''" by (rule utf8_shape_ascii) (simp add: is_ascii_def)
  from code_tokens_correct [OF this] show ?thesis by blast
qed

text \<open>Theorem. The trigram tokenizer emits one token for every position at which three
  alphanumeric ASCII bytes start, in order, and no other; the token covers these three bytes
  and holds them in lower case.\<close>

theorem trigram_tokens_complete:
  "map tok_position (trigram_tokens reset tx) = filter (trigram_at tx) [0..<length tx]
   \<and> list_all (\<lambda>t. tok_from t = tok_position t \<and> tok_to t = tok_position t + 3
        \<and> tok_text t = to_ascii_lowercase (slice_of tx (tok_position t) (tok_position t + 3)))
      (trigram_tokens reset tx)"
  using trigram_drain_positions [of "trigram_token_stream reset tx"]
  by (simp add: trigram_tokens_def trigram_token_stream_def trigram_positions_def)

end
