(* ===== verification/Code_Lines.thy ===== *)
theory Code_Lines
  imports Prelude
begin

text \<open>
  The rest of \<^verbatim>\<open>src/src/text.rs\<close>: the singular form of a query token, and the scanner that
  finds the source lines of a chunk behind path headers, comments, annotations and attributes,
  including annotations that run over several lines. The theorems bound what the scanner
  reports and say which text a reported range holds.
\<close>

section \<open>Singular forms\<close>

definition irregular_table :: "(string \<times> string) list" where
  "irregular_table =
     [(''analyses'', ''analysis''), (''children'', ''child''), (''criteria'', ''criterion''),
      (''feet'', ''foot''), (''geese'', ''goose''), (''indices'', ''index''),
      (''matrices'', ''matrix''), (''men'', ''man''), (''mice'', ''mouse''),
      (''people'', ''person''), (''quizzes'', ''quiz''), (''teeth'', ''tooth''),
      (''vertices'', ''vertex''), (''women'', ''woman''),
      (''alias'', ''alias''), (''aliases'', ''alias''), (''atlas'', ''atlas''), (''atlases'', ''atlas''),
      (''bias'', ''bias''), (''biases'', ''bias''), (''bonuses'', ''bonus''), (''buses'', ''bus''),
      (''canvas'', ''canvas''), (''canvases'', ''canvas''), (''focuses'', ''focus''),
      (''lens'', ''lens''), (''lenses'', ''lens''), (''statuses'', ''status''), (''viruses'', ''virus''),
      (''caches'', ''cache''), (''cookies'', ''cookie''), (''movies'', ''movie''), (''niches'', ''niche''),
      (''zombies'', ''zombie''), (''series'', ''series''), (''species'', ''species'')]"

definition irregular_singular :: "string \<Rightarrow> string option" where
  "irregular_singular token = map_of irregular_table token"

text \<open>The loop over the sibilant endings.\<close>

fun sibilant_singular :: "string list \<Rightarrow> string \<Rightarrow> string option" where
  "sibilant_singular [] token = None"
| "sibilant_singular (suf # sufs) token =
     (case strip_suffix token suf of
        Some stem \<Rightarrow>
          if 2 \<le> length stem then Some (stem @ take (length suf - 2) suf)
          else sibilant_singular sufs token
      | None \<Rightarrow> sibilant_singular sufs token)"

definition ies_singular :: "string \<Rightarrow> string option" where
  "ies_singular token =
     (case strip_suffix token ''ies'' of
        Some stem \<Rightarrow> if 2 \<le> length stem then Some (stem @ ''y'') else None
      | None \<Rightarrow> None)"

definition s_singular :: "string \<Rightarrow> string option" where
  "s_singular token =
     (case strip_suffix token ''s'' of
        Some stem \<Rightarrow>
          if \<not> ends_with token ''ss'' \<and> \<not> ends_with token ''us''
             \<and> \<not> ends_with token ''is'' \<and> 3 \<le> length stem
          then Some stem else None
      | None \<Rightarrow> None)"

definition singularize_token :: "string \<Rightarrow> string" where
  "singularize_token token0 =
     (if length token0 \<le> 3 \<or> \<not> list_all is_ascii_alphabetic token0 then token0
      else
        let token = to_ascii_lowercase token0
        in case irregular_singular token of
             Some singular \<Rightarrow> singular
           | None \<Rightarrow>
          (case ies_singular token of
             Some r \<Rightarrow> r
           | None \<Rightarrow>
          (case sibilant_singular [''ches'', ''shes'', ''sses'', ''xes'', ''zzes'', ''tzes''] token of
             Some r \<Rightarrow> r
           | None \<Rightarrow>
          (case s_singular token of Some stem \<Rightarrow> stem | None \<Rightarrow> token))))"


section \<open>Brackets of an annotation\<close>

record OpenBrackets =
  depth :: nat
  open_string :: "string option"
  block_comment :: bool

definition open_default :: OpenBrackets where
  "open_default = \<lparr>depth = 0, open_string = None, block_comment = False\<rparr>"

datatype LineComments = Hash | Mixed

definition for_language :: "string \<Rightarrow> LineComments" where
  "for_language language = (if eq_ignore_ascii_case language ''python'' then Hash else Mixed)"

text \<open>Three double quotes, three single quotes, one double quote, one single quote, one
  backtick.\<close>

definition STRING_DELIMITERS :: "string list" where
  "STRING_DELIMITERS =
     [replicate 3 (CHR 0x22), replicate 3 (CHR 0x27), [CHR 0x22], [CHR 0x27], [CHR 0x60]]"

definition starts_line_comment :: "LineComments \<Rightarrow> string \<Rightarrow> nat \<Rightarrow> bool" where
  "starts_line_comment comments bytes offset =
     (let rest = drop offset bytes
      in case comments of
           Hash \<Rightarrow> rest ! 0 = CHR ''#''
         | Mixed \<Rightarrow>
             starts_with rest ''//''
             \<or> (rest ! 0 = CHR ''#''
                \<and> (offset = 0 \<or> is_ascii_whitespace (bytes ! (offset - 1)))
                \<and> (case rest of _ # b # _ \<Rightarrow> is_ascii_whitespace b | _ \<Rightarrow> True)))"

text \<open>The end of the scan: what is still open, strings that end with the line excepted.\<close>

definition still_open :: "OpenBrackets \<Rightarrow> string option \<Rightarrow> OpenBrackets" where
  "still_open opn strng =
     opn\<lparr>open_string :=
       (case strng of
          Some d \<Rightarrow> if length d = 3 \<or> d ! 0 = CHR 0x60 then Some d else None
        | None \<Rightarrow> None)\<rparr>"

text \<open>One iteration of the loop at an offset inside the text: the scan is over, or it goes on
  with new variables. Delimiters are never empty (lemma \<open>delimiters_nonempty\<close>), so
  \<open>max 1\<close> is the length of the delimiter.\<close>

datatype close_step = Done "OpenBrackets + nat" | Next OpenBrackets "string option" nat

definition close_step_string :: "string \<Rightarrow> OpenBrackets \<Rightarrow> string \<Rightarrow> nat \<Rightarrow> close_step" where
  "close_step_string rest opn delimiter offset =
     (if rest ! 0 = CHR 0x5C then Next opn (Some delimiter) (offset + 2)
      else if starts_with rest delimiter then Next opn None (offset + max 1 (length delimiter))
      else Next opn (Some delimiter) (offset + 1))"

definition close_step_comment :: "string \<Rightarrow> OpenBrackets \<Rightarrow> nat \<Rightarrow> close_step" where
  "close_step_comment rest opn offset =
     (case find_str ''*/'' rest of
        None \<Rightarrow> Done (Inl (still_open opn None))
      | Some e \<Rightarrow> Next (opn\<lparr>block_comment := False\<rparr>) None (offset + e + 2))"

definition close_step_bracket :: "char \<Rightarrow> OpenBrackets \<Rightarrow> nat \<Rightarrow> close_step" where
  "close_step_bracket b opn offset =
     (if b \<in> set ''([{'' then Next (opn\<lparr>depth := depth opn + 1\<rparr>) None (offset + 1)
      else if b \<in> set '')]}''
      then let opn' = opn\<lparr>depth := depth opn - 1\<rparr>
           in if depth opn' = 0 then Done (Inr (offset + 1)) else Next opn' None (offset + 1)
      else Next opn None (offset + 1))"

definition close_step ::
    "LineComments \<Rightarrow> string \<Rightarrow> OpenBrackets \<Rightarrow> string option \<Rightarrow> nat \<Rightarrow> close_step" where
  "close_step comments bytes opn strng offset =
     (let rest = drop offset bytes
      in case strng of
           Some delimiter \<Rightarrow> close_step_string rest opn delimiter offset
         | None \<Rightarrow>
             if block_comment opn then close_step_comment rest opn offset
             else
               case List.find (\<lambda>d. starts_with rest d) STRING_DELIMITERS of
                 Some delimiter \<Rightarrow> Next opn (Some delimiter) (offset + max 1 (length delimiter))
               | None \<Rightarrow>
                   if starts_with rest ''/*''
                   then Next (opn\<lparr>block_comment := True\<rparr>) None (offset + 2)
                   else if starts_line_comment comments bytes offset
                   then Done (Inl (still_open opn None))
                   else close_step_bracket (rest ! 0) opn offset)"

lemma delimiters_nonempty: "d \<in> set STRING_DELIMITERS \<Longrightarrow> max 1 (length d) = length d"
  by (auto simp: STRING_DELIMITERS_def)

lemmas close_step_defs =
  close_step_def close_step_string_def close_step_comment_def close_step_bracket_def Let_def

lemma close_step_Next: "close_step comments bytes opn strng offset = Next opn' s' k \<Longrightarrow> offset < k"
  by (auto simp: close_step_defs split: option.splits if_splits)

lemma close_step_Done:
  "close_step comments bytes opn strng offset = Done (Inr n) \<Longrightarrow> offset < length bytes \<Longrightarrow>
   n = offset + 1 \<and> bytes ! offset \<in> set '')]}'' \<and> depth opn \<le> 1"
  by (auto simp: close_step_defs split: option.splits if_splits)

function close_loop ::
    "LineComments \<Rightarrow> string \<Rightarrow> OpenBrackets \<Rightarrow> string option \<Rightarrow> nat \<Rightarrow> OpenBrackets + nat" where
  "close_loop comments bytes opn strng offset =
     (if offset < length bytes
      then case close_step comments bytes opn strng offset of
             Done r \<Rightarrow> r
           | Next opn' strng' offset' \<Rightarrow> close_loop comments bytes opn' strng' offset'
      else Inl (still_open opn strng))"
  by pat_completeness auto
termination
  by (relation "measure (\<lambda>(comments, bytes, opn, strng, offset). length bytes - offset)")
    (auto dest: close_step_Next)

declare close_loop.simps [simp del]

definition close_open_brackets ::
    "string \<Rightarrow> OpenBrackets \<Rightarrow> LineComments \<Rightarrow> OpenBrackets + nat" where
  "close_open_brackets tx opn comments =
     close_loop comments tx (opn\<lparr>open_string := None\<rparr>) (open_string opn) 0"

lemma close_loop_bounds:
  "close_loop comments bytes opn strng offset = Inr n \<Longrightarrow>
   offset < n \<and> n \<le> length bytes \<and> bytes ! (n - 1) \<in> set '')]}''"
proof (induction comments bytes opn strng offset rule: close_loop.induct)
  case (1 comments bytes opn strng offset)
  then have lt: "offset < length bytes"
    by (auto simp: close_loop.simps [of comments bytes opn strng offset] split: if_splits)
  show ?case
  proof (cases "close_step comments bytes opn strng offset")
    case (Done r)
    with "1.prems" lt have "r = Inr n" by (simp add: close_loop.simps [of comments bytes opn])
    with close_step_Done [of comments bytes opn strng offset n] Done lt show ?thesis by simp
  next
    case (Next opn' strng' offset')
    with "1.prems" lt have "close_loop comments bytes opn' strng' offset' = Inr n"
      by (simp add: close_loop.simps [of comments bytes opn strng offset])
    with "1.IH" [OF lt Next] close_step_Next [OF Next] show ?thesis by simp
  qed
qed

lemma close_open_brackets_bounds:
  "close_open_brackets tx opn comments = Inr n \<Longrightarrow>
   0 < n \<and> n \<le> length tx \<and> tx ! (n - 1) \<in> set '')]}''"
  unfolding close_open_brackets_def by (rule close_loop_bounds)


section \<open>Annotations in front of a declaration\<close>

definition csharp_attribute_has_arguments :: "string \<Rightarrow> bool" where
  "csharp_attribute_has_arguments rest =
     (let target_end = find_byte (\<lambda>b. \<not> is_ascii_alphanumeric b \<and> b \<noteq> CHR ''_'') rest;
          attribute =
            (if 0 < target_end
             then case strip_prefix (trim_start (drop target_end rest)) '':'' of
                    Some after_target \<Rightarrow>
                      if \<not> starts_with after_target '':'' then trim_start after_target else rest
                  | None \<Rightarrow> rest
             else rest);
          name_end = find_byte (\<lambda>b. \<not> is_ascii_alphanumeric b \<and> b \<notin> set ''_.:'') attribute
      in 0 < name_end \<and> starts_with (trim_start (drop name_end attribute)) ''('')"

text \<open>One round of the loop of \<^verbatim>\<open>strip_annotation_prefix\<close>: the loop ends, or goes on with a
  shorter line.\<close>

datatype strip_step = Stop "OpenBrackets + string" | Again string

definition again_after :: "OpenBrackets + nat \<Rightarrow> string \<Rightarrow> strip_step" where
  "again_after closed rest =
     (case closed of
        Inl still \<Rightarrow> Stop (Inl still)
      | Inr n \<Rightarrow> Again (trim_start (drop n rest)))"

definition strip_at :: "string \<Rightarrow> string \<Rightarrow> LineComments \<Rightarrow> strip_step" where
  "strip_at line rest comments =
     (let identifier_end = find_byte (\<lambda>b. \<not> is_ascii_alphanumeric b \<and> b \<notin> set ''_.$'') rest
      in if identifier_end = 0 then Stop (Inr line)
         else let rest' = drop identifier_end rest
              in if starts_with rest' ''(''
                 then again_after (close_open_brackets rest' open_default comments) rest'
                 else Again (trim_start rest'))"

definition strip_bracketed :: "string \<Rightarrow> LineComments \<Rightarrow> strip_step" where
  "strip_bracketed line comments =
     (let hash = (case strip_prefix line ''#!'' of Some r \<Rightarrow> Some r | None \<Rightarrow> strip_prefix line ''#'')
      in case hash of
           Some rest \<Rightarrow>
             if starts_with rest ''[''
             then again_after (close_open_brackets rest open_default comments) rest
             else Stop (Inr line)
         | None \<Rightarrow>
             case strip_prefix line ''['' of
               Some rest \<Rightarrow>
                 if csharp_attribute_has_arguments rest
                 then again_after (close_open_brackets line open_default comments) line
                 else Stop (Inr line)
             | None \<Rightarrow> Stop (Inr line))"

definition strip_annotation_step :: "string \<Rightarrow> LineComments \<Rightarrow> strip_step" where
  "strip_annotation_step line comments =
     (case strip_prefix line ''@'' of
        Some rest \<Rightarrow> strip_at line rest comments
      | None \<Rightarrow> strip_bracketed line comments)"

lemma again_after_suffix:
  assumes "again_after (close_open_brackets rest opn comments) rest = Again line'"
  shows "suffix line' rest \<and> length line' < length rest"
proof -
  obtain n where n: "close_open_brackets rest opn comments = Inr n" "line' = trim_start (drop n rest)"
    using assms by (auto simp: again_after_def split: sum.splits)
  have "suffix line' (drop n rest)" using n(2) trim_start_suffix by simp
  moreover have "length line' \<le> length (drop n rest)" using n(2) length_trim_start by blast
  moreover have "0 < n \<and> n \<le> length rest" using close_open_brackets_bounds [OF n(1)] by simp
  ultimately show ?thesis using suffix_order.trans [OF _ suffix_drop] by fastforce
qed

lemma strip_step_suffix:
  assumes "strip_annotation_step line comments = Again line'"
  shows "suffix line' line \<and> length line' < length line"
proof (cases "strip_prefix line ''@''")
  case (Some rest)
  then have line: "line = ''@'' @ rest" by (simp add: strip_prefix_Some)
  let ?k = "find_byte (\<lambda>b. \<not> is_ascii_alphanumeric b \<and> b \<notin> set ''_.$'') rest"
  have "suffix line' (drop ?k rest)"
    using assms Some again_after_suffix [of "drop ?k rest" _ comments line']
      trim_start_suffix [of "drop ?k rest"]
    by (auto simp: strip_annotation_step_def strip_at_def Let_def split: if_splits)
  then have "suffix line' rest" by (rule suffix_order.trans [OF _ suffix_drop])
  then show ?thesis
    unfolding line using suffix_length_le [of line' rest] by (auto intro: suffix_ConsI)
next
  case None
  then have st: "strip_bracketed line comments = Again line'"
    using assms by (simp add: strip_annotation_step_def)
  show ?thesis
  proof (cases "strip_prefix line ''#!''")
    case (Some rest)
    then have "line = ''#!'' @ rest" by (simp add: strip_prefix_Some)
    moreover have "suffix line' rest \<and> length line' < length rest"
      using st Some again_after_suffix by (auto simp: strip_bracketed_def split: if_splits)
    ultimately show ?thesis by (auto intro: suffix_ConsI)
  next
    case no_bang: None
    show ?thesis
    proof (cases "strip_prefix line ''#''")
      case (Some rest)
      then have "line = ''#'' @ rest" by (simp add: strip_prefix_Some)
      moreover have "suffix line' rest \<and> length line' < length rest"
        using st Some no_bang again_after_suffix by (auto simp: strip_bracketed_def split: if_splits)
      ultimately show ?thesis by (auto intro: suffix_ConsI)
    next
      case no_hash: None
      then show ?thesis
        using st no_bang again_after_suffix
        by (auto simp: strip_bracketed_def split: if_splits option.splits)
    qed
  qed
qed

function strip_annotation_prefix :: "string \<Rightarrow> LineComments \<Rightarrow> OpenBrackets + string" where
  "strip_annotation_prefix line comments =
     (case strip_annotation_step line comments of
        Stop r \<Rightarrow> r
      | Again line' \<Rightarrow> strip_annotation_prefix line' comments)"
  by pat_completeness auto
termination
  by (relation "measure (\<lambda>(line, comments). length line)") (auto dest: strip_step_suffix)

declare strip_annotation_prefix.simps [simp del]

lemma strip_step_Stop: "strip_annotation_step line comments = Stop (Inr cd) \<Longrightarrow> cd = line"
  by (auto simp: strip_annotation_step_def strip_at_def strip_bracketed_def again_after_def Let_def
      split: if_splits option.splits sum.splits)

lemma strip_annotation_suffix:
  "strip_annotation_prefix line comments = Inr cd \<Longrightarrow> suffix cd line"
proof (induction line comments rule: strip_annotation_prefix.induct)
  case (1 line comments)
  show ?case
  proof (cases "strip_annotation_step line comments")
    case (Stop r)
    then show ?thesis
      using "1.prems" strip_step_Stop [of line comments cd]
      by (simp add: strip_annotation_prefix.simps [of line])
  next
    case (Again line')
    then have "suffix cd line'"
      using "1.IH" [OF Again] "1.prems" by (simp add: strip_annotation_prefix.simps [of line])
    then show ?thesis using strip_step_suffix [OF Again] suffix_order.trans by blast
  qed
qed


section \<open>The source lines of a text\<close>

record scan_state =
  scan_offset :: nat
  in_block_comment :: bool
  open_brackets :: "OpenBrackets option"

definition scan_init :: scan_state where
  "scan_init = \<lparr>scan_offset = 0, in_block_comment = False, open_brackets = None\<rparr>"

definition without_newline :: "string \<Rightarrow> string" where
  "without_newline line =
     (let l = (case strip_suffix line [CHR 0x0A] of Some r \<Rightarrow> r | None \<Rightarrow> line)
      in case strip_suffix l [CHR 0x0D] of Some r \<Rightarrow> r | None \<Rightarrow> l)"

text \<open>Lines that hold no declaration once the annotations are stripped.\<close>

definition not_code :: "string \<Rightarrow> bool" where
  "not_code cd \<longleftrightarrow>
     cd = [] \<or> starts_with cd ''//'' \<or> starts_with cd ''#'' \<or> starts_with cd ''*''
     \<or> starts_with cd ''@'' \<or> starts_with cd ''*/''
     \<or> (starts_with cd ''['' \<and> ends_with cd '']'')"

text \<open>The closure that \<^verbatim>\<open>code_line_ranges\<close> maps over the lines, after the line was trimmed:
  the new state and the declaration text of the line, when there is one.\<close>

definition scan_rest ::
    "LineComments \<Rightarrow> scan_state \<Rightarrow> string \<Rightarrow> scan_state \<times> string option" where
  "scan_rest comments st rest =
     (if starts_with rest ''/*''
      then (if \<not> contains_str rest ''*/'' then st\<lparr>in_block_comment := True\<rparr> else st, None)
      else case strip_annotation_prefix rest comments of
             Inl still \<Rightarrow> (st\<lparr>open_brackets := Some still\<rparr>, None)
           | Inr cd \<Rightarrow> (st, if not_code cd then None else Some cd))"

definition scan_trimmed ::
    "LineComments \<Rightarrow> scan_state \<Rightarrow> string \<Rightarrow> scan_state \<times> string option" where
  "scan_trimmed comments st trimmed =
     (if in_block_comment st
      then (if contains_str trimmed ''*/'' then st\<lparr>in_block_comment := False\<rparr> else st, None)
      else case open_brackets st of
             None \<Rightarrow> scan_rest comments st trimmed
           | Some opn \<Rightarrow>
               (let st' = st\<lparr>open_brackets := None\<rparr>
                in case close_open_brackets trimmed opn comments of
                     Inr e \<Rightarrow> scan_rest comments st' (trim_start (drop e trimmed))
                   | Inl still \<Rightarrow> (st'\<lparr>open_brackets := Some still\<rparr>, None)))"

definition scan_line ::
    "LineComments \<Rightarrow> scan_state \<Rightarrow> string \<Rightarrow> scan_state \<times> (nat \<times> nat) option" where
  "scan_line comments st line =
     (let line_start = scan_offset st;
          lwn = without_newline line;
          trimmed = trim lwn;
          (st', cd) = scan_trimmed comments st trimmed
      in (st'\<lparr>scan_offset := line_start + length line\<rparr>,
          case cd of
            None \<Rightarrow> None
          | Some c \<Rightarrow>
              let leading = (length lwn - length (trim_start lwn)) + (length trimmed - length c);
                  trailing = length lwn - length (trim_end lwn)
              in Some (line_start + leading, line_start + length lwn - trailing)))"

fun scan_lines :: "LineComments \<Rightarrow> scan_state \<Rightarrow> string list \<Rightarrow> (nat \<times> nat) list" where
  "scan_lines comments st [] = []"
| "scan_lines comments st (line # lines) =
     (case scan_line comments st line of
        (st', None) \<Rightarrow> scan_lines comments st' lines
      | (st', Some r) \<Rightarrow> r # scan_lines comments st' lines)"

definition code_line_ranges :: "string \<Rightarrow> string \<Rightarrow> (nat \<times> nat) list" where
  "code_line_ranges tx language =
     scan_lines (for_language language) scan_init (split_inclusive (CHR 0x0A) tx)"

definition first_code_line_range :: "string \<Rightarrow> string \<Rightarrow> (nat \<times> nat) option" where
  "first_code_line_range tx language =
     (case code_line_ranges tx language of [] \<Rightarrow> None | r # _ \<Rightarrow> Some r)"


section \<open>What the scanner reports\<close>

lemma scan_rest_code: "scan_rest comments st rest = (st', Some cd) \<Longrightarrow> suffix cd rest \<and> \<not> not_code cd"
  by (auto simp: scan_rest_def dest: strip_annotation_suffix split: if_splits sum.splits)

lemma scan_trimmed_code:
  assumes "scan_trimmed comments st trimmed = (st', Some cd)"
  shows "suffix cd trimmed \<and> \<not> not_code cd"
proof (cases "open_brackets st")
  case None
  then show ?thesis
    using assms scan_rest_code by (auto simp: scan_trimmed_def split: if_splits)
next
  case (Some opn)
  then obtain e where "close_open_brackets trimmed opn comments = Inr e"
      "scan_rest comments (st\<lparr>open_brackets := None\<rparr>) (trim_start (drop e trimmed)) = (st', Some cd)"
    using assms by (auto simp: scan_trimmed_def Let_def split: if_splits sum.splits)
  then have "suffix cd (trim_start (drop e trimmed))" "\<not> not_code cd" using scan_rest_code by auto
  then show ?thesis
    using trim_start_suffix [of "drop e trimmed"] suffix_drop [of e trimmed] suffix_order.trans by blast
qed

lemma not_code_nonempty: "\<not> not_code cd \<Longrightarrow> cd \<noteq> []"
  by (simp add: not_code_def)

lemma without_newline_prefix: "prefix (without_newline line) line"
  by (auto simp: without_newline_def Let_def strip_suffix_def split: option.splits if_splits
      intro: take_is_prefix prefix_order.trans [OF take_is_prefix])

lemma without_newline_no_newline:
  assumes "line \<in> set (split_inclusive (CHR 0x0A) s)"
  shows "CHR 0x0A \<notin> set (without_newline line)"
proof -
  let ?l = "case strip_suffix line [CHR 0x0A] of Some r \<Rightarrow> r | None \<Rightarrow> line"
  have "CHR 0x0A \<notin> set ?l"
  proof (cases "strip_suffix line [CHR 0x0A]")
    case None
    then have "\<not> suffix [CHR 0x0A] line" by (auto simp: strip_suffix_def split: if_splits)
    then have "CHR 0x0A \<notin> set line"
      using line_newline [OF assms] by (cases line rule: rev_cases) (auto simp: suffix_def)
    with None show ?thesis by simp
  next
    case (Some r)
    then have "line = r @ [CHR 0x0A]" by (simp add: strip_suffix_Some)
    with line_newline [OF assms] Some show ?thesis by simp
  qed
  moreover have "prefix (without_newline line) ?l"
    by (auto simp add: without_newline_def Let_def strip_suffix_Some split: option.split)
  ultimately show ?thesis using set_mono_prefix by blast
qed

text \<open>The range of a line holds the declaration text that the scan found in it.\<close>

lemma scan_line_range:
  assumes sc: "scan_line comments st line = (st', Some (a, b))"
    and shape: "utf8_shape (without_newline line)"
  shows "\<exists>cd. \<not> not_code cd \<and> suffix cd (trim (without_newline line))
      \<and> scan_offset st \<le> a \<and> a < b \<and> b \<le> scan_offset st + length (without_newline line)
      \<and> slice_of (without_newline line) (a - scan_offset st) (b - scan_offset st) = cd"
proof -
  let ?l = "without_newline line"
  let ?lead = "length ?l - length (trim_start ?l)"
  obtain st1 cd where cd: "scan_trimmed comments st (trim ?l) = (st1, Some cd)"
      "a = scan_offset st + (?lead + (length (trim ?l) - length cd))"
      "b = scan_offset st + length ?l - (length ?l - length (trim_end ?l))"
    using sc by (auto simp: scan_line_def Let_def split: prod.splits option.splits)
  note code = scan_trimmed_code [OF cd(1)]
  have ne: "cd \<noteq> []" "trim ?l \<noteq> []" using code not_code_nonempty by (auto simp: suffix_def)
  have le: "length cd \<le> length (trim ?l)" using code suffix_length_le by blast
  have te: "length (trim_end ?l) = ?lead + length (trim ?l)" by (rule trim_position(2) [OF shape ne(2)])
  have b: "b = scan_offset st + (?lead + length (trim ?l))"
    using cd(3) te length_trim_end [of ?l] by simp
  have tr: "slice_of ?l ?lead (?lead + length (trim ?l)) = trim ?l"
    using trim_position(1) [OF shape ne(2)] te by simp
  have "slice_of ?l (?lead + (length (trim ?l) - length cd)) (?lead + length (trim ?l))
      = slice_of (slice_of ?l ?lead (?lead + length (trim ?l))) (length (trim ?l) - length cd) (length (trim ?l))"
    by (simp add: slice_slice)
  also have "\<dots> = cd"
    unfolding tr using code by (auto simp: suffix_def slice_of_def)
  finally have "slice_of ?l (a - scan_offset st) (b - scan_offset st) = cd" using cd(2) b by simp
  moreover have "length (trim ?l) - length cd < length (trim ?l)" using le ne by simp
  then have "a < b" unfolding cd(2) b by (simp only: add_less_cancel_left)
  moreover have "b \<le> scan_offset st + length ?l" using b te length_trim_end [of ?l] by simp
  ultimately show ?thesis using code cd(2) by auto
qed

lemma scan_trimmed_offset: "scan_trimmed comments st tr = (st', r) \<Longrightarrow> scan_offset st' = scan_offset st"
  by (auto simp: scan_trimmed_def scan_rest_def Let_def split: if_splits option.splits sum.splits)

lemma scan_line_offset: "scan_line comments st line = (st', r) \<Longrightarrow> scan_offset st' = scan_offset st + length line"
  by (auto simp: scan_line_def Let_def split: prod.splits)

text \<open>What the theorem below says of a range.\<close>

definition good_range :: "string \<Rightarrow> nat \<times> nat \<Rightarrow> bool" where
  "good_range tx r \<longleftrightarrow>
     (let (a, b) = r; cd = slice_of tx a b
      in a < b \<and> b \<le> length tx \<and> \<not> not_code cd \<and> CHR 0x0A \<notin> set cd)"

fun ranges_from :: "nat \<Rightarrow> (nat \<times> nat) list \<Rightarrow> bool" where
  "ranges_from lo [] = True"
| "ranges_from lo ((a, b) # rs) = (lo \<le> a \<and> ranges_from b rs)"

lemma ranges_from_mono: "ranges_from hi rs \<Longrightarrow> lo \<le> hi \<Longrightarrow> ranges_from lo rs"
  by (cases rs) auto

lemma without_newline_shape: "utf8_shape line \<Longrightarrow> utf8_shape (without_newline line)"
  by (auto simp: without_newline_def Let_def strip_suffix_Some utf8_shape_append is_continuation_def
      split: option.splits)

lemma scan_lines_ranges:
  assumes "list_all (\<lambda>line. utf8_shape line \<and> CHR 0x0A \<notin> set (without_newline line)) lines"
    and "tx = pre @ concat lines" and "scan_offset st = length pre"
  shows "ranges_from (length pre) (scan_lines comments st lines)
     \<and> list_all (good_range tx) (scan_lines comments st lines)"
  using assms
proof (induction lines arbitrary: st pre)
  case (Cons line lines)
  let ?l = "without_newline line"
  obtain st' r where sc: "scan_line comments st line = (st', r)" by (cases "scan_line comments st line")
  have off: "scan_offset st' = length (pre @ line)"
    using scan_line_offset [OF sc] Cons.prems(3) by simp
  have IH: "ranges_from (length (pre @ line)) (scan_lines comments st' lines)
      \<and> list_all (good_range tx) (scan_lines comments st' lines)"
    by (rule Cons.IH [OF _ _ off]) (use Cons.prems in auto)
  show ?case
  proof (cases r)
    case None
    then show ?thesis using IH sc by (auto intro: ranges_from_mono)
  next
    case (Some ab)
    obtain a b where ab: "ab = (a, b)" by (cases ab)
    obtain suf where suf: "line = ?l @ suf" using without_newline_prefix by (auto simp: prefix_def)
    have "utf8_shape ?l" using Cons.prems(1) without_newline_shape by simp
    then obtain cd where cd: "\<not> not_code cd" "suffix cd (trim ?l)" "length pre \<le> a" "a < b"
        "b \<le> length pre + length ?l" "slice_of ?l (a - length pre) (b - length pre) = cd"
      using scan_line_range sc Some ab Cons.prems(3) by metis
    have "slice_of tx a b = slice_of (?l @ suf @ concat lines) (a - length pre) (b - length pre)"
      using cd(3,4) suf Cons.prems(2) slice_drop [of "length pre" tx "a - length pre" "b - length pre"]
      by (simp flip: append_assoc)
    also have "\<dots> = cd" using cd(3-6) by (simp add: slice_append_left)
    finally have sl: "slice_of tx a b = cd" .
    have "set cd \<subseteq> set ?l"
      using cd(6) by (auto simp: slice_of_def dest: in_set_takeD in_set_dropD)
    then have nl: "CHR 0x0A \<notin> set cd" using Cons.prems(1) by auto
    have "b \<le> length (pre @ line)" "b \<le> length tx"
      using cd(5) arg_cong [OF suf, of length] Cons.prems(2) by simp_all
    then have "good_range tx (a, b)" "ranges_from b (scan_lines comments st' lines)"
      using cd(1,4) sl nl IH ranges_from_mono by (auto simp: good_range_def)
    then show ?thesis using IH sc Some ab cd(3) by simp
  qed
qed simp


section \<open>Properties\<close>

text \<open>Theorem. Every range that the line scanner reports lies inside the text, is not
  empty, stays within one line and holds a declaration (not a comment, an annotation or a
  bare attribute), and the ranges are reported in increasing order without overlap.\<close>

theorem code_line_ranges_sound:
  assumes "utf8_shape tx"
  shows "ranges_from 0 (code_line_ranges tx language)
     \<and> list_all (good_range tx) (code_line_ranges tx language)"
proof -
  have "list_all (\<lambda>line. utf8_shape line \<and> CHR 0x0A \<notin> set (without_newline line))
          (split_inclusive (CHR 0x0A) tx)"
    using split_inclusive_shape [OF assms, of "CHR 0x0A"] without_newline_no_newline
    by (auto simp: list_all_iff is_ascii_def)
  from scan_lines_ranges [OF this, of tx "[]" scan_init] show ?thesis
    by (simp add: code_line_ranges_def scan_init_def)
qed

theorem code_line_ranges_sound_witness:
  "ranges_from 0 (code_line_ranges ''@Test(a) void run() {'' ''java'')
     \<and> list_all (good_range ''@Test(a) void run() {'') (code_line_ranges ''@Test(a) void run() {'' ''java'')"
proof -
  have "utf8_shape ''@Test(a) void run() {''" by (rule utf8_shape_ascii) (simp add: is_ascii_def)
  then show ?thesis by (rule code_line_ranges_sound)
qed

text \<open>Theorem. When the bracket scanner finds the end of an annotation, the offset it
  returns is behind a closing bracket of the text, so the caller's slice is in bounds and
  every round of the annotation loop makes progress.\<close>

theorem close_open_brackets_sound:
  assumes "close_open_brackets tx opn comments = Inr n"
  shows "0 < n \<and> n \<le> length tx \<and> tx ! (n - 1) \<in> set '')]}''"
  using assms by (rule close_open_brackets_bounds)

theorem close_open_brackets_sound_witness:
  "close_open_brackets ''(x[1])y'' open_default Mixed = Inr 6
   \<and> (0::nat) < 6 \<and> 6 \<le> length ''(x[1])y'' \<and> ''(x[1])y'' ! (6 - 1) \<in> set '')]}''"
proof -
  have "close_open_brackets ''(x[1])y'' open_default Mixed = Inr 6" by code_simp
  from this close_open_brackets_sound [OF this] show ?thesis by simp
qed

end
