(* ===== verification/Worker_Slots.thy ===== *)
theory Worker_Slots
  imports Prelude
begin

text \<open>
  Admission of background enhancement workers, \<^verbatim>\<open>src/src/indexer/enhancement.rs\<close>, with the limit from
  \<^verbatim>\<open>src/src/config.rs\<close>. A place of a lane is a lock on a file; the locks of all processes
  are a map from places to the handle that holds them, and the operating system's refusal to open
  or lock a file is an argument of the operations. The second part is the snapshot that lets
  a worker publish only into the index it started from. The theorems show that a lane never has
  more workers with a place than the limit, that the probe and the acquisition agree, that
  the admission loop returns at the first moment it may and cleans up its marker files, and that
  a replaced index refuses the vectors of an old snapshot.
\<close>

section \<open>The limit\<close>

definition DEFAULT_ENHANCE_MAX_WORKERS :: nat where
  "DEFAULT_ENHANCE_MAX_WORKERS = 2"

definition digit_value :: "char \<Rightarrow> nat" where
  "digit_value c = code c - 48"

text \<open>\<^verbatim>\<open>str::parse::<usize>\<close>: an optional plus sign, then one or more digits, within 64 bits.\<close>

definition parse_usize :: "string \<Rightarrow> nat option" where
  "parse_usize s =
     (let ds = (case s of c # rest \<Rightarrow> if c = CHR ''+'' then rest else s | [] \<Rightarrow> []);
          n = foldl (\<lambda>acc c. 10 * acc + digit_value c) 0 ds
      in if ds = [] \<or> \<not> list_all is_ascii_digit ds \<or> 2 ^ 64 \<le> n then None else Some n)"

text \<open>The argument is the value of \<^verbatim>\<open>IVYGREP_ENHANCE_MAX_WORKERS\<close>.\<close>

definition enhance_max_workers :: "string option \<Rightarrow> nat" where
  "enhance_max_workers env =
     min (case Option.bind env (\<lambda>value. parse_usize (trim value)) of
            None \<Rightarrow> DEFAULT_ENHANCE_MAX_WORKERS
          | Some workers \<Rightarrow> if 0 < workers then workers else DEFAULT_ENHANCE_MAX_WORKERS) 64"


section \<open>Places of a lane\<close>

datatype WorkerLane = HashLane | NeuralLane

fun lane_name :: "WorkerLane \<Rightarrow> string" where
  "lane_name HashLane = ''hash''"
| "lane_name NeuralLane = ''neural''"

datatype EnhancementTier = HashTier | NeuralTier

datatype WorkerStage = HashPass | NeuralPass

fun stage_tier :: "WorkerStage \<Rightarrow> EnhancementTier" where
  "stage_tier HashPass = HashTier"
| "stage_tier NeuralPass = NeuralTier"

text \<open>Which file handle holds the lock of each place.\<close>

type_synonym slot_locks = "WorkerLane \<times> nat \<Rightarrow> nat option"

text \<open>The places whose file cannot be opened or locked at the moment.\<close>

type_synonym slot_failures = "WorkerLane \<times> nat \<Rightarrow> bool"

datatype SlotProbe = Free | Held | Unusable

datatype WorkerSlot = WorkerSlot "nat option"

definition probe_slot :: "slot_failures \<Rightarrow> nat \<Rightarrow> WorkerLane \<Rightarrow> nat \<Rightarrow> slot_locks \<Rightarrow> SlotProbe \<times> slot_locks" where
  "probe_slot bad handle lane index locks =
     (if bad (lane, index) then (Unusable, locks)
      else case locks (lane, index) of
             None \<Rightarrow> (Free, locks((lane, index) \<mapsto> handle))
           | Some _ \<Rightarrow> (Held, locks))"

fun try_slots :: "slot_failures \<Rightarrow> nat \<Rightarrow> WorkerLane \<Rightarrow> nat list \<Rightarrow> slot_locks \<Rightarrow> WorkerSlot option \<times> slot_locks" where
  "try_slots bad handle lane [] locks = (None, locks)"
| "try_slots bad handle lane (index # rest) locks =
     (case probe_slot bad handle lane index locks of
        (Free, locks') \<Rightarrow> (Some (WorkerSlot (Some index)), locks')
      | (Held, locks') \<Rightarrow> try_slots bad handle lane rest locks'
      | (Unusable, locks') \<Rightarrow> (Some (WorkerSlot None), locks'))"

definition try_acquire_worker_slot ::
    "nat \<Rightarrow> slot_failures \<Rightarrow> nat \<Rightarrow> WorkerLane \<Rightarrow> slot_locks \<Rightarrow> WorkerSlot option \<times> slot_locks" where
  "try_acquire_worker_slot limit bad handle lane locks = try_slots bad handle lane [0..<limit] locks"

text \<open>Closing the handle of a slot releases the lock it holds.\<close>

fun drop_slot :: "WorkerLane \<Rightarrow> WorkerSlot \<Rightarrow> slot_locks \<Rightarrow> slot_locks" where
  "drop_slot lane (WorkerSlot (Some index)) locks = locks((lane, index) := None)"
| "drop_slot lane (WorkerSlot None) locks = locks"

text \<open>The count of free places probes one place after the other and lets each lock go at once.\<close>

fun count_free :: "slot_failures \<Rightarrow> nat \<Rightarrow> WorkerLane \<Rightarrow> nat list \<Rightarrow> slot_locks \<Rightarrow> nat \<times> slot_locks" where
  "count_free bad handle lane [] locks = (0, locks)"
| "count_free bad handle lane (index # rest) locks =
     (let (probe, locks1) = probe_slot bad handle lane index locks;
          locks2 = (if probe = Free then drop_slot lane (WorkerSlot (Some index)) locks1 else locks1);
          (n, locks3) = count_free bad handle lane rest locks2
      in ((if probe \<noteq> Held then 1 else 0) + n, locks3))"

definition free_worker_slots :: "nat \<Rightarrow> slot_failures \<Rightarrow> nat \<Rightarrow> WorkerLane \<Rightarrow> slot_locks \<Rightarrow> nat \<times> slot_locks" where
  "free_worker_slots limit bad handle lane locks = count_free bad handle lane [0..<limit] locks"


section \<open>The admission loop\<close>

text \<open>The marker files of a waiting worker, and what one iteration meets: whether the root is gone,
  what the guards say, whether the marker files can be changed, which places are unusable.\<close>

record worker_files =
  paused_file :: "string option"
  phase_file :: "string option"

record admit_obs =
  obs_root_gone :: bool
  obs_constraint :: "EnhancementTier \<Rightarrow> string option"
  obs_files_ok :: bool
  obs_failures :: slot_failures

datatype admit_outcome = Vanished | Admitted WorkerSlot | KeepWaiting

definition QUEUED_PHASE :: string where
  "QUEUED_PHASE = ''queued''"

definition set_paused :: "admit_obs \<Rightarrow> string option \<Rightarrow> worker_files \<Rightarrow> worker_files" where
  "set_paused obs v files = (if obs_files_ok obs then files\<lparr>paused_file := v\<rparr> else files)"

definition set_phase :: "admit_obs \<Rightarrow> string option \<Rightarrow> worker_files \<Rightarrow> worker_files" where
  "set_phase obs v files = (if obs_files_ok obs then files\<lparr>phase_file := v\<rparr> else files)"

definition admit_iteration ::
    "nat \<Rightarrow> nat \<Rightarrow> WorkerLane \<Rightarrow> WorkerStage \<Rightarrow> admit_obs \<Rightarrow> slot_locks \<times> worker_files
       \<Rightarrow> (slot_locks \<times> worker_files) \<times> admit_outcome" where
  "admit_iteration limit handle lane stage obs st =
     (let (locks, files) = st
      in if obs_root_gone obs
         then ((locks, set_phase obs None (set_paused obs None files)), Vanished)
         else case obs_constraint obs (stage_tier stage) of
                Some reason \<Rightarrow> ((locks, set_paused obs (Some reason) files), KeepWaiting)
              | None \<Rightarrow>
                  let files1 = set_paused obs None files
                  in case try_acquire_worker_slot limit (obs_failures obs) handle lane locks of
                       (Some slot, locks1) \<Rightarrow> ((locks1, set_phase obs None files1), Admitted slot)
                     | (None, locks1) \<Rightarrow>
                         ((locks1, set_phase obs (Some QUEUED_PHASE) files1), KeepWaiting))"

text \<open>The loop, over the observations of its iterations. Other processes take and release places
  between the iterations: each observation comes with what they do to the locks before it. \<open>None\<close>
  means that the loop still waits after the last observation; \<open>Some (None, \<dots>)\<close> that the
  root is gone.\<close>

type_synonym interference = "slot_locks \<Rightarrow> slot_locks"

fun admit_worker_when ::
    "nat \<Rightarrow> nat \<Rightarrow> WorkerLane \<Rightarrow> WorkerStage \<Rightarrow> (admit_obs \<times> interference) list
       \<Rightarrow> slot_locks \<times> worker_files \<Rightarrow> (WorkerSlot option \<times> slot_locks \<times> worker_files) option" where
  "admit_worker_when limit handle lane stage [] st = None"
| "admit_worker_when limit handle lane stage ((obs, others) # rest) st =
     (case admit_iteration limit handle lane stage obs (others (fst st), snd st) of
        (st', Vanished) \<Rightarrow> Some (None, st')
      | (st', Admitted slot) \<Rightarrow> Some (Some slot, st')
      | (st', KeepWaiting) \<Rightarrow> admit_worker_when limit handle lane stage rest st')"

text \<open>Before the neural pass the worker keeps its slot, or gives it up and waits again.\<close>

definition readmit_for_neural_pass_when ::
    "nat \<Rightarrow> nat \<Rightarrow> WorkerSlot \<Rightarrow> (EnhancementTier \<Rightarrow> string option) \<Rightarrow> (admit_obs \<times> interference) list
       \<Rightarrow> slot_locks \<times> worker_files \<Rightarrow> (WorkerSlot option \<times> slot_locks \<times> worker_files) option" where
  "readmit_for_neural_pass_when limit handle slot constraint observations st =
     (if constraint (stage_tier NeuralPass) = None then Some (Some slot, st)
      else admit_worker_when limit handle NeuralLane NeuralPass observations
             (drop_slot NeuralLane slot (fst st), snd st))"


section \<open>Workers of all processes\<close>

datatype worker_state = Waiting WorkerLane WorkerStage worker_files | Running WorkerLane WorkerSlot

record workers_system =
  locks :: slot_locks
  workers :: "nat \<rightharpoonup> worker_state"

definition workers_new :: workers_system where
  "workers_new = \<lparr>locks = Map.empty, workers = Map.empty\<rparr>"

text \<open>A worker process appears, polls for admission, gives its place up
  before the neural pass, or ends (a process
  that dies releases its locks). A probe by another process changes nothing that lasts.\<close>

inductive workers_step :: "nat \<Rightarrow> workers_system \<Rightarrow> workers_system \<Rightarrow> bool" for limit :: nat where
  spawn: "workers s h = None \<Longrightarrow>
    workers_step limit s (s\<lparr>workers := (workers s)(h \<mapsto> Waiting lane stage files)\<rparr>)"
| poll_wait: "workers s h = Some (Waiting lane stage files) \<Longrightarrow>
    admit_iteration limit h lane stage obs (locks s, files) = ((l', files'), KeepWaiting) \<Longrightarrow>
    workers_step limit s (s\<lparr>locks := l', workers := (workers s)(h \<mapsto> Waiting lane stage files')\<rparr>)"
| poll_vanished: "workers s h = Some (Waiting lane stage files) \<Longrightarrow>
    admit_iteration limit h lane stage obs (locks s, files) = ((l', files'), Vanished) \<Longrightarrow>
    workers_step limit s (s\<lparr>locks := l', workers := (workers s)(h := None)\<rparr>)"
| poll_admitted: "workers s h = Some (Waiting lane stage files) \<Longrightarrow>
    admit_iteration limit h lane stage obs (locks s, files) = ((l', files'), Admitted slot) \<Longrightarrow>
    workers_step limit s (s\<lparr>locks := l', workers := (workers s)(h \<mapsto> Running lane slot)\<rparr>)"
| neural_yield: "workers s h = Some (Running NeuralLane slot) \<Longrightarrow>
    workers_step limit s (s\<lparr>locks := drop_slot NeuralLane slot (locks s),
      workers := (workers s)(h \<mapsto> Waiting NeuralLane NeuralPass files)\<rparr>)"
| finish: "workers s h = Some (Running lane slot) \<Longrightarrow>
    workers_step limit s (s\<lparr>locks := drop_slot lane slot (locks s), workers := (workers s)(h := None)\<rparr>)"
| die_waiting: "workers s h = Some (Waiting lane stage files) \<Longrightarrow>
    workers_step limit s (s\<lparr>workers := (workers s)(h := None)\<rparr>)"
| probe: "free_worker_slots limit bad h lane (locks s) = (n, l') \<Longrightarrow>
    workers_step limit s (s\<lparr>locks := l'\<rparr>)"


inductive_cases workers_stepE: "workers_step limit s s'"


section \<open>Places are exclusive\<close>

lemma try_slots_cases:
  assumes "try_slots bad h lane is l = (r, l')"
  obtains (full) "r = None" "l' = l" "\<forall>i\<in>set is. \<not> bad (lane, i) \<and> l (lane, i) \<noteq> None"
    | (free) i where "i \<in> set is" "r = Some (WorkerSlot (Some i))" "l (lane, i) = None"
        "l' = l((lane, i) \<mapsto> h)"
    | (unusable) "r = Some (WorkerSlot None)" "l' = l" "\<exists>i\<in>set is. bad (lane, i)"
  using assms
proof (induction bad h lane "is" l arbitrary: thesis rule: try_slots.induct)
  case (2 bad h lane i rest l)
  show ?case
  proof (cases "bad (lane, i)")
    case True
    then show ?thesis using 2(4,5) by (simp add: probe_slot_def)
  next
    case usable: False
    show ?thesis
    proof (cases "l (lane, i)")
      case None
      then have "r = Some (WorkerSlot (Some i))" "l' = l((lane, i) \<mapsto> h)"
        using 2(5) usable by (auto simp: probe_slot_def)
      then show ?thesis using 2(3) [of i] None by simp
    next
      case (Some h')
      then have step: "probe_slot bad h lane i l = (Held, l)" "try_slots bad h lane rest l = (r, l')"
        using 2(5) usable by (auto simp: probe_slot_def)
      show ?thesis by (rule 2(1) [OF step(1) [symmetric] _ _ _ _ step(2)])
          (use 2(2-4) usable Some in auto)
    qed
  qed
qed simp

lemma count_free_eq:
  "count_free bad h lane is l =
     (length (filter (\<lambda>i. bad (lane, i) \<or> l (lane, i) = None) is), l)"
proof (induction "is")
  case (Cons i rest)
  have undo: "l((lane, i) := None) = l" if "l (lane, i) = None"
    using that by (auto simp: fun_eq_iff)
  show ?case
    using Cons by (auto simp: probe_slot_def undo Let_def split: option.splits)
qed simp

definition has_place :: "workers_system \<Rightarrow> nat \<Rightarrow> WorkerLane \<Rightarrow> nat \<Rightarrow> bool" where
  "has_place s h lane i \<longleftrightarrow> workers s h = Some (Running lane (WorkerSlot (Some i)))"

definition slots_inv :: "nat \<Rightarrow> workers_system \<Rightarrow> bool" where
  "slots_inv limit s \<longleftrightarrow>
     (\<forall>lane i h. locks s (lane, i) = Some h \<longleftrightarrow> has_place s h lane i)
     \<and> (\<forall>lane i h. has_place s h lane i \<longrightarrow> i < limit)"

lemma slots_invD:
  "slots_inv limit s \<Longrightarrow> has_place s h lane i \<Longrightarrow> locks s (lane, i) = Some h \<and> i < limit"
  unfolding slots_inv_def by blast

lemma slots_inv_locks: "slots_inv limit s \<Longrightarrow> locks s (lane, i) = Some h \<longleftrightarrow> has_place s h lane i"
  unfolding slots_inv_def by blast

lemma slots_invI:
  assumes "\<And>lane i h. locks s (lane, i) = Some h \<longleftrightarrow> has_place s h lane i"
    and "\<And>lane i h. has_place s h lane i \<Longrightarrow> i < limit"
  shows "slots_inv limit s"
  using assms unfolding slots_inv_def by blast

lemma has_place_locks [simp]: "has_place (s\<lparr>locks := l\<rparr>) = has_place s"
  by (simp add: has_place_def fun_eq_iff)

lemma has_place_upd [simp]:
  "has_place (s\<lparr>workers := (workers s)(h := st)\<rparr>) k lane i \<longleftrightarrow>
     (if k = h then st = Some (Running lane (WorkerSlot (Some i))) else has_place s k lane i)"
  by (simp add: has_place_def)

lemma has_place_upd2 [simp]:
  "has_place (s\<lparr>locks := l, workers := (workers s)(h := st)\<rparr>) k lane i \<longleftrightarrow>
     (if k = h then st = Some (Running lane (WorkerSlot (Some i))) else has_place s k lane i)"
  by (simp add: has_place_def)

lemma admit_iteration_cases:
  assumes "admit_iteration limit h lane stage obs (l, files) = ((l', files'), outcome)"
  obtains (vanished) "obs_root_gone obs" "outcome = Vanished" "l' = l"
    | (guarded) reason where "\<not> obs_root_gone obs" "obs_constraint obs (stage_tier stage) = Some reason"
        "outcome = KeepWaiting" "l' = l"
    | (queued) "\<not> obs_root_gone obs" "obs_constraint obs (stage_tier stage) = None"
        "outcome = KeepWaiting" "l' = l" "\<forall>i<limit. l (lane, i) \<noteq> None"
    | (admitted) i where "\<not> obs_root_gone obs" "obs_constraint obs (stage_tier stage) = None"
        "i < limit" "outcome = Admitted (WorkerSlot (Some i))" "l (lane, i) = None" "l' = l((lane, i) \<mapsto> h)"
    | (unlimited) "\<not> obs_root_gone obs" "obs_constraint obs (stage_tier stage) = None"
        "outcome = Admitted (WorkerSlot None)" "l' = l" "\<exists>i<limit. obs_failures obs (lane, i)"
proof (cases "obs_root_gone obs \<or> obs_constraint obs (stage_tier stage) \<noteq> None")
  case True
  then show ?thesis
    using assms that(1,2) by (auto simp: admit_iteration_def split: if_splits)
next
  case False
  obtain r l1 where r: "try_slots (obs_failures obs) h lane [0..<limit] l = (r, l1)" by fastforce
  then have out: "l' = l1" "outcome = (case r of None \<Rightarrow> KeepWaiting | Some slot \<Rightarrow> Admitted slot)"
    using assms False
    by (auto simp: admit_iteration_def try_acquire_worker_slot_def Let_def split: option.splits)
  from r show ?thesis
  proof (cases rule: try_slots_cases)
    case full
    then show ?thesis using False out that(3) by auto
  next
    case (free i)
    then show ?thesis using False out that(4) [of i] by auto
  next
    case unusable
    then have "\<exists>i<limit. obs_failures obs (lane, i)" by auto
    then show ?thesis using False out that(5) unusable by auto
  qed
qed

lemma slots_inv_release:
  assumes inv: "slots_inv limit s" and h: "workers s h = Some (Running lane slot)"
    and st: "\<And>lane i. st \<noteq> Some (Running lane (WorkerSlot (Some i)))"
  shows "slots_inv limit (s\<lparr>locks := drop_slot lane slot (locks s), workers := (workers s)(h := st)\<rparr>)"
proof (cases slot)
  case (WorkerSlot place)
  have mine: "locks s (lane', i) = Some h \<longleftrightarrow> lane' = lane \<and> place = Some i" for lane' i
    using slots_inv_locks [OF inv, of lane' i h] h WorkerSlot by (auto simp: has_place_def)
  have "drop_slot lane slot (locks s) (lane', i) = Some k \<longleftrightarrow> k \<noteq> h \<and> has_place s k lane' i" for lane' i k
    using slots_inv_locks [OF inv, of lane' i k] mine [of lane' i] WorkerSlot by (cases place) auto
  then show ?thesis by (intro slots_invI) (auto simp: st split: if_splits dest: slots_invD [OF inv])
qed

lemma slots_inv_quiet:
  assumes inv: "slots_inv limit s" and "\<And>lane i. workers s h \<noteq> Some (Running lane (WorkerSlot (Some i)))"
    and "\<And>lane i. st \<noteq> Some (Running lane (WorkerSlot (Some i)))"
  shows "slots_inv limit (s\<lparr>workers := (workers s)(h := st)\<rparr>)"
  using assms(2) [folded has_place_def] assms(3)
  by (intro slots_invI) (auto simp: slots_inv_locks [OF inv] split: if_splits dest: slots_invD [OF inv])

lemma slots_inv_admit:
  assumes inv: "slots_inv limit s" and "workers s h = Some (Waiting lane stage files)"
    and "i < limit" and "locks s (lane, i) = None"
  shows "slots_inv limit (s\<lparr>locks := (locks s)((lane, i) \<mapsto> h),
           workers := (workers s)(h \<mapsto> Running lane (WorkerSlot (Some i)))\<rparr>)"
proof -
  have "\<not> has_place s h lane' j" for lane' j using assms(2) by (simp add: has_place_def)
  moreover have "\<not> has_place s k lane i" for k using slots_invD [OF inv] assms(4) by fastforce
  ultimately show ?thesis using assms(3)
    by (intro slots_invI) (auto simp: slots_inv_locks [OF inv] split: if_splits dest: slots_invD [OF inv])
qed

lemma same_locks: "s\<lparr>locks := locks s, workers := f\<rparr> = s\<lparr>workers := f\<rparr>"
  by simp

lemma workers_step_inv: "workers_step limit s s' \<Longrightarrow> slots_inv limit s \<Longrightarrow> slots_inv limit s'"
proof (induction rule: workers_step.induct)
  case (spawn s h lane stage files)
  then show ?case by (intro slots_inv_quiet) auto
next
  case (poll_wait s h lane stage files obs l' files')
  then have "l' = locks s" by (auto elim: admit_iteration_cases)
  then show ?case using poll_wait by (simp add: same_locks slots_inv_quiet)
next
  case (poll_vanished s h lane stage files obs l' files')
  then have "l' = locks s" by (auto elim: admit_iteration_cases)
  then show ?case using poll_vanished by (simp add: same_locks slots_inv_quiet)
next
  case (poll_admitted s h lane stage files obs l' files' slot)
  from poll_admitted.hyps(2) show ?case
  proof (cases rule: admit_iteration_cases)
    case (admitted i)
    then show ?thesis using slots_inv_admit poll_admitted by simp
  next
    case unlimited
    then show ?thesis using poll_admitted by (simp add: same_locks slots_inv_quiet)
  qed auto
next
  case (neural_yield s h slot files)
  then show ?case by (intro slots_inv_release) auto
next
  case (finish s h lane slot)
  then show ?case by (intro slots_inv_release) auto
next
  case (die_waiting s h lane stage files)
  then show ?case by (intro slots_inv_quiet) auto
next
  case (probe bad h lane s n l')
  then have "l' = locks s" by (simp add: free_worker_slots_def count_free_eq)
  then show ?case using probe.prems by simp
qed

lemma workers_new_inv: "slots_inv limit workers_new"
  by (simp add: slots_inv_def workers_new_def has_place_def)

interpretation worker_slots: component "\<lambda>s. s = workers_new" "workers_step limit" "slots_inv limit" for limit
  by unfold_locales (auto intro: workers_new_inv workers_step_inv)

lemma slots_inv_card:
  assumes "slots_inv limit s"
  shows "finite {h. \<exists>i. has_place s h lane i} \<and> card {h. \<exists>i. has_place s h lane i} \<le> limit"
proof -
  have sub: "{h. \<exists>i. has_place s h lane i} \<subseteq> (\<lambda>i. the (locks s (lane, i))) ` {..<limit}"
  proof
    fix h assume "h \<in> {h. \<exists>i. has_place s h lane i}"
    then obtain i where "has_place s h lane i" by auto
    from slots_invD [OF assms this] show "h \<in> (\<lambda>i. the (locks s (lane, i))) ` {..<limit}"
      by (intro image_eqI [of _ _ i]) auto
  qed
  have "card ((\<lambda>i. the (locks s (lane, i))) ` {..<limit}) \<le> limit"
    using card_image_le [of "{..<limit}"] by simp
  then show ?thesis using sub card_mono [OF _ sub] finite_subset [OF sub] by auto
qed


section \<open>Snapshots of the index\<close>

text \<open>The files of an index that a snapshot reads. \<open>Inl\<close> stands for an I/O error other than
  a missing file.\<close>

datatype enhancement_error = IoError | EnhancementSuperseded

record index_files =
  incarnation_file :: "enhancement_error + string option"
  metadata_generation :: "enhancement_error + nat option"
  incarnation_writable :: bool

record EnhancementSnapshot =
  snap_incarnation :: string
  snap_generation :: nat

definition read_index_incarnation :: "index_files \<Rightarrow> enhancement_error + string option" where
  "read_index_incarnation fs =
     (case incarnation_file fs of
        Inr (Some v) \<Rightarrow> if trim v \<noteq> [] then Inr (Some (trim v)) else Inr None
      | Inr None \<Rightarrow> Inr None
      | Inl e \<Rightarrow> Inl e)"

text \<open>\<open>fresh\<close> is the new UUID.\<close>

definition capture :: "string \<Rightarrow> index_files \<Rightarrow> index_files \<times> (enhancement_error + EnhancementSnapshot)" where
  "capture fresh fs =
     (case read_index_incarnation fs of
        Inl e \<Rightarrow> (fs, Inl e)
      | Inr known \<Rightarrow>
          let (fs1, written) =
                (case known of
                   Some v \<Rightarrow> (fs, Some v)
                 | None \<Rightarrow> if incarnation_writable fs
                           then (fs\<lparr>incarnation_file := Inr (Some fresh)\<rparr>, Some fresh) else (fs, None))
          in case written of
               None \<Rightarrow> (fs1, Inl IoError)
             | Some v \<Rightarrow>
                 (case metadata_generation fs1 of
                    Inl e \<Rightarrow> (fs1, Inl e)
                  | Inr g \<Rightarrow> (fs1, Inr \<lparr>snap_incarnation = v, snap_generation = (case g of Some n \<Rightarrow> n | None \<Rightarrow> 0)\<rparr>)))"

definition verify_current :: "EnhancementSnapshot \<Rightarrow> index_files \<Rightarrow> enhancement_error + unit" where
  "verify_current snap fs =
     (case read_index_incarnation fs of
        Inl e \<Rightarrow> Inl e
      | Inr v \<Rightarrow> if v \<noteq> Some (snap_incarnation snap) then Inl EnhancementSuperseded else Inr ())"

text \<open>\<open>lockable\<close> says whether the index lock could be opened and taken.\<close>

definition lock_current :: "bool \<Rightarrow> EnhancementSnapshot \<Rightarrow> index_files \<Rightarrow> enhancement_error + unit" where
  "lock_current lockable snap fs = (if \<not> lockable then Inl IoError else verify_current snap fs)"


section \<open>Properties\<close>

text \<open>Claim C7. Whatever workers appear, poll, give up their place, finish or die, in every lane at
  most \<open>enhance_max_workers\<close> workers run with a place, a number between 1 and 64, and no two
  workers hold the same place of a lane.\<close>

theorem lane_limit_holds:
  assumes "reachable (\<lambda>s. s = workers_new) (workers_step (enhance_max_workers env)) s"
  shows "card {h. \<exists>i. has_place s h lane i} \<le> enhance_max_workers env
     \<and> finite {h. \<exists>i. has_place s h lane i}
     \<and> (has_place s h lane i \<and> has_place s k lane i \<longrightarrow> h = k)
     \<and> 1 \<le> enhance_max_workers env \<and> enhance_max_workers env \<le> 64"
proof -
  have inv: "slots_inv (enhance_max_workers env) s" using assms by (rule worker_slots.reachable_invar)
  have "1 \<le> enhance_max_workers env"
    by (auto simp: enhance_max_workers_def DEFAULT_ENHANCE_MAX_WORKERS_def min_def split: option.splits)
  then show ?thesis
    using slots_inv_card [OF inv, of lane] slots_invD [OF inv, of h lane i] slots_invD [OF inv, of k lane i]
    by (auto simp: enhance_max_workers_def)
qed

definition one_worker :: workers_system where
  "one_worker = \<lparr>locks = Map.empty, workers = [7 \<mapsto> Waiting HashLane HashPass \<lparr>paused_file = None, phase_file = None\<rparr>]\<rparr>"

theorem lane_limit_holds_witness:
  "card {h. \<exists>i. has_place one_worker h HashLane i} \<le> enhance_max_workers (Some '' 3 '')"
proof -
  have "reachable (\<lambda>s. s = workers_new) (workers_step (enhance_max_workers (Some '' 3 ''))) workers_new"
    by (rule reachable_start) simp
  moreover have "workers_step (enhance_max_workers (Some '' 3 '')) workers_new one_worker"
    using spawn [of workers_new 7] by (simp add: workers_new_def one_worker_def)
  ultimately have "reachable (\<lambda>s. s = workers_new) (workers_step (enhance_max_workers (Some '' 3 ''))) one_worker"
    by (rule reachable_step)
  then show ?thesis using lane_limit_holds by blast
qed

text \<open>Theorem. The probe that the daemon uses and the acquisition that a worker uses agree: a place
  counts as free exactly if it is unusable or unlocked, the probe leaves all locks as they
  were, and an acquisition fails exactly if the probe finds no free place. A place is taken
  only if it was unlocked, and no other lock changes.\<close>

theorem slot_probe_agrees:
  "fst (free_worker_slots limit bad h lane l) = card {i. i < limit \<and> (bad (lane, i) \<or> l (lane, i) = None)}
   \<and> snd (free_worker_slots limit bad h lane l) = l
   \<and> (fst (try_acquire_worker_slot limit bad k lane l) = None
        \<longleftrightarrow> fst (free_worker_slots limit bad h lane l) = 0)
   \<and> (case try_acquire_worker_slot limit bad k lane l of
        (Some (WorkerSlot (Some i)), l') \<Rightarrow> i < limit \<and> l (lane, i) = None \<and> l' = l((lane, i) \<mapsto> k)
      | (_, l') \<Rightarrow> l' = l)"
proof -
  obtain r l' where r: "try_slots bad k lane [0..<limit] l = (r, l')" by fastforce
  have "length (filter P [0..<limit]) = card {i. i < limit \<and> P i}" for P
    by (simp add: length_filter_conv_card cong: conj_cong)
  then have free: "free_worker_slots limit bad h lane l = (card {i. i < limit \<and> (bad (lane, i) \<or> l (lane, i) = None)}, l)"
    by (simp add: free_worker_slots_def count_free_eq)
  from r show ?thesis
    by (cases rule: try_slots_cases) (use free r in \<open>auto simp: try_acquire_worker_slot_def\<close>)
qed

text \<open>A moment at which the loop need not wait any longer.\<close>

definition admits_now :: "nat \<Rightarrow> WorkerLane \<Rightarrow> WorkerStage \<Rightarrow> admit_obs \<Rightarrow> slot_locks \<Rightarrow> bool" where
  "admits_now limit lane stage obs l \<longleftrightarrow> obs_root_gone obs
     \<or> (obs_constraint obs (stage_tier stage) = None
        \<and> (\<exists>i<limit. obs_failures obs (lane, i) \<or> l (lane, i) = None))"

lemma admit_iteration_waits:
  assumes "admit_iteration limit h lane stage obs (l, files) = (st', KeepWaiting)"
  shows "fst st' = l \<and> \<not> admits_now limit lane stage obs l"
proof -
  obtain l' files' where st': "st' = (l', files')" by fastforce
  obtain r l1 where r: "try_slots (obs_failures obs) h lane [0..<limit] l = (r, l1)" by fastforce
  show ?thesis
  proof (cases "obs_root_gone obs \<or> obs_constraint obs (stage_tier stage) \<noteq> None")
    case True
    then show ?thesis using assms by (auto simp: admit_iteration_def admits_now_def split: if_splits)
  next
    case False
    then have "r = None" "fst st' = l1"
      using assms r by (auto simp: admit_iteration_def try_acquire_worker_slot_def Let_def split: option.splits)
    from r this show ?thesis
      by (cases rule: try_slots_cases) (use False in \<open>auto simp: admits_now_def\<close>)
  qed
qed

lemma admit_iteration_returns:
  assumes "admit_iteration limit h lane stage obs st = (st', outcome)" and "outcome \<noteq> KeepWaiting"
    and "obs_files_ok obs"
  shows "paused_file (snd st') = None \<and> phase_file (snd st') = None"
  using assms by (auto simp: admit_iteration_def set_paused_def set_phase_def Let_def
      split: if_splits option.splits prod.splits)

lemma admit_worker_when_returns:
  "admits_now limit lane stage obs (others (fold snd pre l)) \<Longrightarrow>
   \<exists>r. admit_worker_when limit h lane stage (pre @ (obs, others) # rest) (l, files) = Some r"
proof (induction pre arbitrary: l files)
  case Nil
  then show ?case using admit_iteration_waits [of limit h lane stage obs "others l" files]
    by (auto split: prod.splits admit_outcome.splits)
next
  case (Cons p pre)
  obtain o1 f1 where p: "p = (o1, f1)" by fastforce
  obtain st' out where it: "admit_iteration limit h lane stage o1 (f1 l, files) = (st', out)" by fastforce
  show ?case
  proof (cases out)
    case KeepWaiting
    then have "fst st' = f1 l" using admit_iteration_waits it by blast
    then show ?thesis
      using Cons.IH [of "f1 l" "snd st'"] Cons.prems it KeepWaiting p by (cases st') simp
  qed (use it p in auto)
qed

lemma admit_worker_when_clean:
  "admit_worker_when limit h lane stage os st = Some (r, st') \<Longrightarrow> list_all (obs_files_ok \<circ> fst) os \<Longrightarrow>
   paused_file (snd st') = None \<and> phase_file (snd st') = None"
proof (induction limit h lane stage os st rule: admit_worker_when.induct)
  case (2 limit h lane stage obs others rest st)
  obtain st1 out where it: "admit_iteration limit h lane stage obs (others (fst st), snd st) = (st1, out)"
    by fastforce
  show ?case
  proof (cases "out = KeepWaiting")
    case True
    then show ?thesis using 2 it by auto
  next
    case False
    then have "st1 = st'" using "2.prems"(1) it by (cases out) auto
    then show ?thesis using admit_iteration_returns [OF it False] "2.prems"(2) by auto
  qed
qed simp

text \<open>Theorem. The admission loop waits no longer than it has to: if at some observation the root
  is gone, or the guards of the stage are silent and the lane has a place that is free or
  cannot be locked, then the loop has returned by that observation at the latest, whatever
  other processes do to the locks. When it returns, neither marker file is left.\<close>

theorem admit_worker_responsive:
  assumes "admits_now limit lane stage obs (others (fold snd pre l))"
    and "list_all (obs_files_ok \<circ> fst) (pre @ [(obs, others)])"
  shows "\<exists>slot l' files'. admit_worker_when limit h lane stage (pre @ [(obs, others)]) (l, files)
       = Some (slot, l', files') \<and> paused_file files' = None \<and> phase_file files' = None"
proof -
  obtain slot l' files' where
    "admit_worker_when limit h lane stage (pre @ [(obs, others)]) (l, files) = Some (slot, l', files')"
    using admit_worker_when_returns [of limit lane stage obs others pre l h "[]" files] assms(1) by auto
  then show ?thesis using admit_worker_when_clean [OF _ assms(2)] by fastforce
qed

definition quiet_obs :: admit_obs where
  "quiet_obs = \<lparr>obs_root_gone = False, obs_constraint = (\<lambda>_. None), obs_files_ok = True, obs_failures = (\<lambda>_. False)\<rparr>"

theorem admit_worker_responsive_witness:
  "\<exists>slot l' files'. admit_worker_when 1 7 HashLane HashPass
       ([(quiet_obs, \<lambda>_. [(HashLane, 0) \<mapsto> 3])] @ [(quiet_obs, \<lambda>_. Map.empty)])
       (Map.empty, \<lparr>paused_file = Some ''battery'', phase_file = None\<rparr>)
     = Some (slot, l', files') \<and> paused_file files' = None \<and> phase_file files' = None"
  by (rule admit_worker_responsive) (simp_all add: admits_now_def quiet_obs_def)

text \<open>Theorem. A snapshot opens the index for publication exactly as long as the incarnation it was
  taken from is in place: right after a capture with a fresh identifier it does, and after
  the index got any other incarnation, or lost it, it is refused as superseded.\<close>

theorem snapshot_guards_publication:
  assumes "capture fresh fs = (fs', Inr snap)" and "trim fresh = fresh" and "fresh \<noteq> []"
  shows "lock_current True snap fs' = Inr ()
     \<and> (read_index_incarnation later = Inr v \<longrightarrow>
          (lock_current True snap later = Inr () \<longleftrightarrow> v = Some (snap_incarnation snap))
          \<and> (v \<noteq> Some (snap_incarnation snap) \<longrightarrow> lock_current True snap later = Inl EnhancementSuperseded))"
proof -
  have "read_index_incarnation fs' = Inr (Some (snap_incarnation snap))"
    using assms by (auto simp: capture_def read_index_incarnation_def Let_def
        split: sum.splits option.splits if_splits)
  then show ?thesis by (auto simp: lock_current_def verify_current_def)
qed

definition plain_index :: index_files where
  "plain_index = \<lparr>incarnation_file = Inr None, metadata_generation = Inr (Some 4), incarnation_writable = True\<rparr>"

theorem snapshot_guards_publication_witness:
  "\<exists>fs' snap. capture ''u1'' plain_index = (fs', Inr snap) \<and> lock_current True snap fs' = Inr ()"
proof -
  have t: "trim ''u1'' = ''u1''" by code_simp
  obtain fs' snap where c: "capture ''u1'' plain_index = (fs', Inr snap)"
    by (auto simp: capture_def plain_index_def read_index_incarnation_def Let_def)
  from snapshot_guards_publication [OF c t] c show ?thesis by blast
qed

end
