(* ===== verification/Enhancement_Queue.thy ===== *)
theory Enhancement_Queue
  imports Worker_Slots "HOL-Library.Multiset"
begin

text \<open>
  The daemon's queue of background enhancement requests, \<^verbatim>\<open>src/src/enhancement_queue.rs\<close>:
  the request policy, the queue state, \<^verbatim>\<open>touch\<close>, \<^verbatim>\<open>request\<close> and \<^verbatim>\<open>dispatch\<close>. The trait
  \<^verbatim>\<open>WorkerHost\<close>, through which the queue looks at worker processes, is a record of functions
  over a world state that only \<^verbatim>\<open>start\<close> changes. A panic of the source (an \<^verbatim>\<open>expect\<close> that
  fails, a subtraction below zero) is the result \<open>None\<close>. The theorems show that the queue
  keeps its invariant, that a dispatch never panics, never exceeds the places of a lane,
  starts at most one worker per workspace, goes from the most recent request to the oldest and
  drops no request whose work is still to do.
\<close>

section \<open>Requests, hosts and the state of the queue\<close>

definition MAX_PENDING :: nat where
  "MAX_PENDING = 1024"

datatype EnhancementPolicy = HashOnly | MaintainExisting | Neural

text \<open>The derived order on policies: the order of the constructors.\<close>

fun policy_rank :: "EnhancementPolicy \<Rightarrow> nat" where
  "policy_rank HashOnly = 0"
| "policy_rank MaintainExisting = 1"
| "policy_rank Neural = 2"

instantiation EnhancementPolicy :: linorder
begin

definition less_eq_EnhancementPolicy :: "EnhancementPolicy \<Rightarrow> EnhancementPolicy \<Rightarrow> bool" where
  "less_eq_EnhancementPolicy p q \<longleftrightarrow> policy_rank p \<le> policy_rank q"

definition less_EnhancementPolicy :: "EnhancementPolicy \<Rightarrow> EnhancementPolicy \<Rightarrow> bool" where
  "less_EnhancementPolicy p q \<longleftrightarrow> policy_rank p < policy_rank q"

instance
proof
  fix p q :: EnhancementPolicy
  show "p \<le> q \<Longrightarrow> q \<le> p \<Longrightarrow> p = q"
    by (cases p; cases q) (auto simp: less_eq_EnhancementPolicy_def)
qed (auto simp: less_eq_EnhancementPolicy_def less_EnhancementPolicy_def)

end

record Workspace =
  ws_id :: string
  ws_root :: string

text \<open>The trait \<^verbatim>\<open>WorkerHost\<close>, and \<^verbatim>\<open>workspace::root_is_gone\<close>, which asks the file system.\<close>

record 'w WorkerHost =
  h_places :: "'w \<Rightarrow> nat"
  h_free_places :: "'w \<Rightarrow> WorkerLane \<Rightarrow> nat"
  h_lane :: "'w \<Rightarrow> Workspace \<Rightarrow> bool \<Rightarrow> WorkerLane option"
  h_needs_hash :: "'w \<Rightarrow> Workspace \<Rightarrow> bool"
  h_worker :: "'w \<Rightarrow> Workspace \<Rightarrow> nat option"
  h_start :: "'w \<Rightarrow> Workspace \<Rightarrow> WorkerLane \<Rightarrow> 'w \<times> bool"
  h_root_is_gone :: "'w \<Rightarrow> string \<Rightarrow> bool"

definition policy_for_query :: "bool \<Rightarrow> EnhancementPolicy" where
  "policy_for_query uses_neural = (if uses_neural then Neural else MaintainExisting)"

definition policy_lane ::
    "'w WorkerHost \<Rightarrow> 'w \<Rightarrow> EnhancementPolicy \<Rightarrow> Workspace \<Rightarrow> WorkerLane option" where
  "policy_lane host w policy ws =
     (case policy of
        HashOnly \<Rightarrow> if h_needs_hash host w ws then Some HashLane else None
      | _ \<Rightarrow> h_lane host w ws (policy = Neural))"

text \<open>The operations of a workspace that the daemon's host calls, and the two functions of
  other modules it asks for places.\<close>

record 'w worker_env =
  env_enhance_max_workers :: "'w \<Rightarrow> nat"
  env_free_worker_slots :: "'w \<Rightarrow> WorkerLane \<Rightarrow> nat"
  env_needs_search_enhancement :: "'w \<Rightarrow> Workspace \<Rightarrow> bool \<Rightarrow> bool"
  env_search_enhancement_uses_neural :: "'w \<Rightarrow> Workspace \<Rightarrow> bool \<Rightarrow> bool"
  env_needs_hash_enhancement :: "'w \<Rightarrow> Workspace \<Rightarrow> bool"
  env_enhancement_worker_pid :: "'w \<Rightarrow> Workspace \<Rightarrow> nat option"
  env_trigger_hash :: "'w \<Rightarrow> Workspace \<Rightarrow> 'w \<times> bool"
  env_trigger_neural :: "'w \<Rightarrow> Workspace \<Rightarrow> 'w \<times> bool"
  env_root_is_gone :: "'w \<Rightarrow> string \<Rightarrow> bool"

definition WorkerProcesses :: "'w worker_env \<Rightarrow> 'w WorkerHost" where
  "WorkerProcesses env =
     \<lparr>h_places = env_enhance_max_workers env,
      h_free_places = env_free_worker_slots env,
      h_lane = (\<lambda>w ws neural.
        if \<not> env_needs_search_enhancement env w ws neural then None
        else Some (if env_search_enhancement_uses_neural env w ws neural
                   then NeuralLane else HashLane)),
      h_needs_hash = env_needs_hash_enhancement env,
      h_worker = env_enhancement_worker_pid env,
      h_start = (\<lambda>w ws lane. case lane of
          HashLane \<Rightarrow> env_trigger_hash env w ws
        | NeuralLane \<Rightarrow> env_trigger_neural env w ws),
      h_root_is_gone = env_root_is_gone env\<rparr>"

record PendingRequest =
  req_workspace :: Workspace
  req_policy :: EnhancementPolicy
  req_lane :: WorkerLane
  req_recency :: nat
  req_hash_first :: bool

record StartedWorker =
  st_workspace :: Workspace
  st_lane :: WorkerLane
  st_pid :: nat

text \<open>\<^verbatim>\<open>QueueState\<close> and the counter \<^verbatim>\<open>pending_len\<close> that is read without the lock. The maps
  are association lists; \<^verbatim>\<open>HashMap\<close> iterates in no particular order, and both enumerations
  of the code select by recency, which differs for all requests.\<close>

record EnhancementQueue =
  pending :: "(string \<times> PendingRequest) list"
  started :: "(string \<times> StartedWorker) list"
  recency :: nat
  pending_len :: nat

definition queue_new :: EnhancementQueue where
  "queue_new = \<lparr>pending = [], started = [], recency = 0, pending_len = 0\<rparr>"

definition next_recency :: "EnhancementQueue \<Rightarrow> nat \<times> EnhancementQueue" where
  "next_recency q = (recency q + 1, q\<lparr>recency := recency q + 1\<rparr>)"


section \<open>touch and request\<close>

fun touch_loop :: "EnhancementQueue \<Rightarrow> string list \<Rightarrow> EnhancementQueue" where
  "touch_loop q [] = q"
| "touch_loop q (wid # ids) =
     (let (r, q1) = next_recency q
      in case map_of (pending q1) wid of
           None \<Rightarrow> touch_loop q1 ids
         | Some request \<Rightarrow>
             touch_loop (q1\<lparr>pending := alist_put wid (request\<lparr>req_recency := r\<rparr>) (pending q1)\<rparr>) ids)"

text \<open>\<open>locked\<close> says whether \<^verbatim>\<open>try_lock\<close> got the lock.\<close>

definition touch :: "bool \<Rightarrow> string list \<Rightarrow> EnhancementQueue \<Rightarrow> EnhancementQueue" where
  "touch locked ids q =
     (if pending_len q = 0 then q else if \<not> locked then q else touch_loop q ids)"

text \<open>\<^verbatim>\<open>min_by_key\<close> over the pending requests: the first of the requests with the least recency.\<close>

fun oldest_pending :: "(string \<times> PendingRequest) list \<Rightarrow> string option" where
  "oldest_pending [] = None"
| "oldest_pending ((wid, request) # rest) =
     (case oldest_pending rest of
        None \<Rightarrow> Some wid
      | Some other \<Rightarrow>
          (case map_of rest other of
             Some r2 \<Rightarrow> if req_recency request \<le> req_recency r2 then Some wid else Some other
           | None \<Rightarrow> Some wid))"

definition queue_request :: "'w WorkerHost \<Rightarrow> 'w \<Rightarrow> Workspace \<Rightarrow> EnhancementPolicy \<Rightarrow> EnhancementQueue \<Rightarrow> EnhancementQueue" where
  "queue_request host w ws policy0 q =
     (case policy_lane host w policy0 ws of
        None \<Rightarrow> q
      | Some lane0 \<Rightarrow>
          let (policy, lane) =
                (case map_of (pending q) (ws_id ws) of
                   Some waiting \<Rightarrow>
                     if policy0 < req_policy waiting then (req_policy waiting, req_lane waiting)
                     else (policy0, lane0)
                 | None \<Rightarrow> (policy0, lane0));
              (r, q1) = next_recency q;
              p1 = alist_put (ws_id ws)
                     \<lparr>req_workspace = ws, req_policy = policy, req_lane = lane,
                      req_recency = r, req_hash_first = True\<rparr> (pending q1);
              p2 = (if MAX_PENDING < length p1
                    then case oldest_pending p1 of Some oldest \<Rightarrow> alist_remove oldest p1 | None \<Rightarrow> p1
                    else p1)
          in q1\<lparr>pending := p2, pending_len := length p2\<rparr>)"


section \<open>dispatch\<close>

text \<open>The variables of the loop: the world, the two maps, the capacity of both lanes. The last
  field is a history variable: the \<^verbatim>\<open>start\<close> calls made so far with the world in which each
  was made.\<close>

record 'w dispatch_state =
  d_world :: 'w
  d_pending :: "(string \<times> PendingRequest) list"
  d_started :: "(string \<times> StartedWorker) list"
  d_capacity :: "WorkerLane \<Rightarrow> nat"
  d_starts :: "(string \<times> WorkerLane \<times> 'w) list"

text \<open>The end of an iteration, from the clone of the workspace on: forget the request unless it
  keeps waiting for its neural place, start the worker and account for it.\<close>

definition start_worker ::
    "'w WorkerHost \<Rightarrow> bool \<Rightarrow> string \<Rightarrow> Workspace \<Rightarrow> WorkerLane \<Rightarrow> 'w dispatch_state
       \<Rightarrow> 'w dispatch_state option" where
  "start_worker host hash_while_waiting wid ws lane d =
     (let d1 = (if \<not> hash_while_waiting
                then d\<lparr>d_pending := alist_remove wid (d_pending d)\<rparr> else d);
          (w', ok) = h_start host (d_world d1) ws lane;
          d2 = d1\<lparr>d_world := w', d_starts := d_starts d1 @ [(wid, lane, d_world d1)]\<rparr>
      in if \<not> ok then Some d2
         else case h_worker host w' ws of
                None \<Rightarrow> Some d2
              | Some pid \<Rightarrow>
                  if d_capacity d2 lane = 0 then None
                  else Some (d2\<lparr>d_capacity := (d_capacity d2)(lane := d_capacity d2 lane - 1),
                                d_started := alist_put wid
                                  \<lparr>st_workspace = ws, st_lane = lane, st_pid = pid\<rparr> (d_started d2)\<rparr>))"

text \<open>One iteration for the request \<open>wid\<close>, after the test for the end of the loop.\<close>

definition dispatch_one ::
    "'w WorkerHost \<Rightarrow> 'w dispatch_state \<Rightarrow> string \<Rightarrow> 'w dispatch_state option" where
  "dispatch_one host d wid =
     (case map_of (d_pending d) wid of
        None \<Rightarrow> None
      | Some request \<Rightarrow>
          let ws = req_workspace request;
              hash_while_waiting = (d_capacity d (req_lane request) = 0
                \<and> req_lane request = NeuralLane \<and> req_hash_first request
                \<and> 0 < d_capacity d HashLane)
          in if d_capacity d (req_lane request) = 0 \<and> \<not> hash_while_waiting then Some d
             else if h_worker host (d_world d) ws \<noteq> None then Some d
             else if hash_while_waiting
             then let d1 = d\<lparr>d_pending := alist_put wid (request\<lparr>req_hash_first := False\<rparr>) (d_pending d)\<rparr>
                  in if \<not> h_needs_hash host (d_world d) ws then Some d1
                     else start_worker host True wid ws HashLane d1
             else case policy_lane host (d_world d) (req_policy request) ws of
                    None \<Rightarrow> Some (d\<lparr>d_pending := alist_remove wid (d_pending d)\<rparr>)
                  | Some lane \<Rightarrow>
                      if d_capacity d lane = 0
                      then Some (d\<lparr>d_pending := alist_put wid (request\<lparr>req_lane := lane\<rparr>) (d_pending d)\<rparr>)
                      else start_worker host False wid ws lane d)"

fun dispatch_loop ::
    "'w WorkerHost \<Rightarrow> 'w dispatch_state \<Rightarrow> string list \<Rightarrow> 'w dispatch_state option" where
  "dispatch_loop host d [] = Some d"
| "dispatch_loop host d (wid # ids) =
     (if d_capacity d HashLane = 0 \<and> d_capacity d NeuralLane = 0 then Some d
      else case dispatch_one host d wid of
             None \<Rightarrow> None
           | Some d' \<Rightarrow> dispatch_loop host d' ids)"

definition lane_count :: "WorkerLane \<Rightarrow> (string \<times> StartedWorker) list \<Rightarrow> nat" where
  "lane_count lane ws = length (filter (\<lambda>(_, worker). st_lane worker = lane) ws)"

text \<open>The ids of the pending requests, most recent first (a stable sort by decreasing recency).\<close>

definition dispatch_order :: "(string \<times> PendingRequest) list \<Rightarrow> string list" where
  "dispatch_order p = map fst (rev (sort_key (\<lambda>(_, request). req_recency request) (rev p)))"

definition dispatch_init :: "'w WorkerHost \<Rightarrow> 'w \<Rightarrow> EnhancementQueue \<Rightarrow> 'w dispatch_state" where
  "dispatch_init host w q =
     (let st = alist_retain (\<lambda>_ worker. h_worker host w (st_workspace worker) = Some (st_pid worker)) (started q);
          p = alist_retain (\<lambda>_ request. \<not> h_root_is_gone host w (ws_root (req_workspace request))) (pending q)
      in \<lparr>d_world = w, d_pending = p, d_started = st,
          d_capacity = (\<lambda>lane. min (h_free_places host w lane) (h_places host w - lane_count lane st)),
          d_starts = []\<rparr>)"

definition dispatch_run :: "'w WorkerHost \<Rightarrow> 'w \<Rightarrow> EnhancementQueue \<Rightarrow> 'w dispatch_state option" where
  "dispatch_run host w q =
     (let d = dispatch_init host w q in dispatch_loop host d (dispatch_order (d_pending d)))"

definition dispatch :: "'w WorkerHost \<Rightarrow> 'w \<Rightarrow> EnhancementQueue \<Rightarrow> ('w \<times> EnhancementQueue) option" where
  "dispatch host w q =
     (case dispatch_run host w q of
        None \<Rightarrow> None
      | Some d \<Rightarrow> Some (d_world d,
          q\<lparr>pending := d_pending d, started := d_started d, pending_len := length (d_pending d)\<rparr>))"


section \<open>The invariant of the queue\<close>

definition recencies :: "(string \<times> PendingRequest) list \<Rightarrow> nat list" where
  "recencies p = map (\<lambda>(_, r). req_recency r) p"

definition request_ok :: "nat \<Rightarrow> string \<times> PendingRequest \<Rightarrow> bool" where
  "request_ok n e \<longleftrightarrow> req_recency (snd e) \<le> n \<and> ws_id (req_workspace (snd e)) = fst e"

definition pending_ok :: "nat \<Rightarrow> (string \<times> PendingRequest) list \<Rightarrow> bool" where
  "pending_ok n p \<longleftrightarrow> distinct_keys p \<and> distinct (recencies p) \<and> list_all (request_ok n) p"

definition queue_inv :: "EnhancementQueue \<Rightarrow> bool" where
  "queue_inv q \<longleftrightarrow>
     pending_ok (recency q) (pending q) \<and> distinct_keys (started q)
     \<and> length (pending q) \<le> MAX_PENDING \<and> pending_len q = length (pending q)"

lemma pending_ok_mono: "pending_ok n p \<Longrightarrow> n \<le> m \<Longrightarrow> pending_ok m p"
  by (auto simp: pending_ok_def request_ok_def list_all_iff)

lemma distinct_map_filter: "distinct (map f xs) \<Longrightarrow> distinct (map f (filter P xs))"
  by (induction xs) auto

lemma pending_ok_remove: "pending_ok n p \<Longrightarrow> pending_ok n (alist_remove k p)"
  by (auto simp: pending_ok_def list_all_alist_remove recencies_def alist_remove_def distinct_map_filter
      distinct_keys_def list_all_iff)

lemma pending_ok_retain: "pending_ok n p \<Longrightarrow> pending_ok n (alist_retain P p)"
  by (auto simp: pending_ok_def recencies_def alist_retain_def distinct_map_filter distinct_keys_def
      list_all_iff)

text \<open>A new recency, or the recency the request had before, keeps the requests apart.\<close>

lemma pending_ok_put:
  assumes "pending_ok n p" and "request_ok n (k, r)"
    and "req_recency r \<notin> set (recencies (alist_remove k p))"
  shows "pending_ok n (alist_put k r p)"
  using pending_ok_remove [OF assms(1), of k] assms(1-3) distinct_keys_put [of p k r]
  by (auto simp: pending_ok_def recencies_def alist_put_def)

lemma pending_ok_put_new:
  assumes "pending_ok n p" and "ws_id (req_workspace r) = k" and "req_recency r = Suc n"
  shows "pending_ok (Suc n) (alist_put k r p)"
proof (rule pending_ok_put)
  show "pending_ok (Suc n) p" using assms(1) by (rule pending_ok_mono) simp
  show "request_ok (Suc n) (k, r)" using assms by (simp add: request_ok_def)
  have "x \<le> n" if "x \<in> set (recencies (alist_remove k p))" for x
    using that assms(1) by (auto simp: recencies_def alist_remove_def pending_ok_def request_ok_def list_all_iff)
  then show "req_recency r \<notin> set (recencies (alist_remove k p))" using assms(3) by force
qed

lemma pending_ok_put_same:
  assumes "pending_ok n p" and "map_of p k = Some r0"
    and "req_recency r = req_recency r0" and "req_workspace r = req_workspace r0"
  shows "pending_ok n (alist_put k r p)"
proof (rule pending_ok_put [OF assms(1)])
  have in_p: "(k, r0) \<in> set p" using assms(2) by (rule map_of_SomeD)
  then show "request_ok n (k, r)"
    using assms by (auto simp: pending_ok_def request_ok_def list_all_iff)
  show "req_recency r \<notin> set (recencies (alist_remove k p))"
  proof
    assume "req_recency r \<in> set (recencies (alist_remove k p))"
    then obtain k' r' where r': "(k', r') \<in> set p" "k' \<noteq> k" "req_recency r' = req_recency r0"
      using assms(3) by (auto simp: recencies_def alist_remove_def)
    have "inj_on (\<lambda>(_, r). req_recency r) (set p)"
      using assms(1) by (simp add: pending_ok_def recencies_def distinct_map)
    then show False using r' in_p by (auto simp: inj_on_def)
  qed
qed

lemma touch_loop_inv: "queue_inv q \<Longrightarrow> queue_inv (touch_loop q ids)"
proof (induction ids arbitrary: q)
  case (Cons wid ids)
  let ?q1 = "q\<lparr>recency := Suc (recency q)\<rparr>"
  show ?case
  proof (cases "map_of (pending q) wid")
    case None
    have "queue_inv ?q1" using Cons.prems pending_ok_mono by (auto simp: queue_inv_def)
    then show ?thesis using Cons.IH None by (simp add: next_recency_def)
  next
    case (Some r)
    let ?r = "r\<lparr>req_recency := Suc (recency q)\<rparr>"
    have "(wid, r) \<in> set (pending q)" using Some by (rule map_of_SomeD)
    then have "ws_id (req_workspace ?r) = wid" "wid \<in> fst ` set (pending q)"
      using Cons.prems by (force simp: queue_inv_def pending_ok_def request_ok_def list_all_iff)+
    then have "queue_inv (?q1\<lparr>pending := alist_put wid ?r (pending q)\<rparr>)"
      using Cons.prems pending_ok_put_new [of "recency q" "pending q" ?r wid]
      by (auto simp: queue_inv_def length_alist_put_present pending_ok_def)
    then show ?thesis using Cons.IH Some by (simp add: next_recency_def)
  qed
qed simp

lemma touch_inv: "queue_inv q \<Longrightarrow> queue_inv (touch locked ids q)"
  by (simp add: touch_def touch_loop_inv)

lemma oldest_pending_spec:
  "p \<noteq> [] \<Longrightarrow> distinct_keys p \<Longrightarrow>
   \<exists>k r. oldest_pending p = Some k \<and> map_of p k = Some r
     \<and> list_all (\<lambda>(_, r'). req_recency r \<le> req_recency r') p"
proof (induction p rule: oldest_pending.induct)
  case (2 wid request rest)
  show ?case
  proof (cases "rest = []")
    case True
    then show ?thesis by simp
  next
    case False
    then obtain k r where k: "oldest_pending rest = Some k" "map_of rest k = Some r"
        "list_all (\<lambda>(_, r'). req_recency r \<le> req_recency r') rest"
      using 2 by (auto simp: distinct_keys_def)
    have "k \<noteq> wid" using map_of_SomeD [OF k(2)] "2.prems"(2) by (force simp: distinct_keys_def)
    then show ?thesis using k by (cases "req_recency request \<le> req_recency r") (auto simp: list_all_iff)
  qed
qed simp

text \<open>What a request changes: the waiting entry of the workspace, and perhaps the oldest one.\<close>

definition requested :: "Workspace \<Rightarrow> EnhancementPolicy \<Rightarrow> WorkerLane \<Rightarrow> EnhancementQueue \<Rightarrow> PendingRequest" where
  "requested ws policy0 lane0 q =
     (let (policy, lane) =
        (case map_of (pending q) (ws_id ws) of
           Some waiting \<Rightarrow>
             if policy0 < req_policy waiting then (req_policy waiting, req_lane waiting)
             else (policy0, lane0)
         | None \<Rightarrow> (policy0, lane0))
      in \<lparr>req_workspace = ws, req_policy = policy, req_lane = lane,
          req_recency = recency q + 1, req_hash_first = True\<rparr>)"

definition evict :: "(string \<times> PendingRequest) list \<Rightarrow> (string \<times> PendingRequest) list" where
  "evict p = (if MAX_PENDING < length p
     then case oldest_pending p of Some oldest \<Rightarrow> alist_remove oldest p | None \<Rightarrow> p else p)"

lemma queue_request_eq:
  "policy_lane host w policy0 ws = Some lane0 \<Longrightarrow>
   queue_request host w ws policy0 q =
     (let p = evict (alist_put (ws_id ws) (requested ws policy0 lane0 q) (pending q))
      in q\<lparr>recency := recency q + 1, pending := p, pending_len := length p\<rparr>)"
  by (auto simp: queue_request_def requested_def evict_def next_recency_def Let_def split: option.splits prod.splits)

lemma evict_length:
  assumes "distinct_keys p" "length p \<le> Suc MAX_PENDING"
  shows "length (evict p) \<le> MAX_PENDING"
proof (cases "MAX_PENDING < length p")
  case True
  then obtain k r where k: "oldest_pending p = Some k" "map_of p k = Some r"
    using oldest_pending_spec [OF _ assms(1)] by force
  then have "Suc (length (alist_remove k p)) = length p"
    using length_alist_remove_present [OF assms(1)] keys_map_of [of k p] by auto
  with True assms(2) k show ?thesis by (simp add: evict_def)
qed (simp add: evict_def)

lemma evict_pending_ok: "pending_ok n p \<Longrightarrow> pending_ok n (evict p)"
  by (auto simp: evict_def pending_ok_remove split: option.splits)

lemma queue_request_inv:
  assumes "queue_inv q"
  shows "queue_inv (queue_request host w ws policy q)"
proof (cases "policy_lane host w policy ws")
  case None
  then show ?thesis using assms by (simp add: queue_request_def)
next
  case (Some lane)
  let ?p = "alist_put (ws_id ws) (requested ws policy lane q) (pending q)"
  have "pending_ok (Suc (recency q)) ?p"
    using assms by (intro pending_ok_put_new)
      (auto simp: queue_inv_def requested_def Let_def split: prod.splits)
  moreover have "length (evict ?p) \<le> MAX_PENDING"
    using assms length_alist_put_le [of "ws_id ws" _ "pending q"]
    by (intro evict_length) (auto simp: queue_inv_def pending_ok_def intro: order_trans)
  ultimately show ?thesis
    using assms Some by (simp add: queue_request_eq queue_inv_def evict_pending_ok Let_def)
qed


section \<open>One iteration of dispatch\<close>

text \<open>An iteration that starts no worker: it may drop a request that needs no work any more,
  or note a new lane or a hash attempt in it.\<close>

definition quiet_step :: "'w WorkerHost \<Rightarrow> 'w dispatch_state \<Rightarrow> string \<Rightarrow> PendingRequest \<Rightarrow> 'w dispatch_state \<Rightarrow> bool" where
  "quiet_step host d wid r d' \<longleftrightarrow>
     d_world d' = d_world d \<and> d_starts d' = d_starts d \<and> d_capacity d' = d_capacity d
     \<and> d_started d' = d_started d
     \<and> (d_pending d' = d_pending d
        \<or> (\<exists>r'. d_pending d' = alist_put wid r' (d_pending d) \<and> req_workspace r' = req_workspace r
              \<and> req_recency r' = req_recency r \<and> req_policy r' = req_policy r)
        \<or> (d_pending d' = alist_remove wid (d_pending d)
              \<and> policy_lane host (d_world d) (req_policy r) (req_workspace r) = None))"

text \<open>An iteration that calls \<^verbatim>\<open>start\<close>: the workspace had no live worker, the lane had a place,
  and a worker that lives takes that place.\<close>

definition start_step :: "'w WorkerHost \<Rightarrow> 'w dispatch_state \<Rightarrow> string \<Rightarrow> PendingRequest \<Rightarrow> 'w dispatch_state \<Rightarrow> bool" where
  "start_step host d wid r d' \<longleftrightarrow>
     (\<exists>lane. d_starts d' = d_starts d @ [(wid, lane, d_world d)]
        \<and> d_world d' = fst (h_start host (d_world d) (req_workspace r) lane)
        \<and> h_worker host (d_world d) (req_workspace r) = None \<and> 0 < d_capacity d lane
        \<and> (d_capacity d' = d_capacity d \<and> d_started d' = d_started d
           \<or> (\<exists>worker. d_capacity d' = (d_capacity d)(lane := d_capacity d lane - 1)
                \<and> d_started d' = alist_put wid worker (d_started d) \<and> st_lane worker = lane
                \<and> st_workspace worker = req_workspace r
                \<and> h_worker host (d_world d') (req_workspace r) = Some (st_pid worker)))
        \<and> (d_pending d' = alist_remove wid (d_pending d)
              \<and> policy_lane host (d_world d) (req_policy r) (req_workspace r) = Some lane
           \<or> (\<exists>r'. d_pending d' = alist_put wid r' (d_pending d) \<and> req_workspace r' = req_workspace r
                \<and> req_recency r' = req_recency r \<and> req_policy r' = req_policy r)))"

lemma start_worker_step:
  assumes "0 < d_capacity d lane" and "h_worker host (d_world d) (req_workspace r) = None"
    and "hw \<Longrightarrow> req_workspace r' = req_workspace r \<and> req_recency r' = req_recency r \<and> req_policy r' = req_policy r"
    and "\<not> hw \<Longrightarrow> policy_lane host (d_world d) (req_policy r) (req_workspace r) = Some lane"
    and "d1 = (if hw then d\<lparr>d_pending := alist_put wid r' (d_pending d)\<rparr> else d)"
  shows "\<exists>d'. start_worker host hw wid (req_workspace r) lane d1 = Some d' \<and> start_step host d wid r d'"
proof -
  obtain w' ok where st: "h_start host (d_world d) (req_workspace r) lane = (w', ok)"
    by (cases "h_start host (d_world d) (req_workspace r) lane")
  show ?thesis
    using assms st
    by (cases "h_worker host w' (req_workspace r)"; cases ok; cases hw)
       (auto simp: start_worker_def start_step_def Let_def)
qed

lemma dispatch_one_step:
  assumes r: "map_of (d_pending d) wid = Some r"
  shows "\<exists>d'. dispatch_one host d wid = Some d' \<and> (quiet_step host d wid r d' \<or> start_step host d wid r d')"
proof -
  let ?ws = "req_workspace r" and ?w = "d_world d"
  let ?hw = "d_capacity d (req_lane r) = 0 \<and> req_lane r = NeuralLane \<and> req_hash_first r
     \<and> 0 < d_capacity d HashLane"
  consider (full) "d_capacity d (req_lane r) = 0" "\<not> ?hw"
    | (busy) "\<not> (d_capacity d (req_lane r) = 0 \<and> \<not> ?hw)" "h_worker host ?w ?ws \<noteq> None"
    | (hash) "?hw" "h_worker host ?w ?ws = None"
    | (start) "d_capacity d (req_lane r) \<noteq> 0" "h_worker host ?w ?ws = None"
    by argo
  then show ?thesis
  proof cases
    case full
    then have "dispatch_one host d wid = Some d" using r by (simp add: dispatch_one_def Let_def)
    then show ?thesis by (simp add: quiet_step_def)
  next
    case busy
    then have "dispatch_one host d wid = Some d" using r by (auto simp: dispatch_one_def Let_def)
    then show ?thesis by (simp add: quiet_step_def)
  next
    case hash
    let ?r = "r\<lparr>req_hash_first := False\<rparr>"
    let ?d1 = "d\<lparr>d_pending := alist_put wid ?r (d_pending d)\<rparr>"
    show ?thesis
    proof (cases "h_needs_hash host ?w ?ws")
      case False
      then have "dispatch_one host d wid = Some ?d1" using hash r by (auto simp: dispatch_one_def Let_def)
      then show ?thesis by (auto simp: quiet_step_def intro!: exI [of _ ?r])
    next
      case True
      then have "dispatch_one host d wid = start_worker host True wid ?ws HashLane ?d1"
        using hash r by (auto simp: dispatch_one_def Let_def)
      then show ?thesis
        using start_worker_step [of d HashLane host r True ?r ?d1 wid] hash by auto
    qed
  next
    case start
    show ?thesis
    proof (cases "policy_lane host ?w (req_policy r) ?ws")
      case None
      then have "dispatch_one host d wid = Some (d\<lparr>d_pending := alist_remove wid (d_pending d)\<rparr>)"
        using start r by (simp add: dispatch_one_def Let_def)
      then show ?thesis using None by (auto simp: quiet_step_def)
    next
      case (Some lane)
      show ?thesis
      proof (cases "d_capacity d lane = 0")
        case True
        let ?r = "r\<lparr>req_lane := lane\<rparr>"
        have "dispatch_one host d wid = Some (d\<lparr>d_pending := alist_put wid ?r (d_pending d)\<rparr>)"
          using True Some start r by (simp add: dispatch_one_def Let_def)
        then show ?thesis by (auto simp: quiet_step_def intro!: exI [of _ ?r])
      next
        case False
        then have "dispatch_one host d wid = start_worker host False wid ?ws lane d"
          using Some start r by (simp add: dispatch_one_def Let_def)
        then show ?thesis
          using start_worker_step [of d lane host r False r d wid] start False Some by auto
      qed
    qed
  qed
qed


lemmas dispatch_step_defs = quiet_step_def start_step_def

lemma step_frame:
  assumes "quiet_step host d wid r d' \<or> start_step host d wid r d'" and "k \<noteq> wid"
  shows "map_of (d_pending d') k = map_of (d_pending d) k"
  using assms by (auto simp: dispatch_step_defs)

lemma step_pending_ok:
  assumes "quiet_step host d wid r d' \<or> start_step host d wid r d'"
    and "map_of (d_pending d) wid = Some r" and "pending_ok n (d_pending d)"
  shows "pending_ok n (d_pending d')"
  using assms by (auto simp: dispatch_step_defs intro: pending_ok_remove pending_ok_put_same)

lemma step_pending_length:
  assumes "quiet_step host d wid r d' \<or> start_step host d wid r d'"
    and "map_of (d_pending d) wid = Some r" and "distinct_keys (d_pending d)"
  shows "length (d_pending d') \<le> length (d_pending d)"
proof -
  have "wid \<in> fst ` set (d_pending d)" using assms(2) by (auto simp: keys_map_of)
  then have "length (alist_put wid x (d_pending d)) = length (d_pending d)" for x
    using assms(3) by (simp add: length_alist_put_present)
  then show ?thesis using assms(1) by (auto simp: dispatch_step_defs length_alist_remove_le)
qed

lemma step_started_keys:
  assumes "quiet_step host d wid r d' \<or> start_step host d wid r d'" and "distinct_keys (d_started d)"
  shows "distinct_keys (d_started d')"
  using assms by (auto simp: dispatch_step_defs)

lemma lane_count_put: "lane_count lane (alist_put k worker ws) \<le> lane_count lane ws + (if st_lane worker = lane then 1 else 0)"
proof -
  have "lane_count lane (alist_remove k ws) \<le> lane_count lane ws"
    unfolding lane_count_def alist_remove_def by (induction ws) auto
  then show ?thesis by (simp add: lane_count_def alist_put_def)
qed

lemma step_capacity:
  assumes "quiet_step host d wid r d' \<or> start_step host d wid r d'"
    and "lane_count lane (d_started d) + d_capacity d lane \<le> n"
  shows "lane_count lane (d_started d') + d_capacity d' lane \<le> n"
  using assms(1)
proof
  assume "start_step host d wid r d'"
  then consider "d_capacity d' = d_capacity d" "d_started d' = d_started d"
    | worker where "d_capacity d' = (d_capacity d)(st_lane worker := d_capacity d (st_lane worker) - 1)"
        "d_started d' = alist_put wid worker (d_started d)" "0 < d_capacity d (st_lane worker)"
    by (auto simp: start_step_def)
  then show ?thesis
  proof cases
    case 2
    then show ?thesis using assms(2) lane_count_put [of lane wid worker "d_started d"] by auto
  qed (use assms(2) in simp)
qed (use assms(2) in \<open>auto simp: quiet_step_def\<close>)


section \<open>The loop of dispatch\<close>

text \<open>The loop works through ids that are all pending and never panics. A predicate that every
  iteration keeps holds at the end.\<close>

lemma dispatch_loop_keeps:
  assumes keep: "\<And>d wid r d'. P d \<Longrightarrow> map_of (d_pending d) wid = Some r \<Longrightarrow>
        quiet_step host d wid r d' \<or> start_step host d wid r d' \<Longrightarrow> P d'"
    and "P d" and "distinct ids" and "set ids \<subseteq> fst ` set (d_pending d)"
  shows "\<exists>d'. dispatch_loop host d ids = Some d' \<and> P d'"
  using assms(2-4)
proof (induction ids arbitrary: d)
  case (Cons wid ids)
  obtain r where r: "map_of (d_pending d) wid = Some r"
    using Cons.prems(3) by (auto simp: keys_map_of)
  obtain d' where d': "dispatch_one host d wid = Some d'"
      "quiet_step host d wid r d' \<or> start_step host d wid r d'"
    using dispatch_one_step [of d wid r host] r by blast
  have P: "P d'" using keep [OF Cons.prems(1) r d'(2)] .
  have "set ids \<subseteq> fst ` set (d_pending d')"
  proof
    fix k assume "k \<in> set ids"
    then have "k \<noteq> wid" "k \<in> fst ` set (d_pending d)" using Cons.prems(2,3) by auto
    then show "k \<in> fst ` set (d_pending d')"
      using step_frame [OF d'(2)] by (auto simp: keys_map_of)
  qed
  then show ?case using Cons.IH [OF P] Cons.prems d'(1) P by auto
qed simp

lemma set_dispatch_order: "set (dispatch_order p) = fst ` set p"
  by (force simp: dispatch_order_def)

lemma distinct_dispatch_order: "distinct_keys p \<Longrightarrow> distinct (dispatch_order p)"
proof -
  assume "distinct_keys p"
  have "mset (map fst (sort_key (\<lambda>(_, r). req_recency r) (rev p))) = mset (map fst p)"
    by simp
  then have "distinct (map fst (sort_key (\<lambda>(_, r). req_recency r) (rev p)))"
    using \<open>distinct_keys p\<close> mset_eq_imp_distinct_iff unfolding distinct_keys_def by blast
  then show ?thesis by (simp add: dispatch_order_def flip: rev_map)
qed

text \<open>Forgetting some of the requests keeps the order of the rest.\<close>

lemma filter_insort_key_false: "\<not> P x \<Longrightarrow> filter P (insort_key f x xs) = filter P xs"
  by (induction xs) auto

lemma dispatch_order_retain:
  "subseq (dispatch_order (alist_retain P p)) (dispatch_order p)"
proof -
  have "rev (alist_retain P p) = filter (\<lambda>(k, v). P k v) (rev p)"
    by (simp add: alist_retain_def rev_filter)
  then have "sort_key f (rev (alist_retain P p)) = filter (\<lambda>(k, v). P k v) (sort_key f (rev p))" for f :: "_ \<Rightarrow> nat"
    by (simp add: filter_sort)
  then show ?thesis
    by (auto simp: dispatch_order_def rev_filter intro!: subseq_map)
qed

lemma dispatch_init_simps [simp]:
  "d_world (dispatch_init host w q) = w" "d_starts (dispatch_init host w q) = []"
  by (simp_all add: dispatch_init_def Let_def)

lemma dispatch_init_pending_ok:
  "queue_inv q \<Longrightarrow> pending_ok (recency q) (d_pending (dispatch_init host w q))"
  by (simp add: queue_inv_def dispatch_init_def Let_def pending_ok_retain)

lemma dispatch_init_length: "length (d_pending (dispatch_init host w q)) \<le> length (pending q)"
  by (simp add: dispatch_init_def Let_def alist_retain_def)

lemma dispatch_init_started: "queue_inv q \<Longrightarrow> distinct_keys (d_started (dispatch_init host w q))"
  by (simp add: queue_inv_def dispatch_init_def Let_def)

lemma dispatch_run_keeps:
  assumes "queue_inv q" and "P (dispatch_init host w q)"
    and "\<And>d wid r d'. P d \<Longrightarrow> map_of (d_pending d) wid = Some r \<Longrightarrow>
        quiet_step host d wid r d' \<or> start_step host d wid r d' \<Longrightarrow> P d'"
  shows "\<exists>d'. dispatch_run host w q = Some d' \<and> P d'"
proof -
  let ?d = "dispatch_init host w q"
  have "distinct_keys (d_pending ?d)"
    using dispatch_init_pending_ok [OF assms(1), of host w] by (simp add: pending_ok_def)
  then show ?thesis
    unfolding dispatch_run_def Let_def
    by (intro dispatch_loop_keeps [of P] assms(2)) (auto intro: assms(3) simp: set_dispatch_order distinct_dispatch_order)
qed

lemma dispatch_run_total: "queue_inv q \<Longrightarrow> \<exists>d. dispatch_run host w q = Some d"
  using dispatch_run_keeps [of q "\<lambda>_. True" host w] by auto

lemma dispatch_inv:
  fixes host :: "'w WorkerHost"
  assumes inv: "queue_inv q" and dq: "dispatch host w q = Some (w', q')"
  shows "queue_inv q'"
proof -
  define P where "P = (\<lambda>d :: 'w dispatch_state. pending_ok (recency q) (d_pending d) \<and> distinct_keys (d_started d)
     \<and> length (d_pending d) \<le> length (pending q))"
  have "\<exists>d'. dispatch_run host w q = Some d' \<and> P d'"
  proof (rule dispatch_run_keeps [OF inv])
    show "P (dispatch_init host w q)"
      using inv by (simp add: P_def dispatch_init_pending_ok dispatch_init_length dispatch_init_started)
    show "P d'" if "P d" "map_of (d_pending d) wid = Some r"
      "quiet_step host d wid r d' \<or> start_step host d wid r d'" for d wid r d'
      using that step_pending_ok [OF that(3,2)] step_started_keys [OF that(3)]
        step_pending_length [OF that(3,2)] by (auto simp: P_def pending_ok_def)
  qed
  then show ?thesis
    using dq inv by (auto simp: dispatch_def P_def queue_inv_def split: option.splits)
qed


lemma step_starts:
  "quiet_step host d wid r d' \<or> start_step host d wid r d' \<Longrightarrow>
   d_starts d' = d_starts d
   \<or> (\<exists>lane. d_starts d' = d_starts d @ [(wid, lane, d_world d)]
        \<and> h_worker host (d_world d) (req_workspace r) = None)"
  by (auto simp: dispatch_step_defs)

text \<open>The starts of a run follow the order of the requests.\<close>

lemma dispatch_loop_starts:
  "dispatch_loop host d ids = Some d' \<Longrightarrow>
   \<exists>new. d_starts d' = d_starts d @ new \<and> subseq (map fst new) ids"
proof (induction host d ids rule: dispatch_loop.induct)
  case (2 host d wid ids)
  show ?case
  proof (cases "d_capacity d HashLane = 0 \<and> d_capacity d NeuralLane = 0")
    case False
    then obtain d1 where d1: "dispatch_one host d wid = Some d1" "dispatch_loop host d1 ids = Some d'"
      using "2.prems" by (auto split: option.splits)
    then obtain r where r: "map_of (d_pending d) wid = Some r"
      by (auto simp: dispatch_one_def split: option.splits)
    obtain new where new: "d_starts d' = d_starts d1 @ new" "subseq (map fst new) ids"
      using "2.IH" [OF False d1] by auto
    have "d_starts d1 = d_starts d \<or> (\<exists>lane. d_starts d1 = d_starts d @ [(wid, lane, d_world d)])"
      using dispatch_one_step [OF r, of host] d1(1) by (auto simp: dispatch_step_defs)
    then show ?thesis
    proof
      assume "\<exists>lane. d_starts d1 = d_starts d @ [(wid, lane, d_world d)]"
      then obtain lane where "d_starts d1 = d_starts d @ [(wid, lane, d_world d)]" by auto
      then show ?thesis using new by (intro exI [of _ "(wid, lane, d_world d) # new"]) simp
    qed (use new in auto)
  qed (use "2.prems" in simp)
qed simp

text \<open>The worlds a run passes through: the first one, and what starts make of one.\<close>

inductive run_world :: "'w WorkerHost \<Rightarrow> 'w \<Rightarrow> 'w \<Rightarrow> bool" for host :: "'w WorkerHost" and w :: 'w where
  run_world_first: "run_world host w w"
| run_world_start: "run_world host w w1 \<Longrightarrow> run_world host w (fst (h_start host w1 ws lane))"

lemma step_run_world:
  "quiet_step host d wid r d' \<or> start_step host d wid r d' \<Longrightarrow> run_world host w (d_world d)
   \<Longrightarrow> run_world host w (d_world d')"
  by (auto simp: dispatch_step_defs intro: run_world_start)

definition same_work :: "PendingRequest \<Rightarrow> PendingRequest \<Rightarrow> bool" where
  "same_work r r' \<longleftrightarrow> req_workspace r' = req_workspace r \<and> req_policy r' = req_policy r
     \<and> req_recency r' = req_recency r"

text \<open>What becomes of the request \<open>r0\<close> under the id \<open>k\<close>: it still waits, a worker for its
  lane was started, or its work was already done.\<close>

definition accounted :: "'w WorkerHost \<Rightarrow> 'w \<Rightarrow> string \<Rightarrow> PendingRequest \<Rightarrow> 'w dispatch_state \<Rightarrow> bool" where
  "accounted host w k r0 d \<longleftrightarrow>
     (\<exists>r. map_of (d_pending d) k = Some r \<and> same_work r0 r)
     \<or> (\<exists>lane w1. (k, lane, w1) \<in> set (d_starts d)
          \<and> policy_lane host w1 (req_policy r0) (req_workspace r0) = Some lane)
     \<or> (\<exists>w1. run_world host w w1 \<and> policy_lane host w1 (req_policy r0) (req_workspace r0) = None)"

lemma step_fate:
  assumes "quiet_step host d wid r d' \<or> start_step host d wid r d'"
    and "map_of (d_pending d) wid = Some r"
  shows "(\<exists>r'. map_of (d_pending d') wid = Some r' \<and> same_work r r')
     \<or> policy_lane host (d_world d) (req_policy r) (req_workspace r) = None
     \<or> (\<exists>lane. (wid, lane, d_world d) \<in> set (d_starts d')
          \<and> policy_lane host (d_world d) (req_policy r) (req_workspace r) = Some lane)"
  using assms by (auto simp: dispatch_step_defs same_work_def)

lemma step_accounted:
  assumes st: "quiet_step host d wid r d' \<or> start_step host d wid r d'"
    and r: "map_of (d_pending d) wid = Some r" and rw: "run_world host w (d_world d)"
    and acc: "accounted host w k r0 d"
  shows "accounted host w k r0 d'"
proof -
  have mono: "set (d_starts d) \<subseteq> set (d_starts d')"
    using st by (auto simp: dispatch_step_defs)
  show ?thesis
  proof (cases "\<exists>r. map_of (d_pending d) k = Some r \<and> same_work r0 r")
    case False
    then show ?thesis using acc mono by (auto simp: accounted_def)
  next
    case True
    then obtain r1 where r1: "map_of (d_pending d) k = Some r1" "same_work r0 r1" by auto
    show ?thesis
    proof (cases "k = wid")
      case False
      then show ?thesis using step_frame [OF st] r1 by (auto simp: accounted_def)
    next
      case True
      then have "r1 = r" using r r1 by simp
      then show ?thesis using step_fate [OF st r] r1 rw True
        by (auto simp: accounted_def same_work_def)
    qed
  qed
qed

lemma map_of_alist_retain_Some:
  "distinct_keys p \<Longrightarrow> map_of p k = Some v \<Longrightarrow> P k v \<Longrightarrow> map_of (alist_retain P p) k = Some v"
  by (induction p) (auto simp: alist_retain_def distinct_keys_def split: if_splits)

lemma alist_retain_SomeD:
  "distinct_keys p \<Longrightarrow> map_of (alist_retain P p) k = Some v \<Longrightarrow> map_of p k = Some v \<and> P k v"
proof -
  assume "distinct_keys p" and m: "map_of (alist_retain P p) k = Some v"
  have "(k, v) \<in> set p" "P k v" using map_of_SomeD [OF m] by (auto simp: alist_retain_def)
  then show ?thesis using \<open>distinct_keys p\<close> by (simp add: distinct_keys_def)
qed

lemma step_workspaces:
  assumes "quiet_step host d wid r d' \<or> start_step host d wid r d'"
    and "map_of (d_pending d) wid = Some r" and "map_of (d_pending d') k = Some r'"
  shows "\<exists>r1. map_of (d_pending d) k = Some r1 \<and> req_workspace r' = req_workspace r1"
  using assms by (cases "k = wid") (auto simp: dispatch_step_defs)


section \<open>The queue as a component\<close>

text \<open>Any sequence of touches, requests and dispatches; the world may change between them.\<close>

inductive queue_step :: "'w WorkerHost \<Rightarrow> EnhancementQueue \<Rightarrow> EnhancementQueue \<Rightarrow> bool"
  for host :: "'w WorkerHost" where
  step_touch: "queue_step host q (touch locked ids q)"
| step_request: "queue_step host q (queue_request host w ws policy q)"
| step_dispatch: "dispatch host w q = Some (w', q') \<Longrightarrow> queue_step host q q'"

lemma queue_new_inv: "queue_inv queue_new"
  by (simp add: queue_inv_def queue_new_def pending_ok_def recencies_def)

lemma queue_step_inv: "queue_step host q q' \<Longrightarrow> queue_inv q \<Longrightarrow> queue_inv q'"
  by (induction rule: queue_step.induct) (auto intro: touch_inv queue_request_inv dispatch_inv)

interpretation enhancement_queue: component "\<lambda>q. q = queue_new" "queue_step host" queue_inv for host
  by unfold_locales (auto intro: queue_new_inv queue_step_inv)


section \<open>Properties\<close>

text \<open>Theorem. In every state that touches, requests and dispatches can lead to, in any order
  and whatever the workers do meanwhile, at most \<open>MAX_PENDING\<close> requests wait, the counter
  that is read without the lock is their number, every workspace waits once under its own id,
  and no two requests have the same recency.\<close>

theorem queue_reachable_inv:
  assumes "reachable (\<lambda>q. q = queue_new) (queue_step host) q"
  shows "length (pending q) \<le> MAX_PENDING \<and> pending_len q = length (pending q)
     \<and> distinct (map fst (pending q)) \<and> distinct (recencies (pending q))
     \<and> list_all (\<lambda>(wid, r). ws_id (req_workspace r) = wid) (pending q)"
proof -
  have "queue_inv q" using assms by (rule enhancement_queue.reachable_invar)
  then show ?thesis
    by (auto simp: queue_inv_def pending_ok_def distinct_keys_def request_ok_def list_all_iff)
qed

text \<open>A host for the witnesses: two places per lane, every workspace needs neural work, the
  world is the list of the running workers' workspaces.\<close>

definition demo_host :: "string list WorkerHost" where
  "demo_host =
     \<lparr>h_places = (\<lambda>_. 2), h_free_places = (\<lambda>w _. 2 - length w),
      h_lane = (\<lambda>_ _ _. Some NeuralLane), h_needs_hash = (\<lambda>_ _. True),
      h_worker = (\<lambda>w ws. if ws_id ws \<in> set w then Some 7 else None),
      h_start = (\<lambda>w ws _. (ws_id ws # w, True)), h_root_is_gone = (\<lambda>_ _. False)\<rparr>"

definition demo_ws :: "string \<Rightarrow> Workspace" where
  "demo_ws i = \<lparr>ws_id = i, ws_root = ''/'' @ i\<rparr>"

definition demo_queue :: EnhancementQueue where
  "demo_queue = queue_request demo_host [] (demo_ws ''b'') Neural
     (queue_request demo_host [] (demo_ws ''a'') MaintainExisting queue_new)"

lemma demo_queue_inv: "queue_inv demo_queue"
  unfolding demo_queue_def by (intro queue_request_inv queue_new_inv)

theorem queue_reachable_inv_witness:
  "length (pending demo_queue) \<le> MAX_PENDING \<and> pending_len demo_queue = length (pending demo_queue)
     \<and> distinct (map fst (pending demo_queue)) \<and> distinct (recencies (pending demo_queue))
     \<and> list_all (\<lambda>(wid, r). ws_id (req_workspace r) = wid) (pending demo_queue)"
proof (rule queue_reachable_inv)
  let ?q1 = "queue_request demo_host [] (demo_ws ''a'') MaintainExisting queue_new"
  have "reachable (\<lambda>q. q = queue_new) (queue_step demo_host) queue_new"
    by (rule reachable.reachable_start) simp
  then have "reachable (\<lambda>q. q = queue_new) (queue_step demo_host) ?q1"
    by (rule reachable.reachable_step) (rule queue_step.step_request)
  then show "reachable (\<lambda>q. q = queue_new) (queue_step demo_host) demo_queue"
    unfolding demo_queue_def by (rule reachable.reachable_step) (rule queue_step.step_request)
qed

text \<open>Claim C40. A dispatch never panics: no request disappears under the loop, and no place is
  taken from a lane that has none.\<close>

theorem dispatch_total:
  assumes "queue_inv q"
  shows "\<exists>w' q'. dispatch host w q = Some (w', q')"
  using dispatch_run_total [OF assms, of host w] by (auto simp: dispatch_def)

theorem dispatch_total_witness: "\<exists>w' q'. dispatch demo_host [] demo_queue = Some (w', q')"
  by (rule dispatch_total [OF demo_queue_inv])

text \<open>Theorem. If the live workers that the queue started fit into the places of a lane, they
  still do after a dispatch, whatever the number of waiting workspaces.\<close>

theorem dispatch_respects_places:
  fixes host :: "'w WorkerHost"
  assumes "queue_inv q" and "dispatch host w q = Some (w', q')"
    and "lane_count lane (d_started (dispatch_init host w q)) \<le> h_places host w"
  shows "lane_count lane (started q') \<le> h_places host w"
proof -
  define P where "P = (\<lambda>d :: 'w dispatch_state.
     lane_count lane (d_started d) + d_capacity d lane \<le> h_places host w)"
  have "\<exists>d'. dispatch_run host w q = Some d' \<and> P d'"
  proof (rule dispatch_run_keeps [OF assms(1)])
    show "P (dispatch_init host w q)"
      using assms(3) by (simp add: P_def dispatch_init_def Let_def)
    show "P d'" if "P d" "map_of (d_pending d) wid = Some r"
      "quiet_step host d wid r d' \<or> start_step host d wid r d'" for d wid r d'
      using that step_capacity [OF that(3)] by (simp add: P_def)
  qed
  then show ?thesis using assms(2) by (auto simp: dispatch_def P_def)
qed

theorem dispatch_respects_places_witness:
  "\<exists>w' q'. dispatch demo_host [] demo_queue = Some (w', q')
     \<and> lane_count NeuralLane (started q') \<le> h_places demo_host []"
proof -
  obtain w' q' where dq: "dispatch demo_host [] demo_queue = Some (w', q')"
    using dispatch_run_total [OF demo_queue_inv, of demo_host "[]"] by (auto simp: dispatch_def)
  have "started demo_queue = []" by (simp add: demo_queue_def queue_request_def queue_new_def
      next_recency_def Let_def split: option.splits prod.splits)
  then have "lane_count NeuralLane (d_started (dispatch_init demo_host [] demo_queue)) \<le> h_places demo_host []"
    by (simp add: dispatch_init_def Let_def alist_retain_def lane_count_def)
  with dispatch_respects_places [OF demo_queue_inv dq] dq show ?thesis by blast
qed

text \<open>Theorem. The workers that a dispatch starts: at most one per waiting workspace, the most
  recent requests first, and only in a world where the workspace has no live worker.\<close>

theorem dispatch_starts_ok:
  fixes host :: "'w WorkerHost"
  assumes inv: "queue_inv q" and run: "dispatch_run host w q = Some d"
  shows "subseq (map fst (d_starts d)) (dispatch_order (pending q)) \<and> distinct (map fst (d_starts d))
     \<and> list_all (\<lambda>(k, lane, w1). run_world host w w1 \<and>
          (\<exists>r. map_of (pending q) k = Some r \<and> h_worker host w1 (req_workspace r) = None)) (d_starts d)"
proof (intro conjI)
  have "subseq (map fst (d_starts d)) (dispatch_order (d_pending (dispatch_init host w q)))"
    using dispatch_loop_starts [of host "dispatch_init host w q"] run by (force simp: dispatch_run_def Let_def)
  also have "subseq \<dots> (dispatch_order (pending q))"
    by (simp add: dispatch_init_def Let_def dispatch_order_retain)
  finally show sub: "subseq (map fst (d_starts d)) (dispatch_order (pending q))" .
  show "distinct (map fst (d_starts d))"
    using subseq_distinct [OF sub] inv distinct_dispatch_order [of "pending q"]
    by (auto simp: queue_inv_def pending_ok_def)
  define P where "P = (\<lambda>d :: 'w dispatch_state. run_world host w (d_world d)
     \<and> (\<forall>k r. map_of (d_pending d) k = Some r \<longrightarrow>
          (\<exists>r0. map_of (pending q) k = Some r0 \<and> req_workspace r = req_workspace r0))
     \<and> list_all (\<lambda>(k, lane, w1). run_world host w w1 \<and>
          (\<exists>r. map_of (pending q) k = Some r \<and> h_worker host w1 (req_workspace r) = None)) (d_starts d))"
  have "\<exists>d'. dispatch_run host w q = Some d' \<and> P d'"
  proof (rule dispatch_run_keeps [OF inv])
    have "distinct_keys (pending q)" using inv by (simp add: queue_inv_def pending_ok_def)
    then show "P (dispatch_init host w q)"
      by (auto simp: P_def dispatch_init_def Let_def run_world_first dest: alist_retain_SomeD)
    fix d wid r d'
    assume st: "P d" "map_of (d_pending d) wid = Some r"
      "quiet_step host d wid r d' \<or> start_step host d wid r d'"
    have "\<exists>r0. map_of (pending q) k = Some r0 \<and> req_workspace r' = req_workspace r0"
      if "map_of (d_pending d') k = Some r'" for k r'
      using step_workspaces [OF st(3,2) that] st(1) unfolding P_def by metis
    moreover have "run_world host w (d_world d')" using step_run_world [OF st(3)] st(1) by (simp add: P_def)
    moreover obtain r0 where "map_of (pending q) wid = Some r0" "req_workspace r = req_workspace r0"
      using st(1,2) by (auto simp: P_def)
    ultimately show "P d'" using st(1) step_starts [OF st(3)] unfolding P_def by auto
  qed
  then show "list_all (\<lambda>(k, lane, w1). run_world host w w1 \<and>
      (\<exists>r. map_of (pending q) k = Some r \<and> h_worker host w1 (req_workspace r) = None)) (d_starts d)"
    using run by (auto simp: P_def)
qed

theorem dispatch_starts_ok_witness:
  "\<exists>d. dispatch_run demo_host [] demo_queue = Some d \<and> distinct (map fst (d_starts d))"
proof -
  obtain d where d: "dispatch_run demo_host [] demo_queue = Some d"
    using dispatch_run_total [OF demo_queue_inv, of demo_host "[]"] by blast
  from dispatch_starts_ok [OF demo_queue_inv d] d show ?thesis by blast
qed



text \<open>Theorem. A request that needs work is the newest entry of the queue afterwards: it waits
  under its workspace with a recency above all others and a policy that is the greater of the
  one asked for and the one already waiting; every other request is unchanged, except that a full
  queue drops the least recent one.\<close>

theorem queue_request_spec:
  assumes inv: "queue_inv q" and lane: "policy_lane host w policy ws = Some lane"
    and q': "q' = queue_request host w ws policy q"
  shows "(\<exists>r. map_of (pending q') (ws_id ws) = Some r \<and> req_workspace r = ws
          \<and> req_recency r = recency q + 1 \<and> req_hash_first r
          \<and> req_policy r = (case map_of (pending q) (ws_id ws) of
                None \<Rightarrow> policy | Some r0 \<Rightarrow> max policy (req_policy r0)))
     \<and> (\<forall>k. k \<noteq> ws_id ws \<longrightarrow> map_of (pending q') k = map_of (pending q) k
          \<or> (map_of (pending q') k = None \<and> length (pending q) = MAX_PENDING
             \<and> map_of (pending q) (ws_id ws) = None
             \<and> (\<forall>k2 r r2. map_of (pending q) k = Some r \<longrightarrow> map_of (pending q) k2 = Some r2
                  \<longrightarrow> req_recency r \<le> req_recency r2)))"
proof -
  let ?r = "requested ws policy lane q" and ?id = "ws_id ws"
  let ?p = "alist_put ?id ?r (pending q)"
  have dk: "distinct_keys (pending q)" and le: "length (pending q) \<le> MAX_PENDING"
    using inv by (auto simp: queue_inv_def pending_ok_def)
  have p': "pending q' = evict ?p" using q' lane by (simp add: queue_request_eq Let_def)
  have r: "req_workspace ?r = ws" "req_recency ?r = recency q + 1" "req_hash_first ?r"
    "req_policy ?r = (case map_of (pending q) ?id of None \<Rightarrow> policy | Some r0 \<Rightarrow> max policy (req_policy r0))"
    by (auto simp: requested_def Let_def max_def split: option.splits)
  show ?thesis
  proof (cases "MAX_PENDING < length ?p")
    case False
    then have "pending q' = ?p" using p' by (simp add: evict_def)
    then show ?thesis using r by (intro conjI exI [of _ ?r]) auto
  next
    case True
    then have full: "length (pending q) = MAX_PENDING" "map_of (pending q) ?id = None"
      using le length_alist_put_le [of ?id ?r "pending q"] length_alist_put_present [OF dk, of ?id ?r]
      by (auto simp: keys_map_of not_None_eq [symmetric] simp del: not_None_eq)
    obtain k0 r0 where k0: "oldest_pending ?p = Some k0" "map_of ?p k0 = Some r0"
        "list_all (\<lambda>(_, r'). req_recency r0 \<le> req_recency r') ?p"
      using oldest_pending_spec [of ?p] dk True by force
    have p'': "pending q' = alist_remove k0 ?p" using p' True k0 by (simp add: evict_def)
    have old: "req_recency r1 \<le> recency q" if "map_of (pending q) k = Some r1" for k r1
      using map_of_SomeD [OF that] inv by (auto simp: queue_inv_def pending_ok_def request_ok_def list_all_iff)
    have least: "req_recency r0 \<le> req_recency r2" if "map_of ?p k = Some r2" for k r2
      using map_of_SomeD [OF that] k0(3) by (auto simp: list_all_iff)
    have ne: "k0 \<noteq> ?id"
    proof
      assume k: "k0 = ?id"
      have "pending q \<noteq> []" using full(1) by (auto simp: MAX_PENDING_def)
      then have "fst (hd (pending q)) \<in> fst ` set (pending q)" by simp
      then obtain k1 r1 where k1: "map_of (pending q) k1 = Some r1"
        unfolding keys_map_of by blast
      moreover have "k1 \<noteq> ?id" using k1 full(2) by auto
      ultimately show False using least [of k1 r1] old [of k1 r1] k k0(2) r(2) by auto
    qed
    have "map_of (pending q') ?id = Some ?r" using p'' ne by simp
    moreover have "map_of (pending q') k = map_of (pending q) k" if "k \<noteq> ?id" "k \<noteq> k0" for k
      using p'' that by simp
    moreover have "req_recency r1 \<le> req_recency r2"
      if "map_of (pending q) k0 = Some r1" "map_of (pending q) k2 = Some r2" for k2 r1 r2
      using least [of k2 r2] that ne k0(2) full(2) by (cases "k2 = ?id") auto
    moreover have "map_of (pending q') k0 = None" using p'' by simp
    ultimately show ?thesis using r full by (intro conjI exI [of _ ?r] allI impI) metis+
  qed
qed

theorem queue_request_spec_witness:
  "\<exists>r. map_of (pending demo_queue) ''b'' = Some r \<and> req_policy r = Neural"
proof -
  let ?q = "queue_request demo_host [] (demo_ws ''a'') MaintainExisting queue_new"
  have "queue_inv ?q" by (intro queue_request_inv queue_new_inv)
  moreover have "policy_lane demo_host [] Neural (demo_ws ''b'') = Some NeuralLane"
    by (simp add: policy_lane_def demo_host_def)
  ultimately obtain r where r: "map_of (pending demo_queue) (ws_id (demo_ws ''b'')) = Some r"
      "req_policy r = (case map_of (pending ?q) (ws_id (demo_ws ''b'')) of
                None \<Rightarrow> Neural | Some r0 \<Rightarrow> max Neural (req_policy r0))"
    using queue_request_spec [OF _ _ demo_queue_def] by blast
  have "max Neural p = Neural" for p
    by (cases p) (auto simp: max_def less_eq_EnhancementPolicy_def)
  with r show ?thesis by (auto simp: demo_ws_def split: option.splits)
qed

end
