(* ===== verification/Batch_Budget.thy ===== *)
theory Batch_Budget
  imports Prelude
begin

text \<open>
  The byte budget that bounds the payload of indexing batches in flight,
  \<^verbatim>\<open>src/src/indexer/batch_budget.rs\<close>. The mutex makes every access atomic, so the concurrent
  program is a transition system: threads enter \<^verbatim>\<open>acquire\<close>, sleep on the condition variable,
  are notified and test again, reservations are dropped, and \<^verbatim>\<open>stop\<close> is called at any moment.
  \<^verbatim>\<open>usize\<close> arithmetic that would leave its range is the result \<open>None\<close>. The theorems show that the
  payload stays within the budget except for one oversized file, that no arithmetic leaves its
  range, and that no thread sleeps while it could go on.
\<close>

section \<open>The budget\<close>

definition usize_max :: nat where
  "usize_max = 2 ^ 64 - 1"

record BatchBudget =
  held :: nat
  stopped :: bool
  max_bytes :: nat

definition budget_new :: "nat \<Rightarrow> BatchBudget" where
  "budget_new limit = \<lparr>held = 0, stopped = False, max_bytes = limit\<rparr>"

text \<open>The condition of the loop in \<^verbatim>\<open>acquire\<close>; subtraction on \<open>nat\<close> saturates, as in the code.\<close>

definition must_wait :: "BatchBudget \<Rightarrow> nat \<Rightarrow> bool" where
  "must_wait b bytes \<longleftrightarrow> \<not> stopped b \<and> 0 < held b \<and> max_bytes b - held b < bytes"

datatype acquire_result = Waits | Cancelled | Reserved BatchBudget

text \<open>One pass of \<^verbatim>\<open>acquire\<close> under the mutex: it waits, returns \<^verbatim>\<open>None\<close>, or takes the bytes.\<close>

definition acquire :: "BatchBudget \<Rightarrow> nat \<Rightarrow> acquire_result option" where
  "acquire b bytes =
     (if must_wait b bytes then Some Waits
      else if stopped b then Some Cancelled
      else if usize_max < held b + bytes then None
      else Some (Reserved (b\<lparr>held := held b + bytes\<rparr>)))"

definition budget_stop :: "BatchBudget \<Rightarrow> BatchBudget" where
  "budget_stop b = b\<lparr>stopped := True\<rparr>"

definition drop_reservation :: "BatchBudget \<Rightarrow> nat \<Rightarrow> BatchBudget option" where
  "drop_reservation b bytes =
     (if held b < bytes then None else Some (b\<lparr>held := held b - bytes\<rparr>))"


section \<open>Threads that share a budget\<close>

text \<open>The live reservations, and the threads inside \<^verbatim>\<open>acquire\<close> by the bytes they ask for: asleep on
  the condition variable, or notified and about to test again.\<close>

record budget_system =
  budget :: BatchBudget
  reservations :: "nat list"
  asleep :: "nat list"
  notified :: "nat list"

definition system_new :: "nat \<Rightarrow> budget_system" where
  "system_new limit = \<lparr>budget = budget_new limit, reservations = [], asleep = [], notified = []\<rparr>"

definition notify_all :: "budget_system \<Rightarrow> budget_system" where
  "notify_all s = s\<lparr>asleep := [], notified := asleep s @ notified s\<rparr>"

definition thread_acquire :: "nat \<Rightarrow> budget_system \<Rightarrow> budget_system option" where
  "thread_acquire bytes s =
     (case acquire (budget s) bytes of
        None \<Rightarrow> None
      | Some Waits \<Rightarrow> Some (s\<lparr>asleep := bytes # asleep s\<rparr>)
      | Some Cancelled \<Rightarrow> Some s
      | Some (Reserved b) \<Rightarrow> Some (s\<lparr>budget := b, reservations := bytes # reservations s\<rparr>))"

definition thread_stop :: "budget_system \<Rightarrow> budget_system" where
  "thread_stop s = notify_all (s\<lparr>budget := budget_stop (budget s)\<rparr>)"

definition thread_drop :: "nat \<Rightarrow> budget_system \<Rightarrow> budget_system option" where
  "thread_drop bytes s =
     (case drop_reservation (budget s) bytes of
        None \<Rightarrow> None
      | Some b \<Rightarrow> Some (notify_all (s\<lparr>budget := b, reservations := remove1 bytes (reservations s)\<rparr>)))"

text \<open>The scheduler's choices. A woken thread leaves the set of notified threads and tests again; a
  wake-up without a notification is allowed, too.\<close>

datatype budget_event = Enter nat | Wake nat | Spurious nat | Stop | Release nat

definition budget_enabled :: "budget_system \<Rightarrow> budget_event \<Rightarrow> bool" where
  "budget_enabled s e \<longleftrightarrow>
     (case e of
        Enter bytes \<Rightarrow> bytes \<le> usize_max
      | Wake bytes \<Rightarrow> bytes \<in> set (notified s)
      | Spurious bytes \<Rightarrow> bytes \<in> set (asleep s)
      | Stop \<Rightarrow> True
      | Release bytes \<Rightarrow> bytes \<in> set (reservations s))"

fun budget_event_step :: "budget_event \<Rightarrow> budget_system \<Rightarrow> budget_system option" where
  "budget_event_step (Enter bytes) s = thread_acquire bytes s"
| "budget_event_step (Wake bytes) s =
     thread_acquire bytes (s\<lparr>notified := remove1 bytes (notified s)\<rparr>)"
| "budget_event_step (Spurious bytes) s =
     thread_acquire bytes (s\<lparr>asleep := remove1 bytes (asleep s)\<rparr>)"
| "budget_event_step Stop s = Some (thread_stop s)"
| "budget_event_step (Release bytes) s = thread_drop bytes s"

inductive budget_step :: "budget_system \<Rightarrow> budget_system \<Rightarrow> bool" where
  event: "budget_enabled s e \<Longrightarrow> budget_event_step e s = Some s' \<Longrightarrow> budget_step s s'"

inductive_cases budget_stepE: "budget_step s s'"


section \<open>The invariant\<close>

definition payload_ok :: "nat \<Rightarrow> nat list \<Rightarrow> bool" where
  "payload_ok limit rs \<longleftrightarrow> sum_list rs \<le> limit \<or> length (filter (\<lambda>b. 0 < b) rs) = 1"

definition system_inv :: "nat \<Rightarrow> budget_system \<Rightarrow> bool" where
  "system_inv limit s \<longleftrightarrow>
     max_bytes (budget s) = limit \<and> held (budget s) = sum_list (reservations s)
     \<and> payload_ok limit (reservations s)
     \<and> list_all (\<lambda>b. b \<le> usize_max) (reservations s @ asleep s @ notified s)
     \<and> list_all (must_wait (budget s)) (asleep s)"

lemma sum_list_one_positive:
  fixes rs :: "nat list"
  shows "length (filter (\<lambda>b. 0 < b) rs) = 1 \<Longrightarrow> sum_list rs \<in> set rs"
proof (induction rs)
  case (Cons r rs)
  show ?case
  proof (cases "0 < r")
    case True
    then have "filter (\<lambda>b. 0 < b) rs = []" using Cons.prems by simp
    then have "\<forall>b\<in>set rs. b = 0" by (simp add: filter_empty_conv)
    then show ?thesis by simp
  qed (use Cons in auto)
qed simp

lemma payload_bound: "payload_ok limit rs \<Longrightarrow> list_all (\<lambda>b. b \<le> n) rs \<Longrightarrow> sum_list rs \<le> max limit n"
  using sum_list_one_positive [of rs] by (force simp: payload_ok_def list_all_iff)

lemma sum_list_remove1: "b \<in> set rs \<Longrightarrow> sum_list rs = b + sum_list (remove1 b rs)" for b :: nat
  by (induction rs) auto

lemma no_positive: "filter (\<lambda>b. 0 < b) rs = [] \<longleftrightarrow> sum_list rs = 0" for rs :: "nat list"
  by (simp add: filter_empty_conv)

lemma payload_remove:
  assumes "payload_ok limit rs" "b \<in> set rs"
  shows "payload_ok limit (remove1 b rs)"
proof -
  have sum: "sum_list (remove1 b rs) \<le> sum_list rs" using sum_list_remove1 [OF assms(2)] by simp
  show ?thesis
  proof (cases "sum_list rs \<le> limit")
    case True
    then show ?thesis using sum by (simp add: payload_ok_def)
  next
    case False
    then have one: "length (filter (\<lambda>b. 0 < b) rs) = 1" using assms(1) by (simp add: payload_ok_def)
    have len: "length (filter (\<lambda>b. 0 < b) (remove1 b rs)) = (if 0 < b then 0 else 1)"
      using one assms(2) by (simp add: filter_remove1 length_remove1)
    show ?thesis
    proof (cases "0 < b")
      case True
      then have "filter (\<lambda>b. 0 < b) (remove1 b rs) = []" using len by simp
      then show ?thesis unfolding no_positive payload_ok_def by (simp del: sum_list_eq_0_iff)
    qed (use len in \<open>simp add: payload_ok_def\<close>)
  qed
qed

lemma payload_add:
  assumes "payload_ok limit rs" "\<not> (0 < sum_list rs \<and> limit - sum_list rs < b)"
  shows "payload_ok limit (b # rs)"
proof (cases "sum_list rs = 0")
  case True
  then have "filter (\<lambda>b. 0 < b) rs = []" unfolding no_positive .
  then show ?thesis using True by (cases "b = 0") (simp_all add: payload_ok_def del: sum_list_eq_0_iff)
next
  case False
  then show ?thesis using assms by (cases "b = 0") (auto simp: payload_ok_def)
qed

lemma thread_acquire_inv:
  assumes inv: "system_inv limit s" and bytes: "bytes \<le> usize_max" and limit: "limit \<le> usize_max"
  shows "\<exists>s'. thread_acquire bytes s = Some s' \<and> system_inv limit s'"
proof (cases "must_wait (budget s) bytes")
  case True
  then show ?thesis using inv bytes by (simp add: thread_acquire_def acquire_def system_inv_def)
next
  case waits: False
  show ?thesis
  proof (cases "stopped (budget s)")
    case True
    then show ?thesis using inv waits by (simp add: thread_acquire_def acquire_def)
  next
    case False
    have pay: "payload_ok limit (bytes # reservations s)"
      using inv waits False by (intro payload_add) (auto simp: system_inv_def must_wait_def)
    have "list_all (\<lambda>b. b \<le> usize_max) (bytes # reservations s)"
      using inv bytes by (simp add: system_inv_def)
    from payload_bound [OF pay this] limit have fits: "held (budget s) + bytes \<le> usize_max"
      using inv by (simp add: system_inv_def max_def split: if_splits)
    have "must_wait (b\<lparr>held := held b + bytes\<rparr>) n" if "must_wait b n" for b n
      using that by (auto simp: must_wait_def)
    then have "list_all (must_wait ((budget s)\<lparr>held := held (budget s) + bytes\<rparr>)) (asleep s)"
      using inv unfolding system_inv_def list_all_iff by blast
    then show ?thesis
      using inv waits False fits pay bytes by (simp add: thread_acquire_def acquire_def system_inv_def)
  qed
qed

lemma list_all_remove1: "list_all P xs \<Longrightarrow> list_all P (remove1 x xs)"
  using set_remove1_subset [of x xs] by (auto simp: list_all_iff)

lemma thread_drop_inv:
  assumes inv: "system_inv limit s" and b: "bytes \<in> set (reservations s)"
  shows "\<exists>s'. thread_drop bytes s = Some s' \<and> system_inv limit s'"
  using inv payload_remove [OF _ b, of limit] sum_list_remove1 [OF b]
  by (auto simp: thread_drop_def drop_reservation_def system_inv_def notify_all_def list_all_remove1)

lemma budget_event_ok:
  assumes inv: "system_inv limit s" and limit: "limit \<le> usize_max" and en: "budget_enabled s e"
  shows "\<exists>s'. budget_event_step e s = Some s' \<and> system_inv limit s'"
proof -
  have big: "b \<le> usize_max" if "b \<in> set (asleep s) \<or> b \<in> set (notified s)" for b
    using inv that by (auto simp: system_inv_def list_all_iff)
  have woken: "system_inv limit (s\<lparr>notified := remove1 b (notified s)\<rparr>)"
      "system_inv limit (s\<lparr>asleep := remove1 b (asleep s)\<rparr>)" for b
    using inv by (auto simp: system_inv_def list_all_remove1)
  show ?thesis
  proof (cases e)
    case Stop
    then show ?thesis using inv
      by (auto simp: thread_stop_def notify_all_def budget_stop_def system_inv_def)
  qed (use en inv limit big woken thread_acquire_inv thread_drop_inv in \<open>auto simp: budget_enabled_def\<close>)
qed

lemma budget_step_inv: "limit \<le> usize_max \<Longrightarrow> budget_step s s' \<Longrightarrow> system_inv limit s \<Longrightarrow> system_inv limit s'"
  using budget_event_ok by (fastforce elim: budget_stepE)

lemma system_new_inv: "system_inv limit (system_new limit)"
  by (simp add: system_inv_def system_new_def budget_new_def payload_ok_def)

text \<open>A budget of at most \<open>usize_max\<close> bytes is a component with this invariant.\<close>

interpretation batch_budget: component "\<lambda>s. s = system_new (min limit usize_max)" budget_step
    "system_inv (min limit usize_max)" for limit
  by unfold_locales (auto intro: system_new_inv budget_step_inv [of "min limit usize_max"])

abbreviation budget_reachable :: "nat \<Rightarrow> budget_system \<Rightarrow> bool" where
  "budget_reachable limit \<equiv> reachable (\<lambda>s. s = system_new limit) budget_step"

lemma budget_reachable_inv: "limit \<le> usize_max \<Longrightarrow> budget_reachable limit s \<Longrightarrow> system_inv limit s"
  using batch_budget.reachable_invar [of limit s] by (simp add: min_absorb1)


section \<open>Properties\<close>

text \<open>Theorem. Whatever the threads do, the count of held bytes is the sum of the live
  reservations, and that sum is within the budget unless one single reservation holds all of it.\<close>

theorem budget_bounds_payload:
  assumes "limit \<le> usize_max" and "budget_reachable limit s"
  shows "held (budget s) = sum_list (reservations s)
     \<and> (sum_list (reservations s) \<le> limit \<or> length (filter (\<lambda>b. 0 < b) (reservations s)) = 1)"
  using budget_reachable_inv [OF assms] by (simp add: system_inv_def payload_ok_def)


text \<open>Theorem. No event of a reachable system leaves the range of \<^verbatim>\<open>usize\<close>: taking bytes never
  overflows the count and dropping a reservation never takes it below zero.\<close>

theorem budget_never_overflows:
  assumes "limit \<le> usize_max" and "budget_reachable limit s" and "budget_enabled s e"
  shows "\<exists>s'. budget_event_step e s = Some s' \<and> held (budget s') \<le> usize_max"
proof -
  obtain s' where s': "budget_event_step e s = Some s'" "system_inv limit s'"
    using budget_event_ok [OF budget_reachable_inv [OF assms(1,2)] assms(1,3)] by blast
  have "sum_list (reservations s') \<le> max limit usize_max"
    using s'(2) by (intro payload_bound) (auto simp: system_inv_def)
  then show ?thesis using s' assms(1) by (auto simp: system_inv_def)
qed

text \<open>An oversized file in a budget of ten bytes, and a thread that waits for it.\<close>

definition oversized_system :: budget_system where
  "oversized_system = \<lparr>budget = \<lparr>held = 25, stopped = False, max_bytes = 10\<rparr>,
     reservations = [25], asleep = [4], notified = []\<rparr>"

lemma oversized_reachable: "budget_reachable 10 oversized_system"
proof -
  let ?s1 = "(system_new 10)\<lparr>budget := (budget_new 10)\<lparr>held := 25\<rparr>, reservations := [25]\<rparr>"
  have "budget_reachable 10 (system_new 10)" by (rule reachable_start) simp
  moreover have "budget_step (system_new 10) ?s1"
    by (rule event [of _ "Enter 25"]) (simp_all add: budget_enabled_def thread_acquire_def acquire_def
        must_wait_def system_new_def budget_new_def usize_max_def)
  ultimately have "budget_reachable 10 ?s1" by (rule reachable_step)
  moreover have "budget_step ?s1 oversized_system"
    by (rule event [of _ "Enter 4"]) (simp_all add: budget_enabled_def thread_acquire_def acquire_def
        must_wait_def system_new_def budget_new_def usize_max_def oversized_system_def)
  ultimately show ?thesis by (rule reachable_step)
qed

theorem budget_bounds_payload_witness:
  "(10::nat) \<le> usize_max \<and> held (budget oversized_system) = sum_list (reservations oversized_system)"
  using budget_bounds_payload [OF _ oversized_reachable] by (simp add: usize_max_def)


theorem budget_never_overflows_witness:
  "\<exists>s'. budget_event_step (Release 25) oversized_system = Some s' \<and> held (budget s') \<le> usize_max"
proof (rule budget_never_overflows [OF _ oversized_reachable])
  show "(10::nat) \<le> usize_max" by (simp add: usize_max_def)
  show "budget_enabled oversized_system (Release 25)"
    by (simp add: budget_enabled_def oversized_system_def)
qed

end
