(* ===== verification/Job_Ledger.thy ===== *)
theory Job_Ledger
  imports Prelude "HOL-Library.Word"
begin

text \<open>
  The job ledger of a workspace, \<^verbatim>\<open>src/src/jobs.rs\<close>: one record per kind of background job, kept
  in a JSON file that is replaced by a rename. The clock, the process id and its start time, the
  fresh nonce, the outcome of the system calls and the JSON codec of serde are arguments. The
  second part is the liveness test of processes with its cache of verified identities, and the
  reading of a start time from \<^verbatim>\<open>/proc\<close>. The theorems show that the ledger holds at most one
  record per kind with a generation that never goes back, that a job whose nonce was replaced
  cannot touch its successor's record, that a failed update leaves the file as it was, that
  a status is idle, active or stalled and which, and what a positive answer of the liveness test
  is worth.
\<close>

section \<open>Records\<close>

definition WATCHER_HEARTBEAT_TTL_SECS :: nat where "WATCHER_HEARTBEAT_TTL_SECS = 15"
definition INDEXING_HEARTBEAT_TTL_SECS :: nat where "INDEXING_HEARTBEAT_TTL_SECS = 20"
definition ENHANCEMENT_HEARTBEAT_TTL_SECS :: nat where "ENHANCEMENT_HEARTBEAT_TTL_SECS = 20"

datatype JobKind = Watcher | Indexing | Enhancement

fun job_kind_as_str :: "JobKind \<Rightarrow> string" where
  "job_kind_as_str Watcher = ''watcher''"
| "job_kind_as_str Indexing = ''indexing''"
| "job_kind_as_str Enhancement = ''enhancement''"

type_synonym pid = "32 word"

record JobRecord =
  job_kind :: JobKind
  job_pid :: "pid option"
  pid_start_time :: "string option"
  nonce :: "string option"
  generation :: nat
  started_at_unix :: "nat option"
  heartbeat_at_unix :: "nat option"
  phase :: string
  attempt :: nat
  last_error :: "string option"
  details :: "(string \<times> string) list"
  job_active :: bool

record JobLedger =
  jobs :: "JobRecord list"

definition ledger_default :: JobLedger where
  "ledger_default = \<lparr>jobs = []\<rparr>"

definition ledger_get :: "JobLedger \<Rightarrow> JobKind \<Rightarrow> JobRecord option" where
  "ledger_get ledger kind = List.find (\<lambda>job. job_kind job = kind) (jobs ledger)"

definition ledger_contains :: "JobLedger \<Rightarrow> JobKind \<Rightarrow> bool" where
  "ledger_contains ledger kind \<longleftrightarrow> ledger_get ledger kind \<noteq> None"

text \<open>Replace the first record of the same kind, or push the record.\<close>

fun upsert_jobs :: "JobRecord \<Rightarrow> JobRecord list \<Rightarrow> JobRecord list" where
  "upsert_jobs new [] = [new]"
| "upsert_jobs new (job # rest) =
     (if job_kind job = job_kind new then new # rest else job # upsert_jobs new rest)"

definition ledger_upsert :: "JobLedger \<Rightarrow> JobRecord \<Rightarrow> JobLedger" where
  "ledger_upsert ledger new = \<lparr>jobs = upsert_jobs new (jobs ledger)\<rparr>"

record JobUpdate =
  up_phase :: "string option"
  up_last_error :: "string option option"
  up_details :: "(string \<times> string) list"
  up_active :: "bool option"

record JobStatus =
  status_record :: "JobRecord option"
  process_alive :: bool
  heartbeat_stale :: bool
  stalled :: bool

definition status_active :: "JobStatus \<Rightarrow> bool" where
  "status_active st \<longleftrightarrow>
     (case status_record st of
        Some r \<Rightarrow> job_active r \<and> process_alive st \<and> \<not> heartbeat_stale st
      | None \<Rightarrow> False)"

text \<open>What the process that runs an operation supplies.\<close>

record process_env =
  env_pid :: pid
  env_start_time :: "string option"
  env_nonce :: string
  env_now :: nat

definition details_put :: "(string \<times> string) list \<Rightarrow> (string \<times> string) list \<Rightarrow> (string \<times> string) list" where
  "details_put new old = foldl (\<lambda>acc (k, v). alist_put k v acc) old new"

definition apply_heartbeat_update :: "JobRecord \<Rightarrow> JobUpdate \<Rightarrow> nat \<Rightarrow> JobRecord" where
  "apply_heartbeat_update r up now =
     r\<lparr>heartbeat_at_unix := Some now,
       phase := (case up_phase up of Some p \<Rightarrow> p | None \<Rightarrow> phase r),
       last_error := (case up_last_error up of Some e \<Rightarrow> e | None \<Rightarrow> last_error r),
       job_active := (case up_active up of Some a \<Rightarrow> a | None \<Rightarrow> job_active r),
       details := details_put (up_details up) (details r)\<rparr>"

definition finish_record :: "JobRecord \<Rightarrow> string \<Rightarrow> string option \<Rightarrow> nat \<Rightarrow> JobRecord" where
  "finish_record r ph err now =
     r\<lparr>job_active := False, job_pid := None, pid_start_time := None, nonce := None,
       heartbeat_at_unix := Some now, phase := ph, last_error := err\<rparr>"


section \<open>The updates of a ledger\<close>

text \<open>The closures passed to \<^verbatim>\<open>update_job\<close>. A generation counts starts of one job; it is a
  \<^verbatim>\<open>u64\<close> that no sequence of starts can exhaust, so it is a natural number here.\<close>

definition start_update ::
    "process_env \<Rightarrow> JobKind \<Rightarrow> string \<Rightarrow> nat \<Rightarrow> JobLedger \<Rightarrow> JobRecord \<times> JobLedger" where
  "start_update env kind ph att ledger =
     (let gen = (case ledger_get ledger kind of Some job \<Rightarrow> generation job + 1 | None \<Rightarrow> 1);
          dts = (case ledger_get ledger kind of Some job \<Rightarrow> details job | None \<Rightarrow> []);
          r = \<lparr>job_kind = kind, job_pid = Some (env_pid env), pid_start_time = env_start_time env,
               nonce = Some (env_nonce env), generation = gen, started_at_unix = Some (env_now env),
               heartbeat_at_unix = Some (env_now env), phase = ph, attempt = att, last_error = None,
               details = alist_put ''last_started_at_unix'' (decimal (env_now env)) dts,
               job_active = True\<rparr>
      in (r, ledger_upsert ledger r))"

definition heartbeat_default :: "process_env \<Rightarrow> JobKind \<Rightarrow> JobRecord" where
  "heartbeat_default env kind =
     \<lparr>job_kind = kind, job_pid = Some (env_pid env), pid_start_time = env_start_time env,
      nonce = Some (env_nonce env), generation = 1, started_at_unix = Some (env_now env),
      heartbeat_at_unix = Some (env_now env), phase = '''', attempt = 1, last_error = None,
      details = [], job_active = True\<rparr>"

definition heartbeat_update ::
    "process_env \<Rightarrow> JobKind \<Rightarrow> JobUpdate \<Rightarrow> JobLedger \<Rightarrow> JobRecord \<times> JobLedger" where
  "heartbeat_update env kind up ledger =
     (let r0 = (case ledger_get ledger kind of Some job \<Rightarrow> job | None \<Rightarrow> heartbeat_default env kind);
          r = apply_heartbeat_update r0 up (env_now env)
      in (r, ledger_upsert ledger r))"

definition current_record :: "JobLedger \<Rightarrow> JobKind \<Rightarrow> string \<Rightarrow> JobRecord option" where
  "current_record ledger kind expected =
     (case ledger_get ledger kind of
        Some r \<Rightarrow> if nonce r = Some expected then Some r else None
      | None \<Rightarrow> None)"

definition heartbeat_if_current_update ::
    "process_env \<Rightarrow> JobKind \<Rightarrow> string \<Rightarrow> JobUpdate \<Rightarrow> JobLedger \<Rightarrow> JobRecord option \<times> JobLedger" where
  "heartbeat_if_current_update env kind expected up ledger =
     (case current_record ledger kind expected of
        None \<Rightarrow> (None, ledger)
      | Some r0 \<Rightarrow>
          let r = apply_heartbeat_update r0 up (env_now env) in (Some r, ledger_upsert ledger r))"

definition finish_default :: "process_env \<Rightarrow> JobKind \<Rightarrow> JobRecord" where
  "finish_default env kind =
     \<lparr>job_kind = kind, job_pid = None, pid_start_time = None, nonce = None, generation = 1,
      started_at_unix = Some (env_now env), heartbeat_at_unix = Some (env_now env), phase = '''',
      attempt = 1, last_error = None, details = [], job_active = False\<rparr>"

definition finish_update ::
    "process_env \<Rightarrow> JobKind \<Rightarrow> string \<Rightarrow> string option \<Rightarrow> JobLedger \<Rightarrow> JobRecord \<times> JobLedger" where
  "finish_update env kind ph err ledger =
     (let r0 = (case ledger_get ledger kind of Some job \<Rightarrow> job | None \<Rightarrow> finish_default env kind);
          r = finish_record r0 ph err (env_now env)
      in (r, ledger_upsert ledger r))"

definition finish_if_current_update ::
    "process_env \<Rightarrow> JobKind \<Rightarrow> string \<Rightarrow> string \<Rightarrow> string option \<Rightarrow> JobLedger
       \<Rightarrow> JobRecord option \<times> JobLedger" where
  "finish_if_current_update env kind expected ph err ledger =
     (case current_record ledger kind expected of
        None \<Rightarrow> (None, ledger)
      | Some r0 \<Rightarrow> let r = finish_record r0 ph err (env_now env) in (Some r, ledger_upsert ledger r))"


section \<open>The file of a ledger\<close>

datatype job_error = DirsError | LockOpenError | LockError | SerializeError | WriteError | RenameError

text \<open>The ledger file and its temporary sibling; which system calls succeed, and what a failed
  write leaves in the temporary file.\<close>

record job_files =
  ledger_file :: "string option"
  tmp_file :: "string option"

record job_io =
  io_dirs :: bool
  io_open_lock :: bool
  io_lock :: bool
  io_read :: bool
  io_write :: bool
  io_rename :: bool
  io_partial :: "string option"

text \<open>\<^verbatim>\<open>serde_json\<close> for ledgers.\<close>

record ledger_codec =
  to_vec_pretty :: "JobLedger \<Rightarrow> string option"
  from_slice :: "string \<Rightarrow> JobLedger option"

definition read_job_ledger :: "ledger_codec \<Rightarrow> bool \<Rightarrow> job_files \<Rightarrow> JobLedger" where
  "read_job_ledger codec readable files =
     (case (if readable then ledger_file files else None) of
        None \<Rightarrow> ledger_default
      | Some raw \<Rightarrow> (case from_slice codec raw of Some ledger \<Rightarrow> ledger | None \<Rightarrow> ledger_default))"

definition write_job_ledger_locked ::
    "ledger_codec \<Rightarrow> job_io \<Rightarrow> JobLedger \<Rightarrow> job_files \<Rightarrow> job_files \<times> (job_error + unit)" where
  "write_job_ledger_locked codec io ledger files =
     (case to_vec_pretty codec ledger of
        None \<Rightarrow> (files, Inl SerializeError)
      | Some data \<Rightarrow>
          if \<not> io_write io then (files\<lparr>tmp_file := io_partial io\<rparr>, Inl WriteError)
          else if \<not> io_rename io then (files\<lparr>tmp_file := Some data\<rparr>, Inl RenameError)
          else (files\<lparr>tmp_file := None, ledger_file := Some data\<rparr>, Inr ()))"

definition lock_job_ledger :: "job_io \<Rightarrow> job_error + unit" where
  "lock_job_ledger io =
     (if \<not> io_dirs io then Inl DirsError else if \<not> io_open_lock io then Inl LockOpenError
      else if \<not> io_lock io then Inl LockError else Inr ())"

definition update_job ::
    "ledger_codec \<Rightarrow> job_io \<Rightarrow> (JobLedger \<Rightarrow> 'r \<times> JobLedger) \<Rightarrow> job_files \<Rightarrow> job_files \<times> (job_error + 'r)" where
  "update_job codec io updater files =
     (case lock_job_ledger io of
        Inl e \<Rightarrow> (files, Inl e)
      | Inr _ \<Rightarrow>
          let (r, ledger) = updater (read_job_ledger codec (io_read io) files);
              (files', w) = write_job_ledger_locked codec io ledger files
          in (files', case w of Inl e \<Rightarrow> Inl e | Inr _ \<Rightarrow> Inr r))"

definition start_job :: "ledger_codec \<Rightarrow> job_io \<Rightarrow> process_env \<Rightarrow> JobKind \<Rightarrow> string \<Rightarrow> nat
    \<Rightarrow> job_files \<Rightarrow> job_files \<times> (job_error + JobRecord)" where
  "start_job codec io env kind ph att = update_job codec io (start_update env kind ph att)"

definition heartbeat_job :: "ledger_codec \<Rightarrow> job_io \<Rightarrow> process_env \<Rightarrow> JobKind \<Rightarrow> JobUpdate
    \<Rightarrow> job_files \<Rightarrow> job_files \<times> (job_error + JobRecord)" where
  "heartbeat_job codec io env kind up = update_job codec io (heartbeat_update env kind up)"

definition heartbeat_job_if_current :: "ledger_codec \<Rightarrow> job_io \<Rightarrow> process_env \<Rightarrow> JobKind \<Rightarrow> string \<Rightarrow> JobUpdate
    \<Rightarrow> job_files \<Rightarrow> job_files \<times> (job_error + JobRecord option)" where
  "heartbeat_job_if_current codec io env kind expected up =
     update_job codec io (heartbeat_if_current_update env kind expected up)"

definition finish_job :: "ledger_codec \<Rightarrow> job_io \<Rightarrow> process_env \<Rightarrow> JobKind \<Rightarrow> string \<Rightarrow> string option
    \<Rightarrow> job_files \<Rightarrow> job_files \<times> (job_error + JobRecord)" where
  "finish_job codec io env kind ph err = update_job codec io (finish_update env kind ph err)"

definition finish_job_if_current :: "ledger_codec \<Rightarrow> job_io \<Rightarrow> process_env \<Rightarrow> JobKind \<Rightarrow> string \<Rightarrow> string
    \<Rightarrow> string option \<Rightarrow> job_files \<Rightarrow> job_files \<times> (job_error + JobRecord option)" where
  "finish_job_if_current codec io env kind expected ph err =
     update_job codec io (finish_if_current_update env kind expected ph err)"


section \<open>Status and liveness of processes\<close>

text \<open>The operating system at one moment: \<^verbatim>\<open>kill(pid, 0)\<close>, which takes a signed number, and the
  start time of a process.\<close>

record process_os =
  os_kill0 :: "int \<Rightarrow> bool"
  os_start_time :: "pid \<Rightarrow> string option"

definition VERIFIED_PROCESS_TTL :: nat where "VERIFIED_PROCESS_TTL = 30"

type_synonym VerifiedProcesses = "(pid \<times> string \<times> nat) list"

definition process_identity_verified :: "nat \<Rightarrow> pid \<Rightarrow> string \<Rightarrow> VerifiedProcesses \<Rightarrow> bool" where
  "process_identity_verified now p expected verified \<longleftrightarrow>
     (case map_of verified p of
        Some (token, verified_at) \<Rightarrow> token = expected \<and> now - verified_at < VERIFIED_PROCESS_TTL
      | None \<Rightarrow> False)"

definition remember_verified_process :: "nat \<Rightarrow> pid \<Rightarrow> string \<Rightarrow> VerifiedProcesses \<Rightarrow> VerifiedProcesses" where
  "remember_verified_process now p start_time verified =
     (let verified1 = (if 1024 \<le> length verified
                       then alist_retain (\<lambda>_ (_, verified_at). now - verified_at < VERIFIED_PROCESS_TTL) verified
                       else verified)
      in alist_put p (start_time, now) verified1)"

definition forget_verified_process :: "pid \<Rightarrow> VerifiedProcesses \<Rightarrow> VerifiedProcesses" where
  "forget_verified_process p verified = alist_remove p verified"

definition process_is_alive ::
    "process_os \<Rightarrow> nat \<Rightarrow> pid \<Rightarrow> string option \<Rightarrow> VerifiedProcesses \<Rightarrow> bool \<times> VerifiedProcesses" where
  "process_is_alive os now p expected_start_time verified =
     (let alive = os_kill0 os (sint p)
      in if \<not> alive then (False, forget_verified_process p verified)
         else case expected_start_time of
                None \<Rightarrow> (alive, verified)
              | Some expected \<Rightarrow>
                  if process_identity_verified now p expected verified then (True, verified)
                  else case os_start_time os p of
                         None \<Rightarrow> (alive, verified)
                       | Some actual \<Rightarrow>
                           if actual = expected
                           then (True, remember_verified_process now p expected verified)
                           else (False, verified))"

text \<open>\<open>rest.split_whitespace()\<close> and the field with index 19 after the last \<^verbatim>\<open>") "\<close> of the stat line.
  The arguments are the contents of \<^verbatim>\<open>/proc/<pid>/task/<pid>/stat\<close> and \<^verbatim>\<open>/proc/<pid>/stat\<close>, where
  they can be read.\<close>

definition process_start_time_token :: "string option \<Rightarrow> string option \<Rightarrow> string option" where
  "process_start_time_token task_stat stat =
     (case (case task_stat of Some s \<Rightarrow> Some s | None \<Rightarrow> stat) of
        None \<Rightarrow> None
      | Some line \<Rightarrow>
          (case rsplit_once line '') '' of
             None \<Rightarrow> None
           | Some (_, rest) \<Rightarrow>
               let fields = split_whitespace rest
               in if 19 < length fields
                  then (if fields ! 19 = [] then None else Some (fields ! 19)) else None))"

text \<open>\<open>now\<close> is the monotonic clock of the cache, \<open>observed_at\<close> the Unix time of the observation.\<close>

definition job_status_at ::
    "process_os \<Rightarrow> nat \<Rightarrow> VerifiedProcesses \<Rightarrow> JobLedger \<Rightarrow> JobKind \<Rightarrow> nat \<Rightarrow> nat \<Rightarrow> JobStatus \<times> VerifiedProcesses" where
  "job_status_at os now verified ledger kind ttl_secs observed_at =
     (case ledger_get ledger kind of
        None \<Rightarrow> (\<lparr>status_record = None, process_alive = False, heartbeat_stale = False, stalled = False\<rparr>, verified)
      | Some r \<Rightarrow>
          let (alive, verified') = (case job_pid r of
                         None \<Rightarrow> (False, verified)
                       | Some p \<Rightarrow> process_is_alive os now p (pid_start_time r) verified);
              stale = (case heartbeat_at_unix r of None \<Rightarrow> False | Some ts \<Rightarrow> ttl_secs < observed_at - ts)
          in (\<lparr>status_record = Some r, process_alive = alive, heartbeat_stale = stale,
              stalled = (job_active r \<and> (\<not> alive \<or> stale))\<rparr>, verified'))"


section \<open>Lemmas on ledgers\<close>

lemma get_upsert:
  "ledger_get (ledger_upsert ledger r) kind = (if kind = job_kind r then Some r else ledger_get ledger kind)"
proof -
  have "List.find (\<lambda>job. job_kind job = kind) (upsert_jobs r js) =
      (if kind = job_kind r then Some r else List.find (\<lambda>job. job_kind job = kind) js)" for js
    by (induction js) auto
  then show ?thesis by (simp add: ledger_get_def ledger_upsert_def)
qed

lemma get_kind: "ledger_get ledger kind = Some r \<Longrightarrow> job_kind r = kind"
  by (auto simp: ledger_get_def find_Some_iff)

definition one_per_kind :: "JobLedger \<Rightarrow> bool" where
  "one_per_kind ledger \<longleftrightarrow> distinct (map job_kind (jobs ledger))"

lemma one_per_kind_upsert: "one_per_kind ledger \<Longrightarrow> one_per_kind (ledger_upsert ledger r)"
proof -
  have keys: "job_kind ` set (upsert_jobs r js) = insert (job_kind r) (job_kind ` set js)" for js
    by (induction js) auto
  have "distinct (map job_kind js) \<Longrightarrow> distinct (map job_kind (upsert_jobs r js))" for js
    by (induction js) (auto simp: keys)
  then show "one_per_kind ledger \<Longrightarrow> ?thesis" by (simp add: one_per_kind_def ledger_upsert_def)
qed

lemma heartbeat_keeps [simp]:
  "job_kind (apply_heartbeat_update r up now) = job_kind r"
  "generation (apply_heartbeat_update r up now) = generation r"
  "nonce (apply_heartbeat_update r up now) = nonce r"
  "job_kind (finish_record r ph err now) = job_kind r"
  "generation (finish_record r ph err now) = generation r"
  by (simp_all add: apply_heartbeat_update_def finish_record_def)

lemmas update_defs = start_update_def heartbeat_update_def heartbeat_if_current_update_def
  finish_update_def finish_if_current_update_def

text \<open>The updates are of one kind: each leaves the ledger alone or upserts a record for its own
  kind whose generation is not below the old one.\<close>

definition fair_update :: "JobKind \<Rightarrow> (JobLedger \<Rightarrow> 'r \<times> JobLedger) \<Rightarrow> bool" where
  "fair_update kind updater \<longleftrightarrow>
     (\<forall>ledger. snd (updater ledger) = ledger
        \<or> (\<exists>r. snd (updater ledger) = ledger_upsert ledger r \<and> job_kind r = kind
             \<and> (\<forall>r0. ledger_get ledger kind = Some r0 \<longrightarrow> generation r0 \<le> generation r)))"

lemma fair_updates:
  "fair_update kind (start_update env kind ph att)"
  "fair_update kind (heartbeat_update env kind up)"
  "fair_update kind (heartbeat_if_current_update env kind expected up)"
  "fair_update kind (finish_update env kind ph err)"
  "fair_update kind (finish_if_current_update env kind expected ph err)"
  unfolding fair_update_def update_defs current_record_def
  by (auto simp: Let_def get_kind heartbeat_default_def finish_default_def split: option.splits)

text \<open>The codec of serde reads back what it wrote.\<close>

definition codec_ok :: "ledger_codec \<Rightarrow> bool" where
  "codec_ok codec \<longleftrightarrow> (\<forall>ledger data. to_vec_pretty codec ledger = Some data \<longrightarrow> from_slice codec data = Some ledger)"

lemma update_job_cases:
  assumes "update_job codec io updater files = (files', res)"
  shows "(\<exists>e. res = Inl e \<and> ledger_file files' = ledger_file files)
     \<or> (\<exists>r ledger' data. updater (read_job_ledger codec (io_read io) files) = (r, ledger')
          \<and> res = Inr r \<and> to_vec_pretty codec ledger' = Some data \<and> ledger_file files' = Some data)"
  using assms by (auto simp: update_job_def write_job_ledger_locked_def Let_def
      split: sum.splits prod.splits option.splits if_splits)

lemma read_after_write:
  "codec_ok codec \<Longrightarrow> to_vec_pretty codec ledger = Some data \<Longrightarrow> ledger_file files = Some data
   \<Longrightarrow> read_job_ledger codec True files = ledger"
  by (simp add: read_job_ledger_def codec_ok_def)

lemma read_same:
  "ledger_file files' = ledger_file files \<Longrightarrow> read_job_ledger codec b files' = read_job_ledger codec b files"
  by (simp add: read_job_ledger_def)

text \<open>What an update with readable ledger does to the ledger that the next reader sees.\<close>

lemma update_job_read:
  assumes "codec_ok codec" and "update_job codec io updater files = (files', res)"
  shows "(\<exists>e. res = Inl e \<and> read_job_ledger codec True files' = read_job_ledger codec True files)
     \<or> (\<exists>r. res = Inr r
          \<and> updater (read_job_ledger codec (io_read io) files) = (r, read_job_ledger codec True files'))"
  using update_job_cases [OF assms(2)] read_same read_after_write [OF assms(1)] by blast


section \<open>The ledger as a component\<close>

inductive ledger_step :: "ledger_codec \<Rightarrow> job_files \<Rightarrow> job_files \<Rightarrow> bool" for codec :: ledger_codec where
  step_start: "start_job codec io env kind ph att files = (files', res) \<Longrightarrow> ledger_step codec files files'"
| step_heartbeat: "heartbeat_job codec io env kind up files = (files', res) \<Longrightarrow> ledger_step codec files files'"
| step_heartbeat_if_current: "heartbeat_job_if_current codec io env kind expected up files = (files', res')
    \<Longrightarrow> ledger_step codec files files'"
| step_finish: "finish_job codec io env kind ph err files = (files', res) \<Longrightarrow> ledger_step codec files files'"
| step_finish_if_current: "finish_job_if_current codec io env kind expected ph err files = (files', res')
    \<Longrightarrow> ledger_step codec files files'"

lemmas job_ops_defs = start_job_def heartbeat_job_def heartbeat_job_if_current_def finish_job_def
  finish_job_if_current_def

definition ledger_inv :: "ledger_codec \<Rightarrow> job_files \<Rightarrow> bool" where
  "ledger_inv codec files \<longleftrightarrow> one_per_kind (read_job_ledger codec True files)"

lemma ledger_inv_readable: "ledger_inv codec files \<Longrightarrow> one_per_kind (read_job_ledger codec b files)"
  by (cases b) (auto simp: ledger_inv_def read_job_ledger_def one_per_kind_def ledger_default_def)

lemma update_job_inv:
  assumes "codec_ok codec" and "fair_update kind updater" and "ledger_inv codec files"
    and "update_job codec io updater files = (files', res)"
  shows "ledger_inv codec files'"
  using update_job_read [OF assms(1,4)]
proof
  assume "\<exists>r. res = Inr r
    \<and> updater (read_job_ledger codec (io_read io) files) = (r, read_job_ledger codec True files')"
  then have eq: "read_job_ledger codec True files' = snd (updater (read_job_ledger codec (io_read io) files))"
    by auto
  have "one_per_kind (snd (updater ledger))" if "one_per_kind ledger" for ledger
    using assms(2) that unfolding fair_update_def by (metis one_per_kind_upsert)
  then show ?thesis using eq ledger_inv_readable [OF assms(3)] by (simp add: ledger_inv_def)
qed (use assms(3) in \<open>auto simp: ledger_inv_def\<close>)

lemma ledger_step_inv:
  "codec_ok codec \<Longrightarrow> ledger_step codec files files' \<Longrightarrow> ledger_inv codec files \<Longrightarrow> ledger_inv codec files'"
  by (erule ledger_step.cases) (auto simp: job_ops_defs elim: update_job_inv [rotated 3] intro: fair_updates)


definition no_ledger :: "job_files \<Rightarrow> bool" where
  "no_ledger files \<longleftrightarrow> ledger_file files = None"

lemma no_ledger_inv: "no_ledger files \<Longrightarrow> ledger_inv codec files"
  by (simp add: no_ledger_def ledger_inv_def read_job_ledger_def one_per_kind_def ledger_default_def)

interpretation job_ledger: component no_ledger "\<lambda>files files'. codec_ok codec \<and> ledger_step codec files files'"
    "ledger_inv codec" for codec
  by unfold_locales (auto intro: ledger_step_inv no_ledger_inv)


section \<open>Properties\<close>

text \<open>A codec for the witnesses: it knows the empty ledger and one other.\<close>

definition demo_codec :: "JobLedger \<Rightarrow> ledger_codec" where
  "demo_codec l = \<lparr>
     to_vec_pretty = (\<lambda>x. if x = ledger_default then Some ''[]'' else if x = l then Some ''[job]'' else None),
     from_slice = (\<lambda>d. if d = ''[]'' then Some ledger_default else if d = ''[job]'' then Some l else None)\<rparr>"

lemma demo_codec_ok: "codec_ok (demo_codec l)"
  by (auto simp: codec_ok_def demo_codec_def)

definition demo_env :: process_env where
  "demo_env = \<lparr>env_pid = 41, env_start_time = Some ''99'', env_nonce = ''n1'', env_now = 1000\<rparr>"

definition good_io :: job_io where
  "good_io = \<lparr>io_dirs = True, io_open_lock = True, io_lock = True, io_read = True, io_write = True,
     io_rename = True, io_partial = None\<rparr>"

definition empty_files :: job_files where
  "empty_files = \<lparr>ledger_file = None, tmp_file = None\<rparr>"

definition demo_ledger :: JobLedger where
  "demo_ledger = snd (start_update demo_env Indexing ''scan'' 1 ledger_default)"

definition demo_files :: job_files where
  "demo_files = fst (start_job (demo_codec demo_ledger) good_io demo_env Indexing ''scan'' 1 empty_files)"

lemma demo_start:
  "start_job (demo_codec demo_ledger) good_io demo_env Indexing ''scan'' 1 empty_files =
     (\<lparr>ledger_file = Some ''[job]'', tmp_file = None\<rparr>, Inr (fst (start_update demo_env Indexing ''scan'' 1 ledger_default)))"
  by (simp add: start_job_def update_job_def lock_job_ledger_def good_io_def read_job_ledger_def empty_files_def
      write_job_ledger_locked_def demo_codec_def demo_ledger_def start_update_def Let_def ledger_default_def
      ledger_upsert_def)

lemma demo_files_eq: "demo_files = \<lparr>ledger_file = Some ''[job]'', tmp_file = None\<rparr>"
  unfolding demo_files_def demo_start by simp

text \<open>Theorem. Starting from no ledger, any sequence of starts, heartbeats and finishes by any
  processes, with any failures of the file system, leaves a ledger with at most one record
  per kind of job.\<close>

theorem ledger_one_record_per_kind:
  assumes "reachable no_ledger (\<lambda>files files'. codec_ok codec \<and> ledger_step codec files files') files"
  shows "distinct (map job_kind (jobs (read_job_ledger codec True files)))"
  using job_ledger.reachable_invar [OF assms] by (simp add: ledger_inv_def one_per_kind_def)

theorem ledger_one_record_per_kind_witness:
  "distinct (map job_kind (jobs (read_job_ledger (demo_codec demo_ledger) True demo_files)))"
proof (rule ledger_one_record_per_kind)
  let ?step = "\<lambda>files files'. codec_ok (demo_codec demo_ledger) \<and> ledger_step (demo_codec demo_ledger) files files'"
  have "reachable no_ledger ?step empty_files"
    by (rule reachable_start) (simp add: no_ledger_def empty_files_def)
  moreover have "?step empty_files demo_files"
    using demo_codec_ok step_start [OF demo_start] by (simp add: demo_files_eq)
  ultimately show "reachable no_ledger ?step demo_files" by (rule reachable_step)
qed

text \<open>Claim C23. An update of the ledger is all or nothing: if it reports an error, the ledger file is
  what it was, whatever the temporary file holds; otherwise the next reader sees exactly the
  ledger that the update computed from the old one.\<close>

theorem ledger_update_atomic:
  assumes "codec_ok codec" and "update_job codec io updater files = (files', res)"
  shows "(case res of
       Inl e \<Rightarrow> ledger_file files' = ledger_file files
     | Inr r \<Rightarrow> updater (read_job_ledger codec (io_read io) files) = (r, read_job_ledger codec True files')
                \<and> tmp_file files' = None)"
  using assms read_after_write [OF assms(1)]
  by (auto simp: update_job_def write_job_ledger_locked_def Let_def
      split: sum.splits prod.splits option.splits if_splits)

theorem ledger_update_atomic_witness:
  "ledger_file (fst (update_job (demo_codec demo_ledger) (good_io\<lparr>io_rename := False\<rparr>)
      (start_update demo_env Indexing ''scan'' 1) empty_files)) = None"
proof -
  let ?io = "good_io\<lparr>io_rename := False\<rparr>"
  obtain files' res where u: "update_job (demo_codec demo_ledger) ?io (start_update demo_env Indexing ''scan'' 1) empty_files
      = (files', res)" by fastforce
  then have "\<exists>e. res = Inl e"
    by (auto simp: update_job_def lock_job_ledger_def good_io_def write_job_ledger_locked_def Let_def
        split: prod.splits option.splits)
  then show ?thesis using ledger_update_atomic [OF demo_codec_ok u] u by (auto simp: empty_files_def)
qed

text \<open>Theorem. A successful start on a readable ledger installs a fresh record: the next generation
  of its kind, the caller's nonce, active, heartbeat now; the records of other kinds stay.\<close>

theorem start_job_installs:
  assumes "codec_ok codec" and "io_read io"
    and "start_job codec io env kind ph att files = (files', Inr r)"
  shows "ledger_get (read_job_ledger codec True files') kind = Some r
     \<and> generation r = (case ledger_get (read_job_ledger codec True files) kind of
                         Some r0 \<Rightarrow> generation r0 + 1 | None \<Rightarrow> 1)
     \<and> nonce r = Some (env_nonce env) \<and> job_active r \<and> heartbeat_at_unix r = Some (env_now env)
     \<and> (\<forall>k. k \<noteq> kind \<longrightarrow> ledger_get (read_job_ledger codec True files') k
                          = ledger_get (read_job_ledger codec True files) k)"
proof -
  have "start_update env kind ph att (read_job_ledger codec True files) = (r, read_job_ledger codec True files')"
    using update_job_read [OF assms(1) assms(3) [unfolded start_job_def]] assms(2) by auto
  then have "read_job_ledger codec True files' = ledger_upsert (read_job_ledger codec True files) r"
      "job_kind r = kind" "nonce r = Some (env_nonce env)" "job_active r" "heartbeat_at_unix r = Some (env_now env)"
      "generation r = (case ledger_get (read_job_ledger codec True files) kind of
                         Some r0 \<Rightarrow> generation r0 + 1 | None \<Rightarrow> 1)"
    by (auto simp: start_update_def Let_def)
  then show ?thesis by (simp add: get_upsert)
qed

theorem start_job_installs_witness:
  "\<exists>r. ledger_get (read_job_ledger (demo_codec demo_ledger) True demo_files) Indexing = Some r \<and> generation r = 1"
  using start_job_installs [OF demo_codec_ok _ demo_start]
  by (auto simp: good_io_def demo_files_eq read_job_ledger_def empty_files_def ledger_default_def ledger_get_def)

text \<open>The guarded operations of a process that believes its job still has the nonce \<open>expected\<close>.\<close>

datatype guarded = GHeartbeat job_io process_env JobUpdate | GFinish job_io process_env string "string option"

fun guarded_op :: "ledger_codec \<Rightarrow> JobKind \<Rightarrow> string \<Rightarrow> guarded \<Rightarrow> job_files \<Rightarrow> job_files" where
  "guarded_op codec kind expected (GHeartbeat io env up) files =
     fst (heartbeat_job_if_current codec io env kind expected up files)"
| "guarded_op codec kind expected (GFinish io env ph err) files =
     fst (finish_job_if_current codec io env kind expected ph err files)"

fun guarded_reads :: "guarded \<Rightarrow> bool" where
  "guarded_reads (GHeartbeat io env up) = io_read io"
| "guarded_reads (GFinish io env ph err) = io_read io"

lemma guarded_op_superseded:
  assumes ok: "codec_ok codec" and rd: "guarded_reads op"
    and r: "current_record (read_job_ledger codec True files) kind expected = None"
  shows "read_job_ledger codec True (guarded_op codec kind expected op files) = read_job_ledger codec True files"
proof (cases op)
  case (GHeartbeat io env up)
  then show ?thesis
    using update_job_read [OF ok, of io "heartbeat_if_current_update env kind expected up" files] rd r
    by (cases "heartbeat_job_if_current codec io env kind expected up files")
       (auto simp: heartbeat_job_if_current_def heartbeat_if_current_update_def)
next
  case (GFinish io env ph err)
  then show ?thesis
    using update_job_read [OF ok, of io "finish_if_current_update env kind expected ph err" files] rd r
    by (cases "finish_job_if_current codec io env kind expected ph err files")
       (auto simp: finish_job_if_current_def finish_if_current_update_def)
qed



text \<open>Theorem. The status of a job is exactly one of idle, active and stalled, and for a record with
  a process and a heartbeat it is decided by the record's flag, the liveness of the process and
  the age of the heartbeat; a finished job is idle.\<close>

theorem job_status_cases:
  assumes "ledger_get ledger kind = Some r" and "job_pid r = Some p" and "heartbeat_at_unix r = Some ts"
    and "st = fst (job_status_at os now verified ledger kind ttl observed)"
  shows "(status_active st \<longleftrightarrow> job_active r \<and> fst (process_is_alive os now p (pid_start_time r) verified)
            \<and> observed \<le> ts + ttl)
     \<and> (stalled st \<longleftrightarrow> job_active r \<and> \<not> status_active st)
     \<and> (\<not> job_active r \<longleftrightarrow> \<not> status_active st \<and> \<not> stalled st)
     \<and> (let st' = fst (job_status_at os now verified
             (snd (finish_update env kind ph err ledger)) kind ttl observed)
        in \<not> status_active st' \<and> \<not> stalled st' \<and> status_record st' \<noteq> None)"
  using assms get_kind [OF assms(1)]
  by (auto simp: job_status_at_def status_active_def Let_def finish_update_def get_upsert finish_record_def
      split: prod.splits)

theorem job_status_cases_witness:
  "status_active (fst (job_status_at \<lparr>os_kill0 = (\<lambda>_. True), os_start_time = (\<lambda>_. Some ''99'')\<rparr> 5 []
      demo_ledger Indexing INDEXING_HEARTBEAT_TTL_SECS 1020))"
proof -
  let ?r = "fst (start_update demo_env Indexing ''scan'' 1 ledger_default)"
  have "ledger_get demo_ledger Indexing = Some ?r" "job_pid ?r = Some 41" "heartbeat_at_unix ?r = Some 1000"
    by (simp_all add: demo_ledger_def start_update_def Let_def get_upsert demo_env_def)
  from job_status_cases [OF this refl] show ?thesis
    by (simp add: INDEXING_HEARTBEAT_TTL_SECS_def start_update_def Let_def demo_env_def process_is_alive_def
        process_identity_verified_def)
qed


text \<open>The operating system over time, and a cache whose entries were all true when they were made.\<close>

definition cache_true :: "(nat \<Rightarrow> process_os) \<Rightarrow> nat \<Rightarrow> VerifiedProcesses \<Rightarrow> bool" where
  "cache_true os_at now verified \<longleftrightarrow>
     list_all (\<lambda>(p, token, t). t \<le> now \<and> os_start_time (os_at t) p = Some token) verified"

lemma cache_true_later: "cache_true os_at now verified \<Longrightarrow> now \<le> later \<Longrightarrow> cache_true os_at later verified"
  by (fastforce simp: cache_true_def list_all_iff)

lemma cache_true_remember:
  assumes "cache_true os_at now verified" and "os_start_time (os_at now) p = Some token"
  shows "cache_true os_at now (remember_verified_process now p token verified)"
  using assms unfolding remember_verified_process_def cache_true_def
  by (auto simp: Let_def alist_retain_def alist_put_def alist_remove_def list_all_iff)

lemma process_is_alive_cache:
  assumes "cache_true os_at now verified"
    and "process_is_alive (os_at now) now p expected verified = (answer, verified')"
  shows "cache_true os_at now verified'"
  using assms cache_true_remember [of os_at now verified p]
  by (auto simp: process_is_alive_def forget_verified_process_def cache_true_def list_all_alist_remove Let_def
      split: if_splits option.splits)

text \<open>A sequence of liveness tests at increasing times.\<close>

fun alive_run :: "(nat \<Rightarrow> process_os) \<Rightarrow> (nat \<times> pid \<times> string option) list \<Rightarrow> VerifiedProcesses \<Rightarrow> VerifiedProcesses" where
  "alive_run os_at [] verified = verified"
| "alive_run os_at ((t, p, expected) # rest) verified =
     alive_run os_at rest (snd (process_is_alive (os_at t) t p expected verified))"

lemma alive_run_cache:
  "cache_true os_at now verified \<Longrightarrow> sorted (now # map fst tests) \<Longrightarrow>
   cache_true os_at (last (now # map fst tests)) (alive_run os_at tests verified)"
proof (induction tests arbitrary: now verified)
  case (Cons test tests)
  obtain t p expected where test: "test = (t, p, expected)" by (cases test)
  have "cache_true os_at t (snd (process_is_alive (os_at t) t p expected verified))"
    using cache_true_later [OF Cons.prems(1), of t] Cons.prems(2) test
      process_is_alive_cache [OF _ prod.collapse [symmetric]] by simp
  then show ?case using Cons.IH [of t] Cons.prems(2) test by simp
qed simp

text \<open>Theorem. After any sequence of liveness tests, a positive answer for an expected start time means
  that a process with that number exists now and that it either has that start time now, or
  had it less than thirty seconds ago, or hides its start time; a negative answer means
  that no such process exists or that it has another start time.\<close>

theorem process_liveness_sound:
  assumes "sorted (map fst tests @ [now])"
    and "answer = fst (process_is_alive (os_at now) now p (Some expected) (alive_run os_at tests []))"
  shows "(answer \<longrightarrow> os_kill0 (os_at now) (sint p) \<and>
            (os_start_time (os_at now) p = Some expected \<or> os_start_time (os_at now) p = None
             \<or> (\<exists>t\<le>now. now - t < VERIFIED_PROCESS_TTL \<and> os_start_time (os_at t) p = Some expected)))
     \<and> (\<not> answer \<longrightarrow> \<not> os_kill0 (os_at now) (sint p)
            \<or> (\<exists>actual. os_start_time (os_at now) p = Some actual \<and> actual \<noteq> expected))"
proof -
  have "cache_true os_at (last (0 # map fst tests)) (alive_run os_at tests [])"
    using assms(1) by (intro alive_run_cache) (auto simp: cache_true_def sorted_append)
  moreover have "last (0 # map fst tests) \<le> now"
    using assms(1) last_in_set [of tests] by (auto simp: sorted_append last_map)
  ultimately have c: "cache_true os_at now (alive_run os_at tests [])" by (rule cache_true_later)
  have "\<exists>t\<le>now. now - t < VERIFIED_PROCESS_TTL \<and> os_start_time (os_at t) p = Some expected"
    if hit: "process_identity_verified now p expected (alive_run os_at tests [])"
  proof -
    obtain t where t: "map_of (alive_run os_at tests []) p = Some (expected, t)" "now - t < VERIFIED_PROCESS_TTL"
      using hit by (auto simp: process_identity_verified_def split: option.splits)
    have "(p, expected, t) \<in> set (alive_run os_at tests [])" using t(1) by (rule map_of_SomeD)
    then show ?thesis using c t(2) by (auto simp: cache_true_def list_all_iff)
  qed
  then show ?thesis
    using assms(2) by (auto simp: process_is_alive_def Let_def split: option.splits if_splits)
qed

definition demo_os :: process_os where
  "demo_os = \<lparr>os_kill0 = (\<lambda>i. i = 41), os_start_time = (\<lambda>_. Some ''99'')\<rparr>"

theorem process_liveness_sound_witness:
  "fst (process_is_alive demo_os 20 41 (Some ''99'')
          (alive_run (\<lambda>_. demo_os) [(10, 41, Some ''99'')] []))"
proof -
  have "sorted (map fst [(10 :: nat, 41 :: pid, Some ''99'')] @ [20])" by simp
  from process_liveness_sound [OF this, of _ "\<lambda>_. demo_os" 41 "''99''"] show ?thesis
    by (auto simp: demo_os_def)
qed

text \<open>Theorem. The start time of a process is found in its stat line whatever the program is called: for
  a line made of the process number, the program name in parentheses, any characters
  included, and at least twenty fields, the token is the twentieth of these fields.\<close>

theorem start_time_token_found:
  assumes "list_all plain_word ws" and "19 < length ws"
  shows "process_start_time_token (Some (pre @ ''('' @ comm @ '') '' @ spaced ws)) other = Some (ws ! 19)"
proof -
  have "\<not> sublist '') '' ('' '' @ spaced ws)"
    using spaced_no_paren [OF assms(1)] set_mono_sublist [of "'') ''" "'' '' @ spaced ws"] by auto
  then have "rsplit_once ((pre @ ''('' @ comm) @ '') '' @ spaced ws) '') '' = Some (pre @ ''('' @ comm, spaced ws)"
    by (intro rsplit_once_last) auto
  moreover have "ws ! 19 \<noteq> []" using assms by (auto simp: list_all_length plain_word_def)
  ultimately show ?thesis
    using assms by (simp add: process_start_time_token_def Let_def split_whitespace_spaced)
qed

theorem start_time_token_found_witness:
  "process_start_time_token (Some (''41 '' @ ''('' @ ''a) b (c'' @ '') '' @ spaced (replicate 19 ''0'' @ [''777'']))) None
     = Some ''777''"
proof -
  have "plain_word ''0''" "plain_word ''777''" by code_simp+
  then have "list_all plain_word (replicate 19 ''0'' @ [''777''])" by (simp add: list_all_iff)
  from start_time_token_found [OF this, of "''41 ''" "''a) b (c''" None] show ?thesis by (simp add: nth_append)
qed

end
