(* ===== verification/File_Store.thy ===== *)
theory File_Store
  imports Prelude
begin

text \<open>
  The part of a file system that the index store relies on: a tree of files and directories under
  paths, and the calls of \<^verbatim>\<open>std::fs\<close> the code makes. Every call may fail; an oracle decides which
  ones do, by the number of calls made before, and what a failed removal of a directory has
  already removed.
\<close>

section \<open>Trees of files\<close>

type_synonym path = "string list"

datatype node = FileNode string | DirNode

type_synonym files = "(path \<times> node) list"

definition move_tree :: "path \<Rightarrow> path \<Rightarrow> files \<Rightarrow> files" where
  "move_tree src dst m =
     map (\<lambda>(p, n). (dst @ drop (length src) p, n)) (filter (\<lambda>(p, _). prefix src p) m)
     @ filter (\<lambda>(p, _). \<not> prefix src p \<and> \<not> prefix dst p) m"

definition remove_tree :: "path \<Rightarrow> files \<Rightarrow> files" where
  "remove_tree dir m = filter (\<lambda>(p, _). \<not> prefix dir p) m"

definition dir_empty :: "files \<Rightarrow> path \<Rightarrow> bool" where
  "dir_empty m dir \<longleftrightarrow> list_all (\<lambda>(p, _). \<not> strict_prefix dir p) m"

definition path_exists :: "files \<Rightarrow> path \<Rightarrow> bool" where
  "path_exists m p \<longleftrightarrow> map_of m p \<noteq> None"

definition is_file :: "files \<Rightarrow> path \<Rightarrow> bool" where
  "is_file m p \<longleftrightarrow> (case map_of m p of Some (FileNode _) \<Rightarrow> True | _ \<Rightarrow> False)"

definition is_dir :: "files \<Rightarrow> path \<Rightarrow> bool" where
  "is_dir m p \<longleftrightarrow> map_of m p = Some DirNode"

lemma map_of_filter_fst: "map_of (filter (\<lambda>(p, _). P p) m) q = (if P q then map_of m q else None)"
  by (induction m) auto

lemma map_of_moved:
  "map_of (map (\<lambda>(p, n). (dst @ drop (length src) p, n)) (filter (\<lambda>(p, _). prefix src p) m)) q =
     (if prefix dst q then map_of m (src @ drop (length dst) q) else None)"
proof (induction m)
  case (Cons e m)
  obtain p n where e: "e = (p, n)" by (cases e)
  show ?case
  proof (cases "prefix src p")
    case True
    then obtain x where x: "p = src @ x" by (auto simp: prefix_def)
    then show ?thesis using Cons e by (auto simp: prefix_def)
  next
    case False
    then have "src @ y \<noteq> p" for y by auto
    then show ?thesis using Cons e False by auto
  qed
qed simp

lemma lookup_move_tree:
  "map_of (move_tree src dst m) q =
     (if prefix dst q then map_of m (src @ drop (length dst) q)
      else if prefix src q then None else map_of m q)"
proof -
  have "map_of (filter (\<lambda>(p, _). \<not> prefix src p \<and> \<not> prefix dst p) m) q =
      (if \<not> prefix src q \<and> \<not> prefix dst q then map_of m q else None)"
    by (rule map_of_filter_fst)
  moreover have "prefix dst q \<Longrightarrow> \<not> (\<not> prefix src q \<and> \<not> prefix dst q)" by simp
  ultimately show ?thesis
    unfolding move_tree_def map_of_append map_add_def map_of_moved
    by (auto split: option.splits)
qed

lemma lookup_remove_tree: "map_of (remove_tree dir m) q = (if prefix dir q then None else map_of m q)"
  by (simp add: remove_tree_def map_of_filter_fst)

text \<open>No entry at or below a path.\<close>

definition free_at :: "files \<Rightarrow> path \<Rightarrow> bool" where
  "free_at m p \<longleftrightarrow> list_all (\<lambda>(q, _). \<not> prefix p q) m"

lemma free_at_iff: "free_at m p \<longleftrightarrow> (\<forall>q. map_of m (p @ q) = None)"
proof
  assume f: "free_at m p"
  have "map_of m (p @ q) = None" for q
    using f by (force simp: free_at_def list_all_iff map_of_eq_None_iff)
  then show "\<forall>q. map_of m (p @ q) = None" by blast
next
  assume "\<forall>q. map_of m (p @ q) = None"
  then have none: "p @ q \<notin> fst ` set m" for q by (simp add: map_of_eq_None_iff)
  have "\<not> prefix p a" if "(a, b) \<in> set m" for a b
  proof
    assume "prefix p a"
    then obtain q where "a = p @ q" by (auto simp: prefix_def)
    then show False using none [of q] that by force
  qed
  then show "free_at m p" by (auto simp: free_at_def list_all_iff)
qed

text \<open>Everything above an entry is a directory.\<close>

definition tree_wf :: "files \<Rightarrow> bool" where
  "tree_wf m \<longleftrightarrow> list_all (\<lambda>(p, _). list_all (\<lambda>q. q = p \<or> map_of m q = Some DirNode) (prefixes p)) m"

lemma tree_wf_iff:
  "tree_wf m \<longleftrightarrow> (\<forall>p q. map_of m (p @ q) \<noteq> None \<longrightarrow> q \<noteq> [] \<longrightarrow> map_of m p = Some DirNode)"
proof
  assume wf: "tree_wf m"
  have "map_of m p = Some DirNode" if "map_of m (p @ q) = Some n" "q \<noteq> []" for p q n
  proof -
    have "(p @ q, n) \<in> set m" using that(1) by (rule map_of_SomeD)
    then have "p = p @ q \<or> map_of m p = Some DirNode"
      using wf unfolding tree_wf_def list_all_iff by force
    then show ?thesis using that(2) by simp
  qed
  then show "\<forall>p q. map_of m (p @ q) \<noteq> None \<longrightarrow> q \<noteq> [] \<longrightarrow> map_of m p = Some DirNode" by blast
next
  assume anc: "\<forall>p q. map_of m (p @ q) \<noteq> None \<longrightarrow> q \<noteq> [] \<longrightarrow> map_of m p = Some DirNode"
  have above: "q = p \<or> map_of m q = Some DirNode" if pn: "(p, n) \<in> set m" and pre: "prefix q p" for p n q
  proof -
    obtain x where x: "p = q @ x" using pre by (auto simp: prefix_def)
    have "map_of m p \<noteq> None" using weak_map_of_SomeI [OF pn] by auto
    then show ?thesis using anc x by (cases "x = []") auto
  qed
  show "tree_wf m" unfolding tree_wf_def list_all_iff by (auto dest: above)
qed

lemma tree_wf_below: "tree_wf m \<Longrightarrow> map_of m p \<noteq> Some DirNode \<Longrightarrow> q \<noteq> [] \<Longrightarrow> map_of m (p @ q) = None"
  unfolding tree_wf_iff by blast

lemma tree_wf_free: "tree_wf m \<Longrightarrow> map_of m p = None \<Longrightarrow> free_at m p"
proof -
  assume wf: "tree_wf m" and none: "map_of m p = None"
  have "map_of m (p @ q) = None" for q
    using tree_wf_below [OF wf, of p q] none by (cases "q = []") auto
  then show "free_at m p" by (simp add: free_at_iff)
qed

lemma tree_wf_put:
  assumes wf: "tree_wf m" and parent: "p \<noteq> []" "is_dir m (butlast p)" and dir: "n = DirNode \<or> map_of m p \<noteq> Some DirNode"
  shows "tree_wf (alist_put p n m)"
  unfolding tree_wf_iff
proof (intro allI impI)
  fix x q assume q: "map_of (alist_put p n m) (x @ q) \<noteq> None" "q \<noteq> []"
  have below: "map_of m (p @ r) = None" if "n \<noteq> DirNode" "r \<noteq> []" for r
    using tree_wf_below [OF wf _ that(2)] dir that(1) by blast
  have "map_of m x = Some DirNode" if "x @ q = p"
  proof -
    have "butlast p = x @ butlast q" using that q(2) by (metis butlast_append)
    then show ?thesis using parent(2) wf unfolding is_dir_def tree_wf_iff
      by (cases "butlast q = []") force+
  qed
  moreover have "map_of m x = Some DirNode" if "x @ q \<noteq> p" using q that wf unfolding tree_wf_iff by auto
  ultimately have x: "map_of m x = Some DirNode" by blast
  show "map_of (alist_put p n m) x = Some DirNode"
  proof (cases "x = p")
    case True
    then show ?thesis using below [of q] q x dir by auto
  qed (use x in simp)
qed

text \<open>A move is undone by the move back, if its target was free.\<close>

lemma move_back:
  "free_at m dst \<Longrightarrow> map_of (move_tree dst src (move_tree src dst m)) = map_of m"
  by (auto simp: lookup_move_tree fun_eq_iff free_at_iff prefix_def)


section \<open>Calls that may fail\<close>

datatype io_error = NotFound | AlreadyExists | IoFailure

record io_oracle =
  fails :: "nat \<Rightarrow> bool"
  removed_before_failure :: "nat \<Rightarrow> path \<Rightarrow> bool"

record io_state =
  fs :: files
  tick :: nat

type_synonym 'a io = "io_state \<Rightarrow> (io_error + 'a) \<times> io_state"

definition ticked :: "io_state \<Rightarrow> io_state" where
  "ticked st = st\<lparr>tick := tick st + 1\<rparr>"

definition set_fs :: "files \<Rightarrow> io_state \<Rightarrow> io_state" where
  "set_fs m st = st\<lparr>fs := m\<rparr>"

lemma io_state_simps [simp]:
  "fs (ticked st) = fs st" "fs (set_fs m st) = m" "tick (set_fs m st) = tick st"
  by (simp_all add: ticked_def set_fs_def)

definition fs_rename :: "io_oracle \<Rightarrow> path \<Rightarrow> path \<Rightarrow> unit io" where
  "fs_rename orc src dst st =
     (if map_of (fs st) src = None then (Inl NotFound, ticked st)
      else if (case map_of (fs st) dst of
                 None \<Rightarrow> False
               | Some (FileNode _) \<Rightarrow> is_dir (fs st) src
               | Some DirNode \<Rightarrow> \<not> is_dir (fs st) src \<or> \<not> dir_empty (fs st) dst)
      then (Inl AlreadyExists, ticked st)
      else if fails orc (tick st) then (Inl IoFailure, ticked st)
      else (Inr (), set_fs (move_tree src dst (fs st)) (ticked st)))"

definition fs_create_dir :: "io_oracle \<Rightarrow> path \<Rightarrow> unit io" where
  "fs_create_dir orc dir st =
     (if path_exists (fs st) dir then (Inl AlreadyExists, ticked st)
      else if dir = [] \<or> \<not> is_dir (fs st) (butlast dir) then (Inl NotFound, ticked st)
      else if fails orc (tick st) then (Inl IoFailure, ticked st)
      else (Inr (), set_fs (alist_put dir DirNode (fs st)) (ticked st)))"

text \<open>\<^verbatim>\<open>create_dir_all\<close> also creates the missing parents.\<close>

definition fs_create_dir_all :: "io_oracle \<Rightarrow> path \<Rightarrow> unit io" where
  "fs_create_dir_all orc dir st =
     (if list_ex (\<lambda>p. is_file (fs st) p) (prefixes dir) then (Inl AlreadyExists, ticked st)
      else if fails orc (tick st) then (Inl IoFailure, ticked st)
      else (Inr (), set_fs (map (\<lambda>p. (p, DirNode)) (filter (\<lambda>p. \<not> path_exists (fs st) p) (prefixes dir)) @ fs st)
                      (ticked st)))"

text \<open>A failed write may or may not have created the file.\<close>

definition fs_write :: "io_oracle \<Rightarrow> path \<Rightarrow> string \<Rightarrow> unit io" where
  "fs_write orc p content st =
     (if p = [] \<or> \<not> is_dir (fs st) (butlast p) \<or> is_dir (fs st) p then (Inl NotFound, ticked st)
      else if fails orc (tick st)
      then (Inl IoFailure, ticked (if removed_before_failure orc (tick st) p
                                   then st else set_fs (alist_put p (FileNode '''') (fs st)) st))
      else (Inr (), set_fs (alist_put p (FileNode content) (fs st)) (ticked st)))"

definition fs_remove_dir_all :: "io_oracle \<Rightarrow> path \<Rightarrow> unit io" where
  "fs_remove_dir_all orc dir st =
     (if map_of (fs st) dir = None then (Inl NotFound, ticked st)
      else if fails orc (tick st)
      then (Inl IoFailure, set_fs (filter (\<lambda>(p, _). \<not> (prefix dir p \<and> removed_before_failure orc (tick st) p)) (fs st)) (ticked st))
      else (Inr (), set_fs (remove_tree dir (fs st)) (ticked st)))"

definition fs_remove_file :: "io_oracle \<Rightarrow> path \<Rightarrow> unit io" where
  "fs_remove_file orc p st =
     (if map_of (fs st) p = None then (Inl NotFound, ticked st)
      else if fails orc (tick st) then (Inl IoFailure, ticked st)
      else (Inr (), set_fs (alist_remove p (fs st)) (ticked st)))"


section \<open>What calls leave alone\<close>

text \<open>Two states agree outside some trees.\<close>

definition agree_off :: "path list \<Rightarrow> files \<Rightarrow> files \<Rightarrow> bool" where
  "agree_off trees m m' \<longleftrightarrow> (\<forall>p. (\<forall>t\<in>set trees. \<not> prefix t p) \<longrightarrow> map_of m' p = map_of m p)"

lemma agree_off_refl [simp, intro]: "agree_off trees m m"
  by (simp add: agree_off_def)

lemma agree_off_trans: "agree_off ts m m' \<Longrightarrow> agree_off ts m' m'' \<Longrightarrow> agree_off ts m m''"
  by (simp add: agree_off_def)

lemma agree_off_sym: "agree_off ts m m' \<Longrightarrow> agree_off ts m' m"
  by (simp add: agree_off_def)

lemma agree_off_mono: "agree_off ts m m' \<Longrightarrow> set ts \<subseteq> set ts' \<Longrightarrow> agree_off ts' m m'"
  by (auto simp: agree_off_def)

lemma agree_remove_dir_all:
  "fs_remove_dir_all orc dir st = (r, st') \<Longrightarrow> agree_off [dir] (fs st) (fs st')"
  by (auto simp: fs_remove_dir_all_def agree_off_def lookup_remove_tree map_of_filter_fst split: if_splits)

lemma agree_remove_file:
  "fs_remove_file orc p st = (r, st') \<Longrightarrow> agree_off [p] (fs st) (fs st')"
  by (auto simp: fs_remove_file_def agree_off_def split: if_splits)

lemma agree_write: "fs_write orc p c st = (r, st') \<Longrightarrow> agree_off [p] (fs st) (fs st')"
  by (auto simp: fs_write_def agree_off_def split: if_splits)

lemma agree_create_dir: "fs_create_dir orc d st = (r, st') \<Longrightarrow> agree_off [d] (fs st) (fs st')"
  by (auto simp: fs_create_dir_def agree_off_def split: if_splits)

lemma rename_result:
  "fs_rename orc src dst st = (Inr u, st') \<Longrightarrow> fs st' = move_tree src dst (fs st)"
  "fs_rename orc src dst st = (Inl e, st') \<Longrightarrow> fs st' = fs st"
  by (auto simp: fs_rename_def split: if_splits)

lemma agree_rename: "fs_rename orc src dst st = (r, st') \<Longrightarrow> agree_off [src, dst] (fs st) (fs st')"
  by (cases r) (auto dest!: rename_result simp: agree_off_def lookup_move_tree)


lemma wf_write: "fs_write orc p c st = (r, st') \<Longrightarrow> tree_wf (fs st) \<Longrightarrow> tree_wf (fs st')"
  by (auto simp: fs_write_def intro!: tree_wf_put split: if_splits) (simp_all add: is_dir_def)

lemma wf_create_dir: "fs_create_dir orc d st = (r, st') \<Longrightarrow> tree_wf (fs st) \<Longrightarrow> tree_wf (fs st')"
  by (auto simp: fs_create_dir_def intro: tree_wf_put split: if_splits)

end
