(* ===== verification/Staging.thy ===== *)
theory Staging
  imports File_Store
begin

text \<open>
  Replacement of a whole index, \<^verbatim>\<open>src/src/indexer/staging.rs\<close>: a fresh index is built in a staging
  directory, the live artifacts move into a backup directory, the staged ones take their
  places, and a failure rolls everything back. Paths are those of \<^verbatim>\<open>src/src/workspace.rs\<close>. The
  model runs over the file system of the theory \<^verbatim>\<open>File_Store\<close>, where every call may fail.
  The theorems show that a promotion either installs exactly the staged index, or leaves
  everything outside its two working directories as it was, or, if the rollback fails too,
  loses no live artifact.
\<close>

section \<open>Paths of a workspace\<close>

definition STAGING_DIR_PREFIX :: string where "STAGING_DIR_PREFIX = ''.fresh-index-staging-''"
definition BACKUP_DIR_PREFIX :: string where "BACKUP_DIR_PREFIX = ''.fresh-index-backup-''"
definition RETAINED_BACKUP_MARKER :: string where "RETAINED_BACKUP_MARKER = ''retained''"

text \<open>\<^verbatim>\<open>Path::with_extension\<close> on a file name: the part after the last dot is replaced, unless that
  dot comes first.\<close>

definition with_extension :: "string \<Rightarrow> string \<Rightarrow> string" where
  "with_extension name ext =
     (case rsplit_once name ''.'' of
        Some (stem, _) \<Rightarrow> (if stem = [] then name else stem) @ ''.'' @ ext
      | None \<Rightarrow> name @ ''.'' @ ext)"

text \<open>The files of an index directory, by name.\<close>

definition main_store_names :: "string list" where
  "main_store_names =
     [''index_incarnation'',
      ''metadata.sqlite3'', ''metadata.sqlite3'' @ ''-wal'', ''metadata.sqlite3'' @ ''-shm'',
      ''tantivy'',
      ''vectors.usearch'', with_extension ''vectors.usearch'' ''usearch.bak'',
      with_extension ''vectors.usearch'' ''usearch.tmp'',
      ''vectors_neural.usearch'', with_extension ''vectors_neural.usearch'' ''usearch.bak'',
      with_extension ''vectors_neural.usearch'' ''usearch.tmp'',
      ''neural_model.json'', ''neural_profile'', ''neural_backend'',
      ''.hash_tombstones'', ''.hash_tombstones.processing'', ''.hash_enhanced_generation'',
      ''.neural_tombstones'', ''.neural_tombstones.processing'', ''.neural_enhanced_generation'']"

definition overlay_store_names :: "string list" where
  "overlay_store_names =
     [''workspace.json'', ''index_incarnation'',
      ''overlay.sqlite3'', ''overlay.sqlite3'' @ ''-wal'', ''overlay.sqlite3'' @ ''-shm'',
      ''overlay_tantivy'',
      ''overlay_vectors.usearch'', with_extension ''overlay_vectors.usearch'' ''usearch.bak'',
      with_extension ''overlay_vectors.usearch'' ''usearch.tmp'',
      ''vectors_neural.usearch'', with_extension ''vectors_neural.usearch'' ''usearch.bak'',
      with_extension ''vectors_neural.usearch'' ''usearch.tmp'',
      ''neural_model.json'', ''neural_profile'', ''neural_backend'',
      ''.hash_tombstones'', ''.hash_tombstones.processing'',
      ''.neural_tombstones'', ''.neural_tombstones.processing'',
      ''.hash_enhanced_generation'', ''.neural_enhanced_generation'',
      ''base_ref.json'', ''merkle_snapshot.json'',
      with_extension ''merkle_snapshot.json'' ''verified'', ''index_format_version'']"

definition main_store_artifacts :: "path \<Rightarrow> path list" where
  "main_store_artifacts index_dir = map (\<lambda>name. index_dir @ [name]) main_store_names"

definition overlay_store_artifacts :: "path \<Rightarrow> path list" where
  "overlay_store_artifacts index_dir = map (\<lambda>name. index_dir @ [name]) overlay_store_names"


section \<open>A staging directory\<close>

record FreshIndexStaging =
  stg_dir :: path
  stg_sqlite :: path
  stg_tantivy :: path
  stg_vector :: path

text \<open>\<open>pid\<close> and \<open>unique\<close> are the process number and the clock.\<close>

definition staging_create :: "io_oracle \<Rightarrow> path \<Rightarrow> nat \<Rightarrow> nat \<Rightarrow> FreshIndexStaging io" where
  "staging_create orc index_dir pid unique st =
     (let dir = index_dir @ [STAGING_DIR_PREFIX @ decimal pid @ ''-'' @ decimal unique];
          (_, st1) = fs_remove_dir_all orc dir st
      in case fs_create_dir_all orc dir st1 of
           (Inl e, st2) \<Rightarrow> (Inl e, st2)
         | (Inr _, st2) \<Rightarrow>
             (Inr \<lparr>stg_dir = dir, stg_sqlite = dir @ [''metadata.sqlite3''],
                   stg_tantivy = dir @ [''tantivy''], stg_vector = dir @ [''vectors.usearch'']\<rparr>, st2))"

definition staging_create_overlay :: "io_oracle \<Rightarrow> path \<Rightarrow> nat \<Rightarrow> nat \<Rightarrow> FreshIndexStaging io" where
  "staging_create_overlay orc index_dir pid unique st =
     (case staging_create orc index_dir pid unique st of
        (Inl e, st1) \<Rightarrow> (Inl e, st1)
      | (Inr s, st1) \<Rightarrow>
          (Inr (s\<lparr>stg_sqlite := stg_dir s @ [''overlay.sqlite3''],
                  stg_tantivy := stg_dir s @ [''overlay_tantivy''],
                  stg_vector := stg_dir s @ [''overlay_vectors.usearch'']\<rparr>), st1))"

text \<open>The staging directory goes at the end, after a success by the last statement, after an error
  because the value is dropped while it is still active.\<close>

definition staging_drop :: "io_oracle \<Rightarrow> FreshIndexStaging \<Rightarrow> io_state \<Rightarrow> io_state" where
  "staging_drop orc s st = snd (fs_remove_dir_all orc (stg_dir s) st)"


section \<open>Rollback\<close>

fun restore_loop :: "io_oracle \<Rightarrow> (path \<times> path) list \<Rightarrow> unit io" where
  "restore_loop orc [] st = (Inr (), st)"
| "restore_loop orc ((live, backup) # rest) st =
     (case fs_rename orc backup live st of
        (Inl e, st') \<Rightarrow> (Inl e, st')
      | (Inr _, st') \<Rightarrow> restore_loop orc rest st')"

definition restore_main_store_backups :: "io_oracle \<Rightarrow> (path \<times> path) list \<Rightarrow> unit io" where
  "restore_main_store_backups orc backups = restore_loop orc (rev backups)"

definition remove_path_if_exists :: "io_oracle \<Rightarrow> path \<Rightarrow> unit io" where
  "remove_path_if_exists orc p st =
     (if is_dir (fs st) p then fs_remove_dir_all orc p st
      else if path_exists (fs st) p then fs_remove_file orc p st
      else (Inr (), st))"

fun remove_loop :: "io_oracle \<Rightarrow> path list \<Rightarrow> unit io" where
  "remove_loop orc [] st = (Inr (), st)"
| "remove_loop orc (p # rest) st =
     (case remove_path_if_exists orc p st of
        (Inl e, st') \<Rightarrow> (Inl e, st')
      | (Inr _, st') \<Rightarrow> remove_loop orc rest st')"

definition rollback_main_store :: "io_oracle \<Rightarrow> path list \<Rightarrow> (path \<times> path) list \<Rightarrow> unit io" where
  "rollback_main_store orc promoted backups st =
     (case remove_loop orc (rev promoted) st of
        (Inl e, st') \<Rightarrow> (Inl e, st')
      | (Inr _, st') \<Rightarrow> restore_main_store_backups orc backups st')"


section \<open>Promotion\<close>

datatype promote_error =
    MissingStaged path
  | StagedIo io_error
  | PreserveFailed path io_error
  | PromoteFailed path path io_error
  | RollbackFailed path

type_synonym 'a promoting = "io_state \<Rightarrow> (promote_error + 'a) \<times> io_state"

text \<open>The end of both loops on an error: a failed rollback marks the backups as the only copy, a
  successful one removes the backup directory.\<close>

definition after_rollback ::
    "io_oracle \<Rightarrow> path \<Rightarrow> path \<Rightarrow> promote_error \<Rightarrow> (io_error + unit) \<times> io_state \<Rightarrow> (promote_error + 'a) \<times> io_state" where
  "after_rollback orc backup_dir live err rolled =
     (case rolled of
        (Inl _, st) \<Rightarrow> (Inl (RollbackFailed live), snd (fs_write orc (backup_dir @ [RETAINED_BACKUP_MARKER]) '''' st))
      | (Inr _, st) \<Rightarrow> (Inl err, snd (fs_remove_dir_all orc backup_dir st)))"

fun backup_loop :: "io_oracle \<Rightarrow> path \<Rightarrow> (nat \<times> path) list \<Rightarrow> (path \<times> path) list \<Rightarrow> (path \<times> path) list promoting" where
  "backup_loop orc backup_dir [] backups st = (Inr backups, st)"
| "backup_loop orc backup_dir ((index, live) # rest) backups st =
     (if \<not> path_exists (fs st) live then backup_loop orc backup_dir rest backups st
      else let backup = backup_dir @ [decimal index]
           in case fs_rename orc live backup st of
                (Inl e, st') \<Rightarrow>
                  after_rollback orc backup_dir live (PreserveFailed live e) (restore_main_store_backups orc backups st')
              | (Inr _, st') \<Rightarrow> backup_loop orc backup_dir rest (backups @ [(live, backup)]) st')"

fun promote_loop ::
    "io_oracle \<Rightarrow> path \<Rightarrow> (path \<times> path) list \<Rightarrow> path list \<Rightarrow> (path \<times> path) list \<Rightarrow> unit promoting" where
  "promote_loop orc backup_dir backups promoted [] st = (Inr (), st)"
| "promote_loop orc backup_dir backups promoted ((staged, live) # rest) st =
     (case fs_rename orc staged live st of
        (Inl e, st') \<Rightarrow>
          after_rollback orc backup_dir live (PromoteFailed staged live e) (rollback_main_store orc promoted backups st')
      | (Inr _, st') \<Rightarrow> promote_loop orc backup_dir backups (promoted @ [live]) rest st')"

text \<open>The part after the checks: \<open>incarnation\<close> and \<open>backup_id\<close> are the two fresh identifiers.\<close>

definition promote_stores ::
    "io_oracle \<Rightarrow> path \<Rightarrow> string \<Rightarrow> string \<Rightarrow> FreshIndexStaging \<Rightarrow> path list \<Rightarrow> (path \<times> path) list \<Rightarrow> unit promoting" where
  "promote_stores orc index_dir incarnation backup_id s artifacts promotions st =
     (let staged_incarnation = stg_dir s @ [''index_incarnation''];
          backup_dir = index_dir @ [BACKUP_DIR_PREFIX @ backup_id]
      in case fs_write orc staged_incarnation incarnation st of
           (Inl e, st1) \<Rightarrow> (Inl (StagedIo e), st1)
         | (Inr _, st1) \<Rightarrow>
      (case fs_create_dir orc backup_dir st1 of
           (Inl e, st2) \<Rightarrow> (Inl (StagedIo e), st2)
         | (Inr _, st2) \<Rightarrow>
      (case backup_loop orc backup_dir (enumerate 0 artifacts) [] st2 of
           (Inl err, st3) \<Rightarrow> (Inl err, st3)
         | (Inr backups, st3) \<Rightarrow>
      (case promote_loop orc backup_dir backups []
              ((staged_incarnation, index_dir @ [''index_incarnation'']) # promotions) st3 of
           (Inl err, st4) \<Rightarrow> (Inl err, st4)
         | (Inr _, st4) \<Rightarrow> (Inr (), snd (fs_remove_dir_all orc backup_dir st4))))))"

definition promote_artifacts ::
    "io_oracle \<Rightarrow> path \<Rightarrow> string \<Rightarrow> string \<Rightarrow> FreshIndexStaging \<Rightarrow> path list \<Rightarrow> (path \<times> path) list \<Rightarrow> unit promoting" where
  "promote_artifacts orc index_dir incarnation backup_id s artifacts promotions st =
     (let (res, st1) =
        (if \<not> is_file (fs st) (stg_sqlite s) then (Inl (MissingStaged (stg_sqlite s)), st)
         else if \<not> is_dir (fs st) (stg_tantivy s) then (Inl (MissingStaged (stg_tantivy s)), st)
         else if \<not> is_file (fs st) (stg_vector s) then (Inl (MissingStaged (stg_vector s)), st)
         else promote_stores orc index_dir incarnation backup_id s artifacts promotions st)
      in (res, staging_drop orc s st1))"

definition main_promotions :: "path \<Rightarrow> FreshIndexStaging \<Rightarrow> (path \<times> path) list" where
  "main_promotions index_dir s =
     [(stg_sqlite s, index_dir @ [''metadata.sqlite3'']),
      (stg_tantivy s, index_dir @ [''tantivy'']),
      (stg_vector s, index_dir @ [''vectors.usearch''])]"

definition promote :: "io_oracle \<Rightarrow> path \<Rightarrow> string \<Rightarrow> string \<Rightarrow> FreshIndexStaging \<Rightarrow> unit promoting" where
  "promote orc index_dir incarnation backup_id s =
     promote_artifacts orc index_dir incarnation backup_id s (main_store_artifacts index_dir)
       (main_promotions index_dir s)"

definition overlay_promotions :: "bool \<Rightarrow> path \<Rightarrow> FreshIndexStaging \<Rightarrow> (path \<times> path) list" where
  "overlay_promotions has_verified index_dir s =
     [(stg_sqlite s, index_dir @ [''overlay.sqlite3'']),
      (stg_tantivy s, index_dir @ [''overlay_tantivy'']),
      (stg_vector s, index_dir @ [''overlay_vectors.usearch''])]
     @ map (\<lambda>name. (stg_dir s @ [name], index_dir @ [name]))
         ([''base_ref.json'', ''merkle_snapshot.json'', ''index_format_version'']
          @ (if has_verified then [with_extension ''merkle_snapshot.json'' ''verified''] else [])
          @ [''workspace.json''])"

definition promote_overlay :: "io_oracle \<Rightarrow> path \<Rightarrow> string \<Rightarrow> string \<Rightarrow> FreshIndexStaging \<Rightarrow> unit promoting" where
  "promote_overlay orc index_dir incarnation backup_id s st =
     (let verified = stg_dir s @ [with_extension ''merkle_snapshot.json'' ''verified''];
          promotions = overlay_promotions (is_file (fs st) verified) index_dir s
      in case List.find (\<lambda>(p, _). \<not> path_exists (fs st) p) promotions of
           Some (p, _) \<Rightarrow> (Inl (MissingStaged p), staging_drop orc s st)
         | None \<Rightarrow>
             promote_artifacts orc index_dir incarnation backup_id s (overlay_store_artifacts index_dir) promotions st)"


section \<open>Cleaning up after a killed indexer\<close>

text \<open>The entries of the index directory, by name.\<close>

definition dir_names :: "files \<Rightarrow> path \<Rightarrow> string list" where
  "dir_names m dir = map (\<lambda>(p, _). last p) (filter (\<lambda>(p, _). p \<noteq> [] \<and> butlast p = dir) m)"

definition is_abandoned :: "files \<Rightarrow> path \<Rightarrow> string \<Rightarrow> bool" where
  "is_abandoned m dir name \<longleftrightarrow>
     (starts_with name STAGING_DIR_PREFIX
      \<or> starts_with name BACKUP_DIR_PREFIX \<and> \<not> path_exists m (dir @ [name, RETAINED_BACKUP_MARKER]))
     \<and> is_dir m (dir @ [name])"

fun remove_abandoned :: "io_oracle \<Rightarrow> path \<Rightarrow> string list \<Rightarrow> io_state \<Rightarrow> io_state" where
  "remove_abandoned orc dir [] st = st"
| "remove_abandoned orc dir (name # rest) st =
     remove_abandoned orc dir rest
       (if is_abandoned (fs st) dir name then snd (fs_remove_dir_all orc (dir @ [name]) st) else st)"

text \<open>\<open>readable\<close> says whether the index directory can be read.\<close>

definition remove_abandoned_staging :: "io_oracle \<Rightarrow> bool \<Rightarrow> path \<Rightarrow> io_state \<Rightarrow> io_state" where
  "remove_abandoned_staging orc readable index_dir st =
     (if \<not> readable then st else remove_abandoned orc index_dir (dir_names (fs st) index_dir) st)"


section \<open>Moves of several trees\<close>

definition apart :: "path list \<Rightarrow> bool" where
  "apart ps \<longleftrightarrow> distinct ps \<and> (\<forall>x\<in>set ps. \<forall>y\<in>set ps. prefix x y \<longrightarrow> x = y)"

lemma apartD: "apart ps \<Longrightarrow> x \<in> set ps \<Longrightarrow> y \<in> set ps \<Longrightarrow> prefix x (y @ q) \<Longrightarrow> x = y"
  by (metis apart_def prefixI prefix_same_cases)

lemma apart_distinct: "apart ps \<Longrightarrow> distinct ps"
  by (simp add: apart_def)

lemma apart_subset: "apart ps \<Longrightarrow> distinct qs \<Longrightarrow> set qs \<subseteq> set ps \<Longrightarrow> apart qs"
  unfolding apart_def by blast

definition moved :: "files \<Rightarrow> (path \<times> path) list \<Rightarrow> files" where
  "moved m bs = foldl (\<lambda>m (a, b). move_tree a b m) m bs"

lemma moved_snoc: "moved m (bs @ [(a, b)]) = move_tree a b (moved m bs)"
  by (simp add: moved_def)

lemma moved_Nil [simp]: "moved m [] = m"
  by (simp add: moved_def)

lemma moved_other:
  "(\<And>x. x \<in> fst ` set bs \<union> snd ` set bs \<Longrightarrow> \<not> prefix x p) \<Longrightarrow> map_of (moved m bs) p = map_of m p"
  by (induction bs rule: rev_induct) (auto simp: moved_snoc lookup_move_tree)

lemma moved_pair:
  assumes "apart (map fst bs @ map snd bs)" and "(a, b) \<in> set bs"
  shows "map_of (moved m bs) (b @ q) = map_of m (a @ q) \<and> map_of (moved m bs) (a @ q) = None"
  using assms
proof (induction bs rule: rev_induct)
  case (snoc e bs)
  obtain a' b' where e: "e = (a', b')" by (cases e)
  have ap: "apart (map fst (bs @ [e]) @ map snd (bs @ [e]))" using snoc.prems(1) .
  have ap': "apart (map fst bs @ map snd bs)"
    by (rule apart_subset [OF ap]) (use apart_distinct [OF ap] in auto)
  have new: "a' \<noteq> b'" "a' \<notin> fst ` set bs \<union> snd ` set bs" "b' \<notin> fst ` set bs \<union> snd ` set bs"
    using apart_distinct [OF ap] e by auto
  have off: "\<not> prefix x (y @ q)" if "x \<noteq> y" "x \<in> set (map fst (bs @ [e]) @ map snd (bs @ [e]))"
      "y \<in> set (map fst (bs @ [e]) @ map snd (bs @ [e]))" for x y q
    using apartD [OF ap that(2,3)] that(1) by blast
  show ?case
  proof (cases "(a, b) = e")
    case True
    then have ab: "a = a'" "b = b'" using e by auto
    have "map_of (moved m bs) (a @ q) = map_of m (a @ q)"
      using new e ab by (intro moved_other off) auto
    then show ?thesis using ab e new(1) off [of b' a' q] by (auto simp: moved_snoc lookup_move_tree)
  next
    case False
    then have mem: "(a, b) \<in> set bs" using snoc.prems(2) by auto
    then have ne: "a \<noteq> a'" "a \<noteq> b'" "b \<noteq> a'" "b \<noteq> b'" using new by force+
    have in_bs: "a \<in> fst ` set bs" "b \<in> snd ` set bs" using mem by force+
    have "\<not> prefix x (y @ q)" if "x \<in> {a', b'}" "y \<in> {a, b}" for x y
      using that in_bs e ne by (intro off) auto
    then show ?thesis using snoc.IH [OF ap' mem] e by (simp add: moved_snoc lookup_move_tree)
  qed
qed simp

lemma agree_off_move:
  assumes "agree_off ts m m'" and "\<And>t x. t \<in> set ts \<Longrightarrow> \<not> prefix t (src @ x)"
  shows "agree_off ts (move_tree src dst m) (move_tree src dst m')"
  using assms by (auto simp: agree_off_def lookup_move_tree)

lemma restore_loop_spec:
  assumes "apart (map fst bs @ map snd bs @ ts)" and "\<And>b. b \<in> snd ` set bs \<Longrightarrow> free_at m b"
    and "agree_off ts (moved m bs) (fs st)" and "restore_loop orc (rev bs) st = (r, st')"
  shows "\<exists>bs1 bs2. bs = bs1 @ bs2 \<and> agree_off ts (moved m bs1) (fs st') \<and> (r = Inr () \<longrightarrow> bs1 = [])"
  using assms
proof (induction bs arbitrary: st rule: rev_induct)
  case Nil
  then show ?case by simp
next
  case (snoc e bs)
  obtain a b where e: "e = (a, b)" by (cases e)
  have ap: "apart (map fst (bs @ [e]) @ map snd (bs @ [e]) @ ts)" using snoc.prems(1) .
  have ap': "apart (map fst bs @ map snd bs @ ts)"
    by (rule apart_subset [OF ap]) (use apart_distinct [OF ap] in auto)
  obtain r1 st1 where r1: "fs_rename orc b a st = (r1, st1)" by fastforce
  show ?case
  proof (cases r1)
    case (Inl err)
    then have "r = Inl err" "st' = st1" using snoc.prems(4) r1 e by auto
    then show ?thesis using rename_result(2) r1 Inl snoc.prems(3)
      by (intro exI [of _ "bs @ [e]"] exI [of _ "[]"]) auto
  next
    case (Inr u)
    then have rest: "restore_loop orc (rev bs) st1 = (r, st')" using snoc.prems(4) r1 e by simp
    have "free_at (moved m bs) b"
    proof -
      have "map_of (moved m bs) (b @ q) = map_of m (b @ q)" for q
      proof (rule moved_other)
        fix x assume "x \<in> fst ` set bs \<union> snd ` set bs"
        then have "x \<in> set (map fst (bs @ [e]) @ map snd (bs @ [e]) @ ts)" "x \<noteq> b"
          using apart_distinct [OF ap] e by auto
        then show "\<not> prefix x (b @ q)" using apartD [OF ap, of x b q] e by auto
      qed
      then show ?thesis using snoc.prems(2) [of b] e by (simp add: free_at_iff)
    qed
    then have undo: "map_of (move_tree b a (moved m (bs @ [e]))) = map_of (moved m bs)"
      using e by (simp add: moved_snoc move_back)
    have "\<not> prefix t (b @ x)" if "t \<in> set ts" for t x
    proof -
      have "t \<noteq> b" using apart_distinct [OF ap] that e by auto
      then show ?thesis using apartD [OF ap, of t b x] that e by auto
    qed
    then have "agree_off ts (move_tree b a (moved m (bs @ [e]))) (move_tree b a (fs st))"
      by (rule agree_off_move [OF snoc.prems(3)])
    then have "agree_off ts (moved m bs) (fs st1)"
      using rename_result(1) r1 Inr undo by (auto simp: agree_off_def)
    moreover have "free_at m b'" if "b' \<in> snd ` set bs" for b' using snoc.prems(2) [of b'] that by auto
    ultimately obtain bs1 bs2 where "bs = bs1 @ bs2" "agree_off ts (moved m bs1) (fs st')"
        "r = Inr () \<longrightarrow> bs1 = []"
      using snoc.IH [OF ap' _ _ rest] by blast
    then show ?thesis by (intro exI [of _ bs1] exI [of _ "bs2 @ [e]"]) simp
  qed
qed



section \<open>The contract of a promotion\<close>

text \<open>What a promotion relies on: the live artifacts and the two working directories lie apart from each
  other, everything promoted comes from the staging directory and goes to an artifact that was
  moved away before.\<close>

locale promotion =
  fixes artifacts :: "path list" and promotions :: "(path \<times> path) list" and stg bdir :: path
  assumes layout: "apart (stg # bdir # artifacts)"
    and sources_apart: "apart (map fst promotions)"
    and sources_staged: "(s, l) \<in> set promotions \<Longrightarrow> prefix stg s"
    and targets_distinct: "distinct (map snd promotions)"
    and targets_live: "(s, l) \<in> set promotions \<Longrightarrow> l \<in> set artifacts"
begin

definition backup_pairs :: "(path \<times> path) list" where
  "backup_pairs = map (\<lambda>(i, a). (a, bdir @ [decimal i])) (enumerate 0 artifacts)"

definition marker :: path where
  "marker = bdir @ [RETAINED_BACKUP_MARKER]"

lemma fst_pairs: "map fst backup_pairs = artifacts"
  by (simp add: backup_pairs_def comp_def case_prod_unfold)

lemma snd_pairs: "map snd backup_pairs = map (\<lambda>i. bdir @ [decimal i]) [0..<length artifacts]"
proof -
  have "map snd backup_pairs = map (\<lambda>i. bdir @ [decimal i]) (map fst (enumerate 0 artifacts))"
    unfolding backup_pairs_def map_map by (rule map_cong) auto
  then show ?thesis by (simp only: map_fst_enumerate add_0)
qed

lemma retained_not_decimal: "RETAINED_BACKUP_MARKER \<noteq> decimal i"
proof
  assume "RETAINED_BACKUP_MARKER = decimal i"
  then have "CHR ''r'' \<in> set (decimal i)" by (simp add: RETAINED_BACKUP_MARKER_def flip: \<open>_ = decimal i\<close>)
  then show False using decimal_digits [of i] by (auto simp: is_ascii_digit_def list_all_iff)
qed

lemma below_bdir_apart:
  "a \<in> insert stg (set artifacts) \<Longrightarrow> \<not> prefix a (bdir @ q) \<and> \<not> prefix (bdir @ q) (a @ r)"
  using apartD [OF layout, of a bdir q] apartD [OF layout, of bdir a r] apart_distinct [OF layout]
  by (auto dest: append_prefixD)

lemma pairs_apart: "apart (map fst backup_pairs @ map snd backup_pairs @ [stg, marker])"
  unfolding apart_def
proof (intro conjI ballI impI)
  let ?ps = "map fst backup_pairs @ map snd backup_pairs @ [stg, marker]"
  have ins: "set ?ps = set artifacts \<union> {stg} \<union> (\<lambda>n. bdir @ [n]) ` (insert RETAINED_BACKUP_MARKER (decimal ` {0..<length artifacts}))"
    unfolding set_append fst_pairs snd_pairs marker_def by auto
  have no: "bdir @ [n] \<notin> set artifacts" for n
    using below_bdir_apart [of "bdir @ [n]" "[n]" "[]"] by auto
  have stg: "bdir @ [n] \<noteq> stg" for n using below_bdir_apart [of stg "[n]" "[]"] by auto
  have "distinct (map (\<lambda>i. bdir @ [decimal i]) [0..<length artifacts])"
    by (simp add: distinct_map inj_on_def)
  moreover have "stg \<notin> set artifacts" "distinct artifacts" using apart_distinct [OF layout] by auto
  ultimately show "distinct ?ps"
    unfolding snd_pairs fst_pairs marker_def distinct_append
    using no stg stg [symmetric] retained_not_decimal retained_not_decimal [symmetric] by auto
  fix x y assume x: "x \<in> set ?ps" and y: "y \<in> set ?ps" and pre: "prefix x y"
  consider "x \<in> insert stg (set artifacts)" "y \<in> insert stg (set artifacts)"
    | n where "x \<in> insert stg (set artifacts)" "y = bdir @ [n]"
    | n where "x = bdir @ [n]" "y \<in> insert stg (set artifacts)"
    | n k where "x = bdir @ [n]" "y = bdir @ [k]"
    using x y unfolding ins by blast
  then show "x = y"
  proof cases
    case 1
    then show ?thesis using apartD [OF layout, of x y "[]"] pre by auto
  next
    case 2
    then show ?thesis using below_bdir_apart [of x "[n]"] pre by auto
  next
    case 3
    then show ?thesis using below_bdir_apart [of y "[n]" "[]"] pre by auto
  qed (use pre in auto)
qed

text \<open>The artifacts that exist move to their backups; nothing of them is lost as long as each is at
  one of the two places.\<close>

definition present :: "files \<Rightarrow> (path \<times> path) list \<Rightarrow> (path \<times> path) list" where
  "present m ps = filter (\<lambda>(a, _). path_exists m a) ps"

definition kept :: "files \<Rightarrow> files \<Rightarrow> bool" where
  "kept m m' \<longleftrightarrow> (\<forall>(a, b)\<in>set (present m backup_pairs).
     (\<forall>q. map_of m' (a @ q) = map_of m (a @ q)) \<or> (\<forall>q. map_of m' (b @ q) = map_of m (a @ q)))"

lemma keptI:
  assumes "\<And>a b. (a, b) \<in> set (present m backup_pairs) \<Longrightarrow>
      \<not> (\<forall>q. map_of m' (b @ q) = map_of m (a @ q)) \<Longrightarrow> \<forall>q. map_of m' (a @ q) = map_of m (a @ q)"
  shows "kept m m'"
  unfolding kept_def using assms by blast

lemma apart_sub:
  assumes "subseq bs backup_pairs"
  shows "apart (map fst bs @ map snd bs @ [stg, marker])"
proof (rule apart_subset [OF pairs_apart])
  have sub: "subseq (map f bs) (map f backup_pairs)" for f :: "_ \<Rightarrow> path"
    using assms by (rule subseq_map)
  have "subseq (map fst bs @ map snd bs @ [stg, marker]) (map fst backup_pairs @ map snd backup_pairs @ [stg, marker])"
    by (intro list_emb_append_mono sub) simp
  then show "distinct (map fst bs @ map snd bs @ [stg, marker])"
    using apart_distinct [OF pairs_apart] subseq_distinct by blast
  have "set bs \<subseteq> set backup_pairs" using assms by (auto dest: list_emb_set)
  then show "set (map fst bs @ map snd bs @ [stg, marker]) \<subseteq> set (map fst backup_pairs @ map snd backup_pairs @ [stg, marker])"
    unfolding set_append set_map by blast
qed

lemma apart_sub2: "subseq bs backup_pairs \<Longrightarrow> apart (map fst bs @ map snd bs)"
  using apart_distinct [OF apart_sub] by (intro apart_subset [OF apart_sub]) auto

lemma kept_moved:
  assumes "subseq bs backup_pairs" and "agree_off [stg, marker] (moved m bs) m'"
  shows "kept m m'"
proof (rule keptI)
  fix a b assume "(a, b) \<in> set (present m backup_pairs)"
    and nb: "\<not> (\<forall>q. map_of m' (b @ q) = map_of m (a @ q))"
  then have ab: "(a, b) \<in> set backup_pairs" by (simp add: present_def)
  have in_all: "a \<in> set (map fst backup_pairs @ map snd backup_pairs @ [stg, marker])"
      "b \<in> set (map fst backup_pairs @ map snd backup_pairs @ [stg, marker])"
    using ab unfolding set_append set_map by force+
  have off: "map_of m' (x @ q) = map_of (moved m bs) (x @ q)" if "x = a \<or> x = b" for x q
  proof -
    have "x \<in> set (map fst backup_pairs @ map snd backup_pairs)" using ab that by force
    then have "x \<noteq> stg" "x \<noteq> marker" using apart_distinct [OF pairs_apart] by auto
    then have "\<not> prefix stg (x @ q)" "\<not> prefix marker (x @ q)"
      using apartD [OF pairs_apart, of stg x q] apartD [OF pairs_apart, of marker x q] in_all that by auto
    then show ?thesis using assms(2) by (simp add: agree_off_def)
  qed
  have "(a, b) \<notin> set bs"
  proof
    assume "(a, b) \<in> set bs"
    then have "map_of m' (b @ q) = map_of m (a @ q)" for q
      using moved_pair [OF apart_sub2 [OF assms(1)], of a b m q] off [of b q] by simp
    then show False using nb by simp
  qed
  moreover have sub: "set bs \<subseteq> set backup_pairs" using assms(1) by (auto dest: list_emb_set)
  moreover have dist: "distinct (map fst backup_pairs)" "set (map fst backup_pairs) \<inter> set (map snd backup_pairs) = {}"
    using apart_distinct [OF pairs_apart] by auto
  ultimately have "a \<notin> fst ` set bs" using eq_key_imp_eq_value [OF dist(1) ab] by auto
  moreover have "a \<notin> snd ` set bs"
  proof
    assume "a \<in> snd ` set bs"
    then have "a \<in> snd ` set backup_pairs" using sub by blast
    moreover have "a \<in> fst ` set backup_pairs" using ab by force
    ultimately show False using dist(2) unfolding set_map by blast
  qed
  ultimately have fresh: "a \<notin> fst ` set bs \<union> snd ` set bs" by blast
  have "map_of (moved m bs) (a @ q) = map_of m (a @ q)" for q
  proof (intro moved_other)
    fix x assume x: "x \<in> fst ` set bs \<union> snd ` set bs"
    then have "x \<in> set (map fst backup_pairs @ map snd backup_pairs @ [stg, marker])"
      using sub unfolding set_append set_map by blast
    then show "\<not> prefix x (a @ q)" using apartD [OF pairs_apart _ in_all(1)] x fresh by blast
  qed
  then show "\<forall>q. map_of m' (a @ q) = map_of m (a @ q)" using off by simp
qed

lemma present_subseq: "subseq (present m ps) ps"
  by (simp add: present_def)

lemma present_append: "present m (ps @ qs) = present m ps @ present m qs"
  by (simp add: present_def)

text \<open>How a failed promotion leaves the files, by the error it reports.\<close>

fun settled :: "files \<Rightarrow> promote_error \<Rightarrow> files \<Rightarrow> bool" where
  "settled m (RollbackFailed _) m' = kept m m'"
| "settled m _ m' = agree_off [stg, bdir] m m'"

lemma marker_below: "prefix bdir marker"
  by (simp add: marker_def)

lemma agree_off_bdir: "agree_off [stg, marker] m m' \<Longrightarrow> agree_off [stg, bdir] m m'"
  using marker_below by (auto simp: agree_off_def intro: prefix_order.trans)

lemma kept_agree:
  assumes "kept m m'" and "agree_off [stg, marker] m' m''"
  shows "kept m m''"
proof (rule keptI)
  fix a b assume ab: "(a, b) \<in> set (present m backup_pairs)"
    and nb: "\<not> (\<forall>q. map_of m'' (b @ q) = map_of m (a @ q))"
  then have "(a, b) \<in> set backup_pairs" by (simp add: present_def)
  then have mem: "a \<in> set (map fst backup_pairs @ map snd backup_pairs)"
    "b \<in> set (map fst backup_pairs @ map snd backup_pairs)" by force+
  have "map_of m'' (x @ q) = map_of m' (x @ q)" if "x \<in> set (map fst backup_pairs @ map snd backup_pairs)" for x q
  proof -
    have "x \<noteq> stg" "x \<noteq> marker" using apart_distinct [OF pairs_apart] that by auto
    then have "\<not> prefix stg (x @ q)" "\<not> prefix marker (x @ q)"
      using apartD [OF pairs_apart, of stg x q] apartD [OF pairs_apart, of marker x q] that by auto
    then show ?thesis using assms(2) by (simp add: agree_off_def)
  qed
  then show "\<forall>q. map_of m'' (a @ q) = map_of m (a @ q)"
    using mem assms(1) ab nb unfolding kept_def by force
qed

lemma after_rollback_settled:
  assumes "rolled = (r, st)" and "r = Inr () \<Longrightarrow> agree_off [stg, bdir] m (fs st)"
    and "\<And>e. r = Inl e \<Longrightarrow> kept m (fs st)"
    and "\<And>a b e. err \<noteq> RollbackFailed a" and "after_rollback orc bdir live err rolled = (res, st')"
  shows "\<exists>e. res = Inl e \<and> settled m e (fs st')"
proof (cases r)
  case (Inl e)
  obtain w st1 where w: "fs_write orc marker '''' st = (w, st1)" by fastforce
  have "agree_off [stg, marker] (fs st) (fs st1)"
    using agree_write [OF w] by (rule agree_off_mono) simp
  then have "kept m (fs st1)" using assms(3) [OF Inl] kept_agree by blast
  then show ?thesis using assms(1,5) Inl w by (auto simp: after_rollback_def marker_def)
next
  case (Inr u)
  obtain w st1 where w: "fs_remove_dir_all orc bdir st = (w, st1)" by fastforce
  have "agree_off [stg, bdir] (fs st) (fs st1)"
    using agree_remove_dir_all [OF w] by (rule agree_off_mono) simp
  then have "agree_off [stg, bdir] m (fs st1)" using assms(2) Inr agree_off_trans by auto
  then show ?thesis using assms(1,4,5) Inr w by (cases err) (auto simp: after_rollback_def)
qed

text \<open>The backups are free places at first.\<close>

definition backups_free :: "files \<Rightarrow> bool" where
  "backups_free m \<longleftrightarrow> (\<forall>b\<in>set (map snd backup_pairs). free_at m b)"

lemma restore_settled:
  assumes free: "backups_free m" and sub: "subseq bs backup_pairs"
    and eq: "agree_off [stg, marker] (moved m bs) (fs st)"
    and rest: "restore_main_store_backups orc bs st = (r, st1)"
  shows "(r = Inr () \<longrightarrow> agree_off [stg, bdir] m (fs st1)) \<and> kept m (fs st1)"
proof -
  have "free_at m b" if "b \<in> snd ` set bs" for b
  proof -
    have "set bs \<subseteq> set backup_pairs" using sub by (auto dest: list_emb_set)
    then have "b \<in> set (map snd backup_pairs)" using that by auto
    then show ?thesis using free unfolding backups_free_def by blast
  qed
  from restore_loop_spec [OF apart_sub [OF sub] this eq rest [unfolded restore_main_store_backups_def]]
  obtain bs1 bs2 where bs: "bs = bs1 @ bs2" and ag: "agree_off [stg, marker] (moved m bs1) (fs st1)"
    and ok: "r = Inr () \<longrightarrow> bs1 = []" by auto
  have "subseq bs1 bs" unfolding bs by (rule prefix_imp_subseq) simp
  then have "subseq bs1 backup_pairs" using sub by (rule subseq_order.trans)
  then have "kept m (fs st1)" using kept_moved ag by blast
  then show ?thesis using ag ok agree_off_bdir by auto
qed

lemma backup_loop_spec:
  assumes "backups_free m" and "enumerate 0 artifacts = done @ items"
    and "bs = present m (map (\<lambda>(i, a). (a, bdir @ [decimal i])) done)" and "fs st = moved m bs"
    and "backup_loop orc bdir items bs st = (res, st')"
  shows "(\<exists>e. res = Inl e \<and> settled m e (fs st'))
     \<or> (res = Inr (present m backup_pairs) \<and> fs st' = moved m (present m backup_pairs))"
  using assms(2-5)
proof (induction items arbitrary: "done" bs st)
  case Nil
  then show ?case by (simp add: backup_pairs_def)
next
  case (Cons item items)
  obtain i a where item: "item = (i, a)" by (cases item)
  let ?pe = "map (\<lambda>(i, a). (a, bdir @ [decimal i]))"
  have all: "backup_pairs = ?pe done @ (a, bdir @ [decimal i]) # ?pe items"
    using Cons.prems(1) item by (simp add: backup_pairs_def)
  have sub: "subseq bs backup_pairs"
    unfolding all Cons.prems(2) by (rule subseq_order.trans [OF present_subseq]) (rule prefix_imp_subseq, simp)
  have untouched: "path_exists (fs st) a \<longleftrightarrow> path_exists m a"
  proof -
    have "\<not> prefix x (a @ [])" if x: "x \<in> fst ` set bs \<union> snd ` set bs" for x
    proof -
      have "set bs \<subseteq> set (?pe done)" using Cons.prems(2) by (auto simp: present_def)
      then have mem: "x \<in> set (map fst (?pe done) @ map snd (?pe done))"
        using x unfolding set_append set_map by blast
      have "x \<noteq> a" using apart_distinct [OF pairs_apart] mem unfolding all by auto
      moreover have "x \<in> set (map fst backup_pairs @ map snd backup_pairs @ [stg, marker])"
        "a \<in> set (map fst backup_pairs @ map snd backup_pairs @ [stg, marker])"
        using mem unfolding all by auto
      ultimately show ?thesis using apartD [OF pairs_apart, of x a "[]"] by blast
    qed
    then have "map_of (moved m bs) a = map_of m a" by (intro moved_other) auto
    then show ?thesis using Cons.prems(3) by (simp add: path_exists_def)
  qed
  have next_done: "enumerate 0 artifacts = (done @ [item]) @ items" using Cons.prems(1) by simp
  show ?case
  proof (cases "path_exists m a")
    case False
    then have "bs = present m (?pe (done @ [item]))"
      using Cons.prems(2) item by (simp add: present_def)
    then show ?thesis
      using Cons.IH [OF next_done _ Cons.prems(3)] Cons.prems(4) False untouched item by simp
  next
    case True
    let ?b = "bdir @ [decimal i]"
    obtain r1 st1 where r1: "fs_rename orc a ?b st = (r1, st1)" by fastforce
    show ?thesis
    proof (cases r1)
      case (Inr u)
      have "bs @ [(a, ?b)] = present m (?pe (done @ [item]))"
        using Cons.prems(2) True item by (simp add: present_def)
      moreover have "fs st1 = moved m (bs @ [(a, ?b)])"
        using rename_result(1) r1 Inr Cons.prems(3) by (auto simp: moved_snoc)
      ultimately show ?thesis
        using Cons.IH [OF next_done] Cons.prems(4) True untouched item r1 Inr by simp
    next
      case (Inl e)
      obtain r2 st2 where r2: "restore_main_store_backups orc bs st1 = (r2, st2)" by fastforce
      have "agree_off [stg, marker] (moved m bs) (fs st1)"
        using rename_result(2) r1 Inl Cons.prems(3) by auto
      from restore_settled [OF assms(1) sub this r2]
      have "\<exists>e. res = Inl e \<and> settled m e (fs st')"
        using Cons.prems(4) True untouched item r1 Inl r2
        by (intro after_rollback_settled [of "(r2, st2)" r2 st2 m "PreserveFailed a e" orc a]) auto
      then show ?thesis ..
    qed
  qed
qed

text \<open>The state after the backups: every live artifact is free, the staging directory is untouched.\<close>

abbreviation backed :: "files \<Rightarrow> files" where
  "backed m \<equiv> moved m (present m backup_pairs)"

lemma artifact_in_all: "a \<in> set artifacts \<Longrightarrow> a \<in> set (map fst backup_pairs @ map snd backup_pairs @ [stg, marker])"
  by (simp add: fst_pairs [unfolded set_map] fst_pairs)

lemma backed_untouched:
  assumes "\<And>x. x \<in> set (map fst (present m backup_pairs) @ map snd backup_pairs) \<Longrightarrow> \<not> prefix x p"
  shows "map_of (backed m) p = map_of m p"
proof (rule moved_other)
  fix x assume "x \<in> fst ` set (present m backup_pairs) \<union> snd ` set (present m backup_pairs)"
  then have "x \<in> set (map fst (present m backup_pairs) @ map snd backup_pairs)"
    by (auto simp: present_def)
  then show "\<not> prefix x p" by (rule assms)
qed

lemma backed_live_free:
  assumes "tree_wf m" and "a \<in> set artifacts"
  shows "map_of (backed m) (a @ q) = None"
proof (cases "path_exists m a")
  case True
  have "a \<in> set (map fst backup_pairs)" using assms(2) fst_pairs by simp
  then obtain b where "(a, b) \<in> set backup_pairs" by auto
  then have "(a, b) \<in> set (present m backup_pairs)" using True by (simp add: present_def)
  then show ?thesis using moved_pair [OF apart_sub2 [OF present_subseq]] by blast
next
  case False
  have "map_of (backed m) (a @ q) = map_of m (a @ q)"
  proof (rule backed_untouched)
    fix x assume x: "x \<in> set (map fst (present m backup_pairs) @ map snd backup_pairs)"
    have "x \<noteq> a"
    proof
      assume "x = a"
      then have "a \<in> snd ` set backup_pairs" using x False by (auto simp: present_def path_exists_def)
      then show False using apart_distinct [OF pairs_apart] assms(2) unfolding fst_pairs by auto
    qed
    moreover have "x \<in> set (map fst backup_pairs @ map snd backup_pairs @ [stg, marker])"
      using x by (auto simp: present_def)
    ultimately show "\<not> prefix x (a @ q)" using apartD [OF pairs_apart _ artifact_in_all [OF assms(2)]] by blast
  qed
  moreover have "free_at m a" using False tree_wf_free [OF assms(1)] by (simp add: path_exists_def)
  ultimately show ?thesis by (simp add: free_at_iff)
qed

lemma backed_staged: "map_of (backed m) (stg @ q) = map_of m (stg @ q)"
proof (rule backed_untouched)
  fix x assume x: "x \<in> set (map fst (present m backup_pairs) @ map snd backup_pairs)"
  then have mem: "x \<in> set (map fst backup_pairs @ map snd backup_pairs)" by (auto simp: present_def)
  then have "x \<noteq> stg" using apart_distinct [OF pairs_apart] by auto
  then show "\<not> prefix x (stg @ q)" using apartD [OF pairs_apart, of x stg q] mem by auto
qed

lemma backed_source:
  assumes "(s, l) \<in> set promotions"
  shows "map_of (backed m) (s @ q) = map_of m (s @ q)"
proof -
  obtain x where "s = stg @ x" using sources_staged [OF assms] by (auto simp: prefix_def)
  then show ?thesis using backed_staged [of m "x @ q"] by simp
qed

lemma live_not_staged: "l \<in> set artifacts \<Longrightarrow> prefix stg x \<Longrightarrow> \<not> prefix x (l @ q)"
  using apartD [OF layout, of stg l q] apart_distinct [OF layout]
  by (auto dest: prefix_order.trans)

lemma staged_not_live: "l \<in> set artifacts \<Longrightarrow> prefix stg s \<Longrightarrow> \<not> prefix l (s @ q)"
  using apartD [OF layout, of l stg] apart_distinct [OF layout] by (fastforce simp: prefix_def)

lemma kept_dirty:
  assumes "set ls \<subseteq> set artifacts" and "agree_off (stg # ls) (backed m) m'"
  shows "kept m m'"
proof (rule keptI)
  fix a b assume ab: "(a, b) \<in> set (present m backup_pairs)"
    and nb: "\<not> (\<forall>q. map_of m' (b @ q) = map_of m (a @ q))"
  have b: "b \<in> set (map snd backup_pairs)" using ab by (force simp: present_def)
  have "map_of m' (b @ q) = map_of m (a @ q)" for q
  proof -
    have "\<not> prefix t (b @ q)" if "t \<in> set (stg # ls)" for t
    proof -
      obtain n where n: "b = bdir @ [n]" using b unfolding snd_pairs by auto
      then show ?thesis using below_bdir_apart [of t "n # q"] that assms(1) by auto
    qed
    then have "map_of m' (b @ q) = map_of (backed m) (b @ q)" using assms(2) by (simp add: agree_off_def)
    then show ?thesis using moved_pair [OF apart_sub2 [OF present_subseq] ab] by simp
  qed
  then show "\<forall>q. map_of m' (a @ q) = map_of m (a @ q)" using nb by blast
qed

lemma remove_loop_spec:
  assumes "set ps \<subseteq> set artifacts" and "distinct ps"
    and "\<And>l q. l \<in> set ps \<Longrightarrow> map_of (fs st) l \<noteq> Some DirNode \<Longrightarrow> q \<noteq> [] \<Longrightarrow> map_of (fs st) (l @ q) = None"
    and "remove_loop orc ps st = (r, st')"
  shows "agree_off ps (fs st) (fs st') \<and> (r = Inr () \<longrightarrow> (\<forall>l\<in>set ps. \<forall>q. map_of (fs st') (l @ q) = None))"
  using assms
proof (induction ps arbitrary: st)
  case Nil
  then show ?case by simp
next
  case (Cons p ps)
  obtain r1 st1 where r1: "remove_path_if_exists orc p st = (r1, st1)" by fastforce
  have one: "agree_off [p] (fs st) (fs st1)"
    using r1 agree_remove_dir_all agree_remove_file by (auto simp: remove_path_if_exists_def split: if_splits)
  show ?case
  proof (cases r1)
    case (Inl e)
    then have "st' = st1" "r = Inl e" using Cons.prems(4) r1 by auto
    then show ?thesis using one by (auto intro: agree_off_mono)
  next
    case (Inr u)
    have other: "\<not> prefix p (l @ q)" "\<not> prefix l (p @ q)" if "l \<in> set ps" for l q
      using apartD [OF layout, of p l q] apartD [OF layout, of l p q] that Cons.prems(1,2) by auto
    have gone: "map_of (fs st1) (p @ q) = None" for q
      using r1 Inr Cons.prems(3) [of p q]
      by (cases "q = []") (auto simp: remove_path_if_exists_def fs_remove_dir_all_def fs_remove_file_def
          is_dir_def path_exists_def lookup_remove_tree split: if_splits)
    have same: "map_of (fs st1) (l @ q) = map_of (fs st) (l @ q)" if "l \<in> set ps" for l q
      using one other(1) [OF that] by (simp add: agree_off_def)
    have "agree_off ps (fs st1) (fs st') \<and> (r = Inr () \<longrightarrow> (\<forall>l\<in>set ps. \<forall>q. map_of (fs st') (l @ q) = None))"
      using Cons.prems r1 Inr same same [where q = "[]"] by (intro Cons.IH) auto
    moreover have "map_of (fs st') (p @ q) = None" if "agree_off ps (fs st1) (fs st')" for q
      using that gone other(2) by (simp add: agree_off_def)
    ultimately show ?thesis
      using one by (auto simp: agree_off_def)
  qed
qed

lemma rollback_settled:
  assumes free: "backups_free m" and wf: "tree_wf m" and ls: "set ls \<subseteq> set artifacts" "distinct ls"
    and ag: "agree_off (stg # ls) (backed m) (fs st)"
    and leaf: "\<And>l q. l \<in> set ls \<Longrightarrow> map_of (fs st) l \<noteq> Some DirNode \<Longrightarrow> q \<noteq> [] \<Longrightarrow> map_of (fs st) (l @ q) = None"
    and roll: "rollback_main_store orc ls (present m backup_pairs) st = (r, st')"
  shows "(r = Inr () \<longrightarrow> agree_off [stg, bdir] m (fs st')) \<and> kept m (fs st')"
proof -
  obtain r1 st1 where r1: "remove_loop orc (rev ls) st = (r1, st1)" by fastforce
  have rem: "agree_off (rev ls) (fs st) (fs st1)" "r1 = Inr () \<longrightarrow> (\<forall>l\<in>set ls. \<forall>q. map_of (fs st1) (l @ q) = None)"
    using remove_loop_spec [of "rev ls" st orc r1 st1] ls leaf r1 by auto
  have dirty: "agree_off (stg # ls) (backed m) (fs st1)"
    using ag rem(1) by (auto simp: agree_off_def)
  show ?thesis
  proof (cases r1)
    case (Inl e)
    then show ?thesis using roll r1 kept_dirty [OF ls(1) dirty] by (auto simp: rollback_main_store_def)
  next
    case (Inr u)
    have "agree_off [stg, marker] (backed m) (fs st1)"
      unfolding agree_off_def
    proof (intro allI impI)
      fix p assume p: "\<forall>t\<in>set [stg, marker]. \<not> prefix t p"
      show "map_of (fs st1) p = map_of (backed m) p"
      proof (cases "\<exists>l\<in>set ls. prefix l p")
        case True
        then obtain l q where l: "l \<in> set ls" "p = l @ q" by (auto simp: prefix_def)
        then show ?thesis using rem(2) Inr backed_live_free [OF wf, of l q] ls(1) by auto
      next
        case False
        then show ?thesis using dirty p by (auto simp: agree_off_def)
      qed
    qed
    then show ?thesis
      using restore_settled [OF free present_subseq] roll r1 Inr by (auto simp: rollback_main_store_def)
  qed
qed

lemma source_leaf:
  assumes "tree_wf m" and "(s, l) \<in> set promotions" and "map_of (backed m) s \<noteq> Some DirNode" and "q \<noteq> []"
  shows "map_of (backed m) (s @ q) = None"
  using tree_wf_below [OF assms(1), of s q] backed_source [OF assms(2), of m] backed_source [OF assms(2), of m "[]"]
    assms(3,4) by simp

lemma promote_loop_spec:
  assumes free: "backups_free m" and wf: "tree_wf m"
    and "promotions = pre @ rest"
    and "agree_off (stg # map snd pre) (backed m) (fs st)"
    and "\<And>s l q. (s, l) \<in> set pre \<Longrightarrow> map_of (fs st) (l @ q) = map_of (backed m) (s @ q)"
    and "\<And>s l q. (s, l) \<in> set rest \<Longrightarrow> map_of (fs st) (s @ q) = map_of (backed m) (s @ q)"
    and "promote_loop orc bdir (present m backup_pairs) (map snd pre) rest st = (res, st')"
  shows "(\<exists>e. res = Inl e \<and> settled m e (fs st'))
     \<or> (res = Inr () \<and> agree_off (stg # map snd promotions) (backed m) (fs st')
        \<and> (\<forall>(s, l)\<in>set promotions. \<forall>q. map_of (fs st') (l @ q) = map_of (backed m) (s @ q)))"
  using assms(3-7)
proof (induction rest arbitrary: pre st)
  case Nil
  then show ?case by auto
next
  case (Cons e rest)
  obtain s l where e: "e = (s, l)" by (cases e)
  have sl: "(s, l) \<in> set promotions" using Cons.prems(1) e by simp
  have l: "l \<in> set artifacts" and s: "prefix stg s" using targets_live [OF sl] sources_staged [OF sl] by auto
  have pre_sub: "set pre \<subseteq> set promotions" using Cons.prems(1) by auto
  obtain r1 st1 where r1: "fs_rename orc s l st = (r1, st1)" by fastforce
  show ?case
  proof (cases r1)
    case (Inl err)
    have st1: "fs st1 = fs st" using rename_result(2) r1 Inl by auto
    obtain r2 st2 where r2: "rollback_main_store orc (map snd pre) (present m backup_pairs) st1 = (r2, st2)" by fastforce
    have "set (map snd pre) \<subseteq> set artifacts" using pre_sub targets_live by auto
    moreover have "distinct (map snd pre)" using targets_distinct Cons.prems(1) by simp
    moreover have "map_of (fs st1) (l' @ q) = None"
      if l': "l' \<in> set (map snd pre)" "map_of (fs st1) l' \<noteq> Some DirNode" "q \<noteq> []" for l' q
    proof -
      obtain s' where s': "(s', l') \<in> set pre" using l'(1) by auto
      then show ?thesis
        using Cons.prems(3) [OF s', of "[]"] Cons.prems(3) [OF s', of q] source_leaf [OF wf, of s' l' q] l' st1 pre_sub
        by auto
    qed
    ultimately have "(r2 = Inr () \<longrightarrow> agree_off [stg, bdir] m (fs st2)) \<and> kept m (fs st2)"
      using rollback_settled [OF free wf _ _ _ _ r2] Cons.prems(2) st1 by auto
    then have "\<exists>e. res = Inl e \<and> settled m e (fs st')"
      using Cons.prems(5) e r1 Inl r2
      by (intro after_rollback_settled [of "(r2, st2)" r2 st2 m "PromoteFailed s l err" orc l]) auto
    then show ?thesis ..
  next
    case (Inr u)
    have st1: "fs st1 = move_tree s l (fs st)" using rename_result(1) r1 Inr by auto
    have s_off: "\<not> prefix s (l' @ q)" if "l' \<in> set artifacts" for l' q using live_not_staged [OF that s] .
    have keep: "\<not> prefix l (l' @ q)" if "(s', l') \<in> set pre" for s' l' q
    proof -
      have "l \<notin> set (map snd pre)" using targets_distinct Cons.prems(1) e by simp
      then have "l' \<noteq> l" using that by force
      then show ?thesis
        using apartD [OF layout, of l l' q] l targets_live [of s' l'] that pre_sub by auto
    qed
    have "promotions = (pre @ [e]) @ rest" using Cons.prems(1) by simp
    moreover have "agree_off (stg # map snd (pre @ [e])) (backed m) (fs st1)"
      using Cons.prems(2) s unfolding st1 agree_off_def e
      by (auto simp: lookup_move_tree dest: prefix_order.trans)
    moreover have "map_of (fs st1) (l' @ q) = map_of (backed m) (s' @ q)"
      if m: "(s', l') \<in> set (pre @ [e])" for s' l' q
    proof (cases "(s', l') \<in> set pre")
      case True
      then have "l' \<in> set artifacts" using pre_sub targets_live by blast
      then show ?thesis using Cons.prems(3) [OF True] keep [OF True] s_off by (simp add: st1 lookup_move_tree)
    next
      case False
      then have "s' = s" "l' = l" using m e by auto
      then show ?thesis using Cons.prems(4) [of s l q] e by (simp add: st1 lookup_move_tree)
    qed
    moreover have "map_of (fs st1) (s' @ q) = map_of (backed m) (s' @ q)" if m: "(s', l') \<in> set rest" for s' l' q
    proof -
      have in_p: "(s', l') \<in> set promotions" using m Cons.prems(1) by simp
      have "s \<notin> set (map fst rest)" using apart_distinct [OF sources_apart] Cons.prems(1) e by simp
      then have "s' \<noteq> s" using m by force
      moreover have "s \<in> set (map fst promotions)" "s' \<in> set (map fst promotions)" using sl in_p by force+
      ultimately have "\<not> prefix s (s' @ q)" using apartD [OF sources_apart, of s s' q] by blast
      moreover have "\<not> prefix l (s' @ q)" using staged_not_live [OF l sources_staged [OF in_p]] .
      ultimately show ?thesis using Cons.prems(4) [of s' l' q] m by (simp add: st1 lookup_move_tree)
    qed
    moreover have "promote_loop orc bdir (present m backup_pairs) (map snd (pre @ [e])) rest st1 = (res, st')"
      using Cons.prems(5) e r1 Inr by simp
    ultimately show ?thesis by (rule Cons.IH)
  qed
qed

text \<open>Both loops together, from the state \<open>m\<close> with the fresh backup directory.\<close>

lemma loops_spec:
  assumes "backups_free m" and "tree_wf m" and "fs st = m"
    and "backup_loop orc bdir (enumerate 0 artifacts) [] st = (res1, st1)"
  shows "(\<exists>e. res1 = Inl e \<and> settled m e (fs st1))
     \<or> (\<exists>backups. res1 = Inr backups \<and>
          (\<forall>res2 st2. promote_loop orc bdir backups [] promotions st1 = (res2, st2) \<longrightarrow>
             (\<exists>e. res2 = Inl e \<and> settled m e (fs st2))
             \<or> (res2 = Inr () \<and> agree_off (stg # map snd promotions) (backed m) (fs st2)
                \<and> (\<forall>(s, l)\<in>set promotions. \<forall>q. map_of (fs st2) (l @ q) = map_of m (s @ q)))))"
proof -
  have "(\<exists>e. res1 = Inl e \<and> settled m e (fs st1))
     \<or> (res1 = Inr (present m backup_pairs) \<and> fs st1 = backed m)"
    using backup_loop_spec [of m "[]" "enumerate 0 artifacts" "[]" st orc res1 st1] assms
    by (simp add: present_def)
  then show ?thesis
  proof
    assume ok: "res1 = Inr (present m backup_pairs) \<and> fs st1 = backed m"
    have "(\<exists>e. res2 = Inl e \<and> settled m e (fs st2))
       \<or> (res2 = Inr () \<and> agree_off (stg # map snd promotions) (backed m) (fs st2)
          \<and> (\<forall>(s, l)\<in>set promotions. \<forall>q. map_of (fs st2) (l @ q) = map_of m (s @ q)))"
      if run: "promote_loop orc bdir (present m backup_pairs) [] promotions st1 = (res2, st2)" for res2 st2
      using promote_loop_spec [OF assms(1,2), of "[]" promotions st1 orc res2 st2] ok run backed_source
      by fastforce
    then show ?thesis using ok by blast
  qed blast
qed

text \<open>The installed state: every promoted artifact is the staged one, every other artifact is gone,
  and nothing else outside the working directories changed.\<close>

definition installed :: "files \<Rightarrow> files \<Rightarrow> bool" where
  "installed m m' \<longleftrightarrow>
     (\<forall>(s, l)\<in>set promotions. \<forall>q. map_of m' (l @ q) = map_of m (s @ q))
     \<and> (\<forall>a\<in>set artifacts. a \<notin> snd ` set promotions \<longrightarrow> (\<forall>q. map_of m' (a @ q) = None))
     \<and> agree_off (stg # bdir # artifacts) m m'"

lemma artifact_off_bdir: "a \<in> set artifacts \<Longrightarrow> \<not> prefix bdir (a @ q) \<and> \<not> prefix stg (a @ q)"
  using apartD [OF layout, of bdir a q] apartD [OF layout, of stg a q] apart_distinct [OF layout] by auto

lemma loops_installed:
  assumes wf: "tree_wf m" and ag: "agree_off (stg # map snd promotions) (backed m) m1"
    and new: "\<forall>(s, l)\<in>set promotions. \<forall>q. map_of m1 (l @ q) = map_of m (s @ q)"
    and clean: "agree_off [stg, bdir] m1 m'"
  shows "installed m m'"
proof -
  have same: "map_of m' (a @ q) = map_of m1 (a @ q)" if "a \<in> set artifacts" for a q
    using artifact_off_bdir [OF that] clean by (simp add: agree_off_def)
  have "map_of m' (a @ q) = None" if a: "a \<in> set artifacts" "a \<notin> snd ` set promotions" for a q
  proof -
    have "\<not> prefix t (a @ q)" if "t \<in> set (stg # map snd promotions)" for t
    proof (cases "t = stg")
      case False
      then have "t \<in> set artifacts" "t \<noteq> a" using that a targets_live by auto
      then show ?thesis using apartD [OF layout, of t a q] a by auto
    qed (use artifact_off_bdir a in blast)
    then have "map_of m1 (a @ q) = map_of (backed m) (a @ q)" using ag by (simp add: agree_off_def)
    then show ?thesis using same [OF a(1)] backed_live_free [OF wf a(1)] by simp
  qed
  moreover have "agree_off (stg # bdir # artifacts) m m'"
    unfolding agree_off_def
  proof (intro allI impI)
    fix p assume p: "\<forall>t\<in>set (stg # bdir # artifacts). \<not> prefix t p"
    have "map_of (backed m) p = map_of m p"
    proof (rule backed_untouched)
      fix x assume x: "x \<in> set (map fst (present m backup_pairs) @ map snd backup_pairs)"
      show "\<not> prefix x p"
      proof (cases "x \<in> set (map snd backup_pairs)")
        case True
        then show ?thesis using p unfolding snd_pairs by (auto dest: append_prefixD)
      next
        case False
        then have "x \<in> set (map fst backup_pairs)" using x by (auto simp: present_def)
        then show ?thesis using p unfolding fst_pairs by auto
      qed
    qed
    moreover have "map_of m1 p = map_of (backed m) p" using ag p targets_live by (fastforce simp: agree_off_def)
    ultimately show "map_of m' p = map_of m p" using clean p by (simp add: agree_off_def)
  qed
  moreover have "\<forall>(s, l)\<in>set promotions. \<forall>q. map_of m' (l @ q) = map_of m (s @ q)"
    using new same targets_live by fastforce
  ultimately show ?thesis unfolding installed_def by blast
qed

lemma kept_source:
  assumes "\<And>a q. a \<in> set artifacts \<Longrightarrow> map_of m (a @ q) = map_of m0 (a @ q)" and "kept m m'"
  shows "kept m0 m'"
proof -
  have art: "a \<in> set artifacts" if "(a, b) \<in> set backup_pairs" for a b
    using that fst_pairs by (metis fst_conv image_eqI set_map)
  have "present m0 backup_pairs = present m backup_pairs"
    unfolding present_def using assms(1) [of _ "[]"] art by (intro filter_cong) (auto simp: path_exists_def)
  moreover have "(\<forall>q. map_of m' (a @ q) = map_of m (a @ q)) \<or> (\<forall>q. map_of m' (b @ q) = map_of m (a @ q))"
    if "(a, b) \<in> set (present m backup_pairs)" for a b
    using assms(2) that unfolding kept_def by blast
  moreover have "map_of m (a @ q) = map_of m0 (a @ q)" if "(a, b) \<in> set (present m backup_pairs)" for a b q
    using assms(1) [OF art [of a b]] that by (simp add: present_def)
  ultimately show ?thesis unfolding kept_def by force
qed

lemma settled_source:
  assumes "agree_off [stg, bdir] m0 m" and "settled m e m'"
  shows "settled m0 e m'"
proof -
  have "map_of m (a @ q) = map_of m0 (a @ q)" if "a \<in> set artifacts" for a q
    using artifact_off_bdir [OF that] assms(1) by (simp add: agree_off_def)
  then show ?thesis
    using assms kept_source [of m m0 m'] by (cases e) (auto intro: agree_off_trans)
qed

lemma settled_drop:
  assumes "settled m e m'" and "agree_off [stg] m' m''"
  shows "settled m e m''"
proof -
  have "agree_off [stg, bdir] m' m''" "agree_off [stg, marker] m' m''"
    using assms(2) by (auto intro: agree_off_mono)
  then show ?thesis using assms(1) kept_agree by (cases e) (auto intro: agree_off_trans)
qed

text \<open>The files before the loops: the staged incarnation and the backup directory are new.\<close>

definition prepared :: "path \<Rightarrow> string \<Rightarrow> files \<Rightarrow> files \<Rightarrow> bool" where
  "prepared inc_path inc m0 m \<longleftrightarrow>
     map_of m = (map_of m0)(inc_path \<mapsto> FileNode inc, bdir \<mapsto> DirNode)"

lemma promote_stores_spec:
  assumes wf: "tree_wf (fs st)" and paths: "stg = stg_dir s" "bdir = index_dir @ [BACKUP_DIR_PREFIX @ backup_id]"
    and proms: "promotions = (stg_dir s @ [''index_incarnation''], index_dir @ [''index_incarnation'']) # proms"
    and run: "promote_stores orc index_dir inc backup_id s artifacts proms st = (res, st')"
  shows "(\<exists>e. res = Inl e \<and> settled (fs st) e (fs st'))
     \<or> (res = Inr () \<and> (\<exists>m. prepared (stg @ [''index_incarnation'']) inc (fs st) m \<and> installed m (fs st')))"
proof -
  let ?inc = "stg @ [''index_incarnation'']"
  have proms': "(stg @ [''index_incarnation''], index_dir @ [''index_incarnation'']) # proms = promotions"
    using proms paths by simp
  note run' = run [unfolded promote_stores_def Let_def paths [symmetric] proms']
  obtain r1 st1 where r1: "fs_write orc ?inc inc st = (r1, st1)" by fastforce
  obtain r2 st2 where r2: "fs_create_dir orc bdir st1 = (r2, st2)" by fastforce
  obtain r3 st3 where r3: "backup_loop orc bdir (enumerate 0 artifacts) [] st2 = (r3, st3)" by fastforce
  have a1: "agree_off [stg, bdir] (fs st) (fs st1)"
    using agree_write [OF r1] by (auto simp: agree_off_def prefix_def)
  have a2: "agree_off [stg, bdir] (fs st) (fs st2)"
    using a1 agree_create_dir [OF r2] by (auto simp: agree_off_def)
  have wf2: "tree_wf (fs st2)" using wf wf_write [OF r1] wf_create_dir [OF r2] by blast
  show ?thesis
  proof (cases "r1 = Inr () \<and> r2 = Inr ()")
    case False
    then consider e where "r1 = Inl e" | e where "r1 = Inr ()" "r2 = Inl e" by (cases r1; cases r2) auto
    then show ?thesis
    proof cases
      case 1
      then show ?thesis using run' r1 a1 by auto
    next
      case 2
      then show ?thesis using run' r1 r2 a2 by auto
    qed
  next
    case True
    have fresh: "map_of (fs st1) bdir = None" and m2: "map_of (fs st2) = (map_of (fs st1))(bdir \<mapsto> DirNode)"
      using r2 True by (auto simp: fs_create_dir_def path_exists_def split: if_splits)
    have prep: "prepared ?inc inc (fs st) (fs st2)"
      using r1 True m2 by (auto simp: prepared_def fs_write_def split: if_splits)
    have "free_at (fs st1) bdir" using tree_wf_free [OF wf_write [OF r1 wf] fresh] .
    then have "backups_free (fs st2)"
      using m2 unfolding backups_free_def snd_pairs by (auto simp: free_at_iff)
    from loops_spec [OF this wf2 refl r3]
    show ?thesis
    proof
      assume "\<exists>e. r3 = Inl e \<and> settled (fs st2) e (fs st3)"
      then show ?thesis using run' r1 r2 r3 True settled_source [OF a2] by auto
    next
      assume "\<exists>backups. r3 = Inr backups \<and>
          (\<forall>res2 st2'. promote_loop orc bdir backups [] promotions st3 = (res2, st2') \<longrightarrow>
             (\<exists>e. res2 = Inl e \<and> settled (fs st2) e (fs st2'))
             \<or> (res2 = Inr () \<and> agree_off (stg # map snd promotions) (backed (fs st2)) (fs st2')
                \<and> (\<forall>(s, l)\<in>set promotions. \<forall>q. map_of (fs st2') (l @ q) = map_of (fs st2) (s @ q))))"
      then obtain backups where b: "r3 = Inr backups" and next_ok: "\<And>res2 st2'.
          promote_loop orc bdir backups [] promotions st3 = (res2, st2') \<Longrightarrow>
             (\<exists>e. res2 = Inl e \<and> settled (fs st2) e (fs st2'))
             \<or> (res2 = Inr () \<and> agree_off (stg # map snd promotions) (backed (fs st2)) (fs st2')
                \<and> (\<forall>(s, l)\<in>set promotions. \<forall>q. map_of (fs st2') (l @ q) = map_of (fs st2) (s @ q)))"
        by blast
      obtain r4 st4 where r4: "promote_loop orc bdir backups [] promotions st3 = (r4, st4)" by fastforce
      have eq: "(res, st') = (case r4 of Inl err \<Rightarrow> (Inl err, st4)
          | Inr _ \<Rightarrow> (Inr (), snd (fs_remove_dir_all orc bdir st4)))"
        using run' r1 r2 r3 r4 True b by (auto split: sum.splits)
      from next_ok [OF r4] show ?thesis
      proof
        assume "\<exists>e. r4 = Inl e \<and> settled (fs st2) e (fs st4)"
        then show ?thesis using eq settled_source [OF a2] by auto
      next
        assume ok: "r4 = Inr () \<and> agree_off (stg # map snd promotions) (backed (fs st2)) (fs st4)
                \<and> (\<forall>(s, l)\<in>set promotions. \<forall>q. map_of (fs st4) (l @ q) = map_of (fs st2) (s @ q))"
        have "agree_off [bdir] (fs st4) (fs st')"
          using eq ok agree_remove_dir_all [of orc bdir st4] by (simp add: prod_eq_iff)
        then have "agree_off [stg, bdir] (fs st4) (fs st')" by (rule agree_off_mono) simp
        then have "installed (fs st2) (fs st')" using loops_installed [OF wf2] ok by blast
        then show ?thesis using eq ok prep by auto
      qed
    qed
  qed
qed

lemma promote_artifacts_spec:
  assumes wf: "tree_wf (fs st)" and paths: "stg = stg_dir s" "bdir = index_dir @ [BACKUP_DIR_PREFIX @ backup_id]"
    and proms: "promotions = (stg_dir s @ [''index_incarnation''], index_dir @ [''index_incarnation'']) # proms"
    and run: "promote_artifacts orc index_dir inc backup_id s artifacts proms st = (res, st')"
  shows "(\<exists>e. res = Inl e \<and> settled (fs st) e (fs st'))
     \<or> (res = Inr () \<and> (\<exists>m. prepared (stg @ [''index_incarnation'']) inc (fs st) m \<and> installed m (fs st')))"
proof -
  obtain r1 st1 where r1: "promote_stores orc index_dir inc backup_id s artifacts proms st = (r1, st1)" by fastforce
  have drop: "agree_off [stg] (fs x) (fs (staging_drop orc s x))" for x
    using agree_remove_dir_all [of orc stg x] paths(1) by (simp add: staging_drop_def prod_eq_iff)
  have refused: "settled (fs st) (MissingStaged p) (fs (staging_drop orc s st))" for p
    using agree_off_mono [OF drop, of "[stg, bdir]"] by simp
  have "installed m (fs (staging_drop orc s st1))" if inst: "installed m (fs st1)" for m
  proof -
    have same: "map_of (fs (staging_drop orc s st1)) (a @ q) = map_of (fs st1) (a @ q)" if "a \<in> set artifacts" for a q
      using drop artifact_off_bdir [OF that] by (simp add: agree_off_def)
    moreover have "agree_off (stg # bdir # artifacts) (fs st1) (fs (staging_drop orc s st1))"
      using drop by (rule agree_off_mono) simp
    ultimately show ?thesis
      using inst targets_live unfolding installed_def by (fastforce intro: agree_off_trans)
  qed
  then show ?thesis
    using promote_stores_spec [OF wf paths proms r1] run r1 refused settled_drop [OF _ drop]
    unfolding promote_artifacts_def Let_def
    by (auto split: if_splits simp del: settled.simps)
qed

text \<open>The same, by cases and without the notions of this context.\<close>

lemma promote_cases:
  assumes wf: "tree_wf (fs st)" and paths: "stg = stg_dir s" "bdir = index_dir @ [BACKUP_DIR_PREFIX @ backup_id]"
    and proms: "promotions = (stg_dir s @ [''index_incarnation''], index_dir @ [''index_incarnation'']) # proms"
    and run: "promote_artifacts orc index_dir inc backup_id s artifacts proms st = (res, st')"
  obtains (installs) m where "res = Inr ()"
      "map_of m = (map_of (fs st))(stg @ [''index_incarnation''] \<mapsto> FileNode inc, bdir \<mapsto> DirNode)"
      "\<And>s l q. (s, l) \<in> set promotions \<Longrightarrow> map_of (fs st') (l @ q) = map_of m (s @ q)"
      "\<And>a. a \<in> set artifacts \<Longrightarrow> a \<notin> snd ` set promotions \<Longrightarrow> free_at (fs st') a"
      "agree_off (stg # bdir # artifacts) (fs st) (fs st')"
  | (restores) e where "res = Inl e" "\<And>l. e \<noteq> RollbackFailed l" "agree_off [stg, bdir] (fs st) (fs st')"
  | (retains) l where "res = Inl (RollbackFailed l)"
      "\<And>a. a \<in> set artifacts \<Longrightarrow> path_exists (fs st) a \<Longrightarrow>
        (\<forall>q. map_of (fs st') (a @ q) = map_of (fs st) (a @ q))
        \<or> (\<exists>copy. \<forall>q. map_of (fs st') ((bdir @ [copy]) @ q) = map_of (fs st) (a @ q))"
proof -
  from promote_artifacts_spec [OF assms]
  consider (a) e where "res = Inl e" "settled (fs st) e (fs st')"
    | (b) m where "res = Inr ()" "prepared (stg @ [''index_incarnation'']) inc (fs st) m" "installed m (fs st')"
    by blast
  then show thesis
  proof cases
    case a
    show thesis
    proof (cases "\<exists>l. e = RollbackFailed l")
      case True
      then obtain l where l: "e = RollbackFailed l" by blast
      have "(\<forall>q. map_of (fs st') (a @ q) = map_of (fs st) (a @ q))
          \<or> (\<exists>copy. \<forall>q. map_of (fs st') ((bdir @ [copy]) @ q) = map_of (fs st) (a @ q))"
        if art: "a \<in> set artifacts" "path_exists (fs st) a" for a
      proof -
        have "a \<in> set (map fst backup_pairs)" using art(1) fst_pairs by simp
        then obtain b where ab: "(a, b) \<in> set backup_pairs" by auto
        then have "b \<in> set (map snd backup_pairs)" by force
        then obtain n where b: "b = bdir @ [n]" unfolding snd_pairs by auto
        have "(a, b) \<in> set (present (fs st) backup_pairs)" using ab art(2) by (simp add: present_def)
        moreover have "kept (fs st) (fs st')" using a(2) l by simp
        ultimately have "(\<forall>q. map_of (fs st') (a @ q) = map_of (fs st) (a @ q))
            \<or> (\<forall>q. map_of (fs st') (b @ q) = map_of (fs st) (a @ q))"
          unfolding kept_def by blast
        then show ?thesis unfolding b by blast
      qed
      then show thesis using retains a l by blast
    next
      case False
      then have "agree_off [stg, bdir] (fs st) (fs st')" using a(2) by (cases e) auto
      then show thesis using restores [of e] False a(1) by blast
    qed
  next
    case b
    have "agree_off (stg # bdir # artifacts) (fs st) m"
      using b(2) by (auto simp: prepared_def agree_off_def)
    then have "agree_off (stg # bdir # artifacts) (fs st) (fs st')"
      using b(3) agree_off_trans unfolding installed_def by blast
    moreover have "free_at (fs st') a" if "a \<in> set artifacts" "a \<notin> snd ` set promotions" for a
      using b(3) that unfolding installed_def free_at_iff by blast
    ultimately show thesis
      using installs [of m] b unfolding prepared_def installed_def by blast
  qed
qed

end


section \<open>The two promotions of the code\<close>

definition main_staging :: "path \<Rightarrow> string \<Rightarrow> FreshIndexStaging" where
  "main_staging index_dir x =
     (let dir = index_dir @ [STAGING_DIR_PREFIX @ x]
      in \<lparr>stg_dir = dir, stg_sqlite = dir @ [''metadata.sqlite3''], stg_tantivy = dir @ [''tantivy''],
          stg_vector = dir @ [''vectors.usearch'']\<rparr>)"

definition overlay_staging :: "path \<Rightarrow> string \<Rightarrow> FreshIndexStaging" where
  "overlay_staging index_dir x =
     (let dir = index_dir @ [STAGING_DIR_PREFIX @ x]
      in \<lparr>stg_dir = dir, stg_sqlite = dir @ [''overlay.sqlite3''], stg_tantivy = dir @ [''overlay_tantivy''],
          stg_vector = dir @ [''overlay_vectors.usearch'']\<rparr>)"

definition incarnation_promotion :: "path \<Rightarrow> path \<Rightarrow> path \<times> path" where
  "incarnation_promotion index_dir stg = (stg @ [''index_incarnation''], index_dir @ [''index_incarnation''])"

lemma apart_names: "distinct ns \<Longrightarrow> apart (map (\<lambda>n. dir @ [n]) ns)"
  by (auto simp: apart_def distinct_map inj_on_def)

lemma main_names_ok: "distinct main_store_names \<and> list_all (\<lambda>n. \<not> prefix ''.fresh'' n) main_store_names"
  by code_simp

lemma overlay_names_ok: "distinct overlay_store_names \<and> list_all (\<lambda>n. \<not> prefix ''.fresh'' n) overlay_store_names"
  by code_simp

lemma working_names:
  "prefix ''.fresh'' (STAGING_DIR_PREFIX @ x)" "prefix ''.fresh'' (BACKUP_DIR_PREFIX @ y)"
  "STAGING_DIR_PREFIX @ x \<noteq> BACKUP_DIR_PREFIX @ y"
  by (simp_all add: STAGING_DIR_PREFIX_def BACKUP_DIR_PREFIX_def)

lemma layout_ok:
  assumes "distinct ns \<and> list_all (\<lambda>n. \<not> prefix ''.fresh'' n) ns"
  shows "apart ((dir @ [STAGING_DIR_PREFIX @ x]) # (dir @ [BACKUP_DIR_PREFIX @ y]) # map (\<lambda>n. dir @ [n]) ns)"
proof -
  have "STAGING_DIR_PREFIX @ x \<notin> set ns" "BACKUP_DIR_PREFIX @ y \<notin> set ns"
    using assms working_names by (fastforce simp: list_all_iff)+
  then show ?thesis
    using assms working_names(3) apart_names [of "(STAGING_DIR_PREFIX @ x) # (BACKUP_DIR_PREFIX @ y) # ns" dir] by simp
qed

lemma with_extension_verified: "with_extension ''merkle_snapshot.json'' ''verified'' = ''merkle_snapshot.verified''"
  by code_simp

interpretation main_store: promotion "main_store_artifacts dir"
    "incarnation_promotion dir (dir @ [STAGING_DIR_PREFIX @ x]) # main_promotions dir (main_staging dir x)"
    "dir @ [STAGING_DIR_PREFIX @ x]" "dir @ [BACKUP_DIR_PREFIX @ y]" for dir x y
proof unfold_locales
  show "apart ((dir @ [STAGING_DIR_PREFIX @ x]) # (dir @ [BACKUP_DIR_PREFIX @ y]) # main_store_artifacts dir)"
    unfolding main_store_artifacts_def using main_names_ok by (rule layout_ok)
qed (auto simp: incarnation_promotion_def main_promotions_def main_staging_def apart_def Let_def
    main_store_artifacts_def main_store_names_def)

interpretation overlay_store: promotion "overlay_store_artifacts dir"
    "incarnation_promotion dir (dir @ [STAGING_DIR_PREFIX @ x]) # overlay_promotions v dir (overlay_staging dir x)"
    "dir @ [STAGING_DIR_PREFIX @ x]" "dir @ [BACKUP_DIR_PREFIX @ y]" for dir x y v
proof unfold_locales
  show "apart ((dir @ [STAGING_DIR_PREFIX @ x]) # (dir @ [BACKUP_DIR_PREFIX @ y]) # overlay_store_artifacts dir)"
    unfolding overlay_store_artifacts_def using overlay_names_ok by (rule layout_ok)
qed (auto simp: incarnation_promotion_def overlay_promotions_def overlay_staging_def apart_def Let_def
    overlay_store_artifacts_def overlay_store_names_def with_extension_verified split: if_splits)


section \<open>Properties\<close>

text \<open>The trees of a file system at two places are the same.\<close>

definition same_tree :: "files \<Rightarrow> path \<Rightarrow> files \<Rightarrow> path \<Rightarrow> bool" where
  "same_tree m p m' p' \<longleftrightarrow> (\<forall>q. map_of m' (p' @ q) = map_of m (p @ q))"

text \<open>Claim C1. Promoting a main index is a transaction. If it succeeds, the live stores are exactly the
  staged ones with a fresh incarnation, every other artifact of the old generation is gone, and
  nothing else changed outside the two working directories. If it fails and the rollback
  works, nothing changed outside the working directories. If the rollback fails as well, every
  live artifact is still complete at its place or in the backup directory.\<close>

theorem promote_main_transaction:
  assumes wf: "tree_wf (fs st)" and run: "promote orc dir inc bid (main_staging dir x) st = (res, st')"
  shows "case res of
      Inr _ \<Rightarrow>
        (\<forall>name\<in>{''metadata.sqlite3'', ''tantivy'', ''vectors.usearch''}.
           same_tree (fs st) (dir @ [STAGING_DIR_PREFIX @ x, name]) (fs st') (dir @ [name]))
        \<and> map_of (fs st') (dir @ [''index_incarnation'']) = Some (FileNode inc)
        \<and> (\<forall>name\<in>set main_store_names.
             name \<notin> {''index_incarnation'', ''metadata.sqlite3'', ''tantivy'', ''vectors.usearch''} \<longrightarrow>
             free_at (fs st') (dir @ [name]))
        \<and> agree_off ((dir @ [STAGING_DIR_PREFIX @ x]) # (dir @ [BACKUP_DIR_PREFIX @ bid]) # main_store_artifacts dir)
             (fs st) (fs st')
    | Inl (RollbackFailed _) \<Rightarrow>
        (\<forall>name\<in>set main_store_names. path_exists (fs st) (dir @ [name]) \<longrightarrow>
           same_tree (fs st) (dir @ [name]) (fs st') (dir @ [name])
           \<or> (\<exists>copy. same_tree (fs st) (dir @ [name]) (fs st') (dir @ [BACKUP_DIR_PREFIX @ bid, copy])))
    | Inl _ \<Rightarrow> agree_off [dir @ [STAGING_DIR_PREFIX @ x], dir @ [BACKUP_DIR_PREFIX @ bid]] (fs st) (fs st')"
proof -
  let ?s = "main_staging dir x"
  let ?proms = "incarnation_promotion dir (dir @ [STAGING_DIR_PREFIX @ x]) # main_promotions dir ?s"
  have "stg_dir ?s = dir @ [STAGING_DIR_PREFIX @ x]" by (simp add: main_staging_def Let_def)
  note * = main_store.promote_cases [where s = ?s and proms = "main_promotions dir ?s", OF wf this [symmetric] refl _
      run [unfolded promote_def]]
  have live: "dir @ [name] \<in> set (main_store_artifacts dir) \<longleftrightarrow> name \<in> set main_store_names" for name
    by (auto simp: main_store_artifacts_def)
  show ?thesis
  proof (rule *)
    show "?proms = (stg_dir ?s @ [''index_incarnation''], dir @ [''index_incarnation'']) # main_promotions dir ?s"
      by (simp add: incarnation_promotion_def main_staging_def Let_def)
  next
    fix m assume res: "res = Inr ()" and m: "map_of m = (map_of (fs st))
        ((dir @ [STAGING_DIR_PREFIX @ x]) @ [''index_incarnation''] \<mapsto> FileNode inc, dir @ [BACKUP_DIR_PREFIX @ bid] \<mapsto> DirNode)"
      and new: "\<And>s l q. (s, l) \<in> set ?proms \<Longrightarrow> map_of (fs st') (l @ q) = map_of m (s @ q)"
      and gone: "\<And>a. a \<in> set (main_store_artifacts dir) \<Longrightarrow> a \<notin> snd ` set ?proms \<Longrightarrow> free_at (fs st') a"
      and rest: "agree_off ((dir @ [STAGING_DIR_PREFIX @ x]) # (dir @ [BACKUP_DIR_PREFIX @ bid]) # main_store_artifacts dir)
        (fs st) (fs st')"
    show ?thesis unfolding res sum.case
    proof (intro conjI ballI impI)
      fix name :: string assume name: "name \<in> {''metadata.sqlite3'', ''tantivy'', ''vectors.usearch''}"
      have "(dir @ [STAGING_DIR_PREFIX @ x, name], dir @ [name]) \<in> set ?proms"
        using name by (auto simp: main_promotions_def main_staging_def Let_def)
      from new [OF this] show "same_tree (fs st) (dir @ [STAGING_DIR_PREFIX @ x, name]) (fs st') (dir @ [name])"
        using name by (auto simp: same_tree_def m)
    next
      show "map_of (fs st') (dir @ [''index_incarnation'']) = Some (FileNode inc)"
        using new [of "dir @ [STAGING_DIR_PREFIX @ x, ''index_incarnation'']" "dir @ [''index_incarnation'']" "[]"] m
        by (auto simp: incarnation_promotion_def)
    next
      fix name assume "name \<in> set main_store_names"
        "name \<notin> {''index_incarnation'', ''metadata.sqlite3'', ''tantivy'', ''vectors.usearch''}"
      then show "free_at (fs st') (dir @ [name])"
        by (intro gone) (auto simp: live incarnation_promotion_def main_promotions_def)
    qed (rule rest)
  next
    fix e assume "res = Inl e" "\<And>l. e \<noteq> RollbackFailed l"
      "agree_off [dir @ [STAGING_DIR_PREFIX @ x], dir @ [BACKUP_DIR_PREFIX @ bid]] (fs st) (fs st')"
    then show ?thesis by (cases e) auto
  next
    fix l assume res: "res = Inl (RollbackFailed l)" and copies: "\<And>a. a \<in> set (main_store_artifacts dir) \<Longrightarrow> path_exists (fs st) a \<Longrightarrow>
        (\<forall>q. map_of (fs st') (a @ q) = map_of (fs st) (a @ q))
        \<or> (\<exists>copy. \<forall>q. map_of (fs st') (((dir @ [BACKUP_DIR_PREFIX @ bid]) @ [copy]) @ q) = map_of (fs st) (a @ q))"
    show ?thesis unfolding res sum.case promote_error.case
    proof (intro ballI impI)
      fix name assume "name \<in> set main_store_names" "path_exists (fs st) (dir @ [name])"
      then show "same_tree (fs st) (dir @ [name]) (fs st') (dir @ [name])
          \<or> (\<exists>copy. same_tree (fs st) (dir @ [name]) (fs st') (dir @ [BACKUP_DIR_PREFIX @ bid, copy]))"
        using copies [of "dir @ [name]"] live [of name] unfolding same_tree_def by simp
    qed
  qed
qed

definition demo_store :: files where
  "demo_store =
     [([], DirNode), ([''idx''], DirNode), ([''idx'', ''metadata.sqlite3''], FileNode ''old''),
      ([''idx'', STAGING_DIR_PREFIX @ ''1''], DirNode),
      ([''idx'', STAGING_DIR_PREFIX @ ''1'', ''metadata.sqlite3''], FileNode ''new''),
      ([''idx'', STAGING_DIR_PREFIX @ ''1'', ''tantivy''], DirNode),
      ([''idx'', STAGING_DIR_PREFIX @ ''1'', ''vectors.usearch''], FileNode ''vec'')]"

definition calm :: io_oracle where
  "calm = \<lparr>fails = (\<lambda>_. False), removed_before_failure = (\<lambda>_ _. False)\<rparr>"

lemma demo_store_wf: "tree_wf demo_store"
  by code_simp

lemma demo_promotes:
  "fst (promote calm [''idx''] ''u2'' ''b'' (main_staging [''idx''] ''1'') \<lparr>fs = demo_store, tick = 0\<rparr>) = Inr ()"
  by code_simp

theorem promote_main_transaction_witness:
  "\<exists>st'. promote calm [''idx''] ''u2'' ''b'' (main_staging [''idx''] ''1'') \<lparr>fs = demo_store, tick = 0\<rparr> = (Inr (), st')
     \<and> map_of (fs st') [''idx'', ''metadata.sqlite3''] = Some (FileNode ''new'')"
proof -
  obtain st' where st': "promote calm [''idx''] ''u2'' ''b'' (main_staging [''idx''] ''1'') \<lparr>fs = demo_store, tick = 0\<rparr> = (Inr (), st')"
    using demo_promotes by (metis prod.collapse)
  have "same_tree demo_store [''idx'', STAGING_DIR_PREFIX @ ''1'', ''metadata.sqlite3''] (fs st') [''idx'', ''metadata.sqlite3'']"
    using promote_main_transaction [OF _ st'] demo_store_wf by simp
  then have "map_of (fs st') [''idx'', ''metadata.sqlite3''] = map_of demo_store [''idx'', STAGING_DIR_PREFIX @ ''1'', ''metadata.sqlite3'']"
    unfolding same_tree_def by (metis append_Nil2)
  then show ?thesis using st' by (simp add: demo_store_def STAGING_DIR_PREFIX_def)
qed

lemma overlay_sources:
  "(s, l) \<in> set (overlay_promotions v dir (overlay_staging dir x)) \<Longrightarrow>
   \<exists>name. s = dir @ [STAGING_DIR_PREFIX @ x, name] \<and> name \<noteq> ''index_incarnation''"
  by (cases v) (auto simp: overlay_promotions_def overlay_staging_def Let_def with_extension_verified)

text \<open>Theorem. Promoting an overlay is a transaction, too: it installs all staged artifacts and removes
  the other ones, or changes nothing outside the working directories, or keeps every live
  artifact at its place or in the backup directory. It refuses a staging directory
  that lacks one of the artifacts.\<close>

theorem promote_overlay_transaction:
  assumes wf: "tree_wf (fs st)" and run: "promote_overlay orc dir inc bid (overlay_staging dir x) st = (res, st')"
    and proms: "ps = overlay_promotions (is_file (fs st) (dir @ [STAGING_DIR_PREFIX @ x, ''merkle_snapshot.verified''])) dir (overlay_staging dir x)"
  shows "case res of
      Inr _ \<Rightarrow>
        (\<forall>(s, l)\<in>set ps. path_exists (fs st) s \<and> same_tree (fs st) s (fs st') l)
        \<and> map_of (fs st') (dir @ [''index_incarnation'']) = Some (FileNode inc)
        \<and> (\<forall>a\<in>set (overlay_store_artifacts dir). a \<notin> snd ` set ps \<and> a \<noteq> dir @ [''index_incarnation''] \<longrightarrow>
             free_at (fs st') a)
        \<and> agree_off ((dir @ [STAGING_DIR_PREFIX @ x]) # (dir @ [BACKUP_DIR_PREFIX @ bid]) # overlay_store_artifacts dir)
             (fs st) (fs st')
    | Inl (RollbackFailed _) \<Rightarrow>
        (\<forall>a\<in>set (overlay_store_artifacts dir). path_exists (fs st) a \<longrightarrow>
           same_tree (fs st) a (fs st') a
           \<or> (\<exists>copy. same_tree (fs st) a (fs st') (dir @ [BACKUP_DIR_PREFIX @ bid, copy])))
    | Inl _ \<Rightarrow> agree_off [dir @ [STAGING_DIR_PREFIX @ x], dir @ [BACKUP_DIR_PREFIX @ bid]] (fs st) (fs st')"
proof (cases "List.find (\<lambda>(p, _). \<not> path_exists (fs st) p) ps")
  case (Some miss)
  have stg: "stg_dir (overlay_staging dir x) = dir @ [STAGING_DIR_PREFIX @ x]" by (simp add: overlay_staging_def Let_def)
  obtain p l where miss: "miss = (p, l)" by (cases miss)
  have res: "res = Inl (MissingStaged p)" "st' = staging_drop orc (overlay_staging dir x) st"
    using run Some miss proms stg by (auto simp: promote_overlay_def Let_def with_extension_verified)
  have "agree_off [dir @ [STAGING_DIR_PREFIX @ x]] (fs st) (fs st')"
    using agree_remove_dir_all [of orc "dir @ [STAGING_DIR_PREFIX @ x]" st] stg res(2)
    by (simp add: staging_drop_def prod_eq_iff)
  then show ?thesis using agree_off_mono res(1) by auto
next
  case None
  let ?s = "overlay_staging dir x"
  let ?proms = "incarnation_promotion dir (dir @ [STAGING_DIR_PREFIX @ x]) # ps"
  have stg: "stg_dir ?s = dir @ [STAGING_DIR_PREFIX @ x]" by (simp add: overlay_staging_def Let_def)
  have run': "promote_artifacts orc dir inc bid ?s (overlay_store_artifacts dir) ps st = (res, st')"
    using run None proms stg by (auto simp: promote_overlay_def Let_def with_extension_verified)
  have inner: "\<exists>name. s = dir @ [STAGING_DIR_PREFIX @ x, name] \<and> name \<noteq> ''index_incarnation''" if "(s, l) \<in> set ps" for s l
    using overlay_sources that unfolding proms by blast
  note * = overlay_store.promote_cases [where s = ?s and proms = ps and dir = dir and x = x
      and v = "is_file (fs st) (dir @ [STAGING_DIR_PREFIX @ x, ''merkle_snapshot.verified''])", folded proms,
      OF wf stg [symmetric] refl _ run']
  show ?thesis
  proof (rule *)
    show "?proms = (stg_dir ?s @ [''index_incarnation''], dir @ [''index_incarnation'']) # ps"
      by (simp add: incarnation_promotion_def stg)
  next
    fix m assume res: "res = Inr ()" and m: "map_of m = (map_of (fs st))
        ((dir @ [STAGING_DIR_PREFIX @ x]) @ [''index_incarnation''] \<mapsto> FileNode inc, dir @ [BACKUP_DIR_PREFIX @ bid] \<mapsto> DirNode)"
      and new: "\<And>s l q. (s, l) \<in> set ?proms \<Longrightarrow> map_of (fs st') (l @ q) = map_of m (s @ q)"
      and gone: "\<And>a. a \<in> set (overlay_store_artifacts dir) \<Longrightarrow> a \<notin> snd ` set ?proms \<Longrightarrow> free_at (fs st') a"
      and rest: "agree_off ((dir @ [STAGING_DIR_PREFIX @ x]) # (dir @ [BACKUP_DIR_PREFIX @ bid]) # overlay_store_artifacts dir)
        (fs st) (fs st')"
    have copies: "path_exists (fs st) s \<and> same_tree (fs st) s (fs st') l" if sl: "(s, l) \<in> set ps" for s l
    proof -
      have "path_exists (fs st) s" using None sl by (auto simp: find_None_iff)
      moreover have "same_tree (fs st) s (fs st') l"
        using new [of s l] sl inner [OF sl] by (auto simp: same_tree_def m)
      ultimately show ?thesis by blast
    qed
    have inc: "map_of (fs st') (dir @ [''index_incarnation'']) = Some (FileNode inc)"
      using new [of "dir @ [STAGING_DIR_PREFIX @ x, ''index_incarnation'']" "dir @ [''index_incarnation'']" "[]"] m
      by (auto simp: incarnation_promotion_def)
    have "free_at (fs st') a" if "a \<in> set (overlay_store_artifacts dir)" "a \<notin> snd ` set ps \<and> a \<noteq> dir @ [''index_incarnation'']" for a
      using that by (intro gone) (auto simp: incarnation_promotion_def)
    then show ?thesis using copies inc rest unfolding res sum.case by blast
  next
    fix e assume "res = Inl e" "\<And>l. e \<noteq> RollbackFailed l"
      "agree_off [dir @ [STAGING_DIR_PREFIX @ x], dir @ [BACKUP_DIR_PREFIX @ bid]] (fs st) (fs st')"
    then show ?thesis by (cases e) auto
  next
    fix l assume res: "res = Inl (RollbackFailed l)" and copies: "\<And>a. a \<in> set (overlay_store_artifacts dir) \<Longrightarrow> path_exists (fs st) a \<Longrightarrow>
        (\<forall>q. map_of (fs st') (a @ q) = map_of (fs st) (a @ q))
        \<or> (\<exists>copy. \<forall>q. map_of (fs st') (((dir @ [BACKUP_DIR_PREFIX @ bid]) @ [copy]) @ q) = map_of (fs st) (a @ q))"
    show ?thesis unfolding res sum.case promote_error.case same_tree_def using copies by simp
  qed
qed

definition demo_overlay :: files where
  "demo_overlay =
     [([], DirNode), ([''idx''], DirNode), ([''idx'', ''overlay.sqlite3''], FileNode ''old''),
      ([''idx'', STAGING_DIR_PREFIX @ ''1''], DirNode)]"

theorem promote_overlay_transaction_witness:
  "\<exists>e st'. promote_overlay calm [''idx''] ''u2'' ''b'' (overlay_staging [''idx''] ''1'') \<lparr>fs = demo_overlay, tick = 0\<rparr>
       = (Inl (MissingStaged e), st')
     \<and> agree_off [[''idx''] @ [STAGING_DIR_PREFIX @ ''1''], [''idx''] @ [BACKUP_DIR_PREFIX @ ''b'']] demo_overlay (fs st')"
proof -
  have miss: "\<exists>e. fst (promote_overlay calm [''idx''] ''u2'' ''b'' (overlay_staging [''idx''] ''1'') \<lparr>fs = demo_overlay, tick = 0\<rparr>)
      = Inl (MissingStaged e)"
    by (simp add: promote_overlay_def overlay_promotions_def overlay_staging_def Let_def path_exists_def demo_overlay_def
        STAGING_DIR_PREFIX_def)
  obtain e st' where run: "promote_overlay calm [''idx''] ''u2'' ''b'' (overlay_staging [''idx''] ''1'')
      \<lparr>fs = demo_overlay, tick = 0\<rparr> = (Inl (MissingStaged e), st')"
    using miss by (metis prod.collapse)
  have "tree_wf demo_overlay" by code_simp
  then show ?thesis using promote_overlay_transaction [OF _ run refl] run by auto
qed

lemma is_abandoned_tree:
  "(\<And>q. map_of m' (dir @ n # q) = map_of m (dir @ n # q)) \<Longrightarrow> is_abandoned m' dir n = is_abandoned m dir n"
  by (simp add: is_abandoned_def is_dir_def path_exists_def)

lemma removed_other:
  assumes "n \<noteq> n0"
  shows "map_of (fs (snd (fs_remove_dir_all orc (dir @ [n0]) st))) (dir @ n # q) = map_of (fs st) (dir @ n # q)"
proof -
  have "agree_off [dir @ [n0]] (fs st) (fs (snd (fs_remove_dir_all orc (dir @ [n0]) st)))"
    by (rule agree_remove_dir_all) (simp add: prod_eq_iff)
  moreover have "\<not> prefix (dir @ [n0]) (dir @ n # q)" using assms by auto
  ultimately show ?thesis by (simp add: agree_off_def)
qed

lemma remove_abandoned_only:
  "agree_off (map (\<lambda>n. dir @ [n]) (filter (is_abandoned (fs st) dir) names)) (fs st)
     (fs (remove_abandoned orc dir names st))"
proof (induction names arbitrary: st)
  case (Cons n0 names)
  define st1 where "st1 = (if is_abandoned (fs st) dir n0 then snd (fs_remove_dir_all orc (dir @ [n0]) st) else st)"
  have one: "agree_off (map (\<lambda>n. dir @ [n]) (filter (is_abandoned (fs st) dir) [n0])) (fs st) (fs st1)"
    using agree_remove_dir_all [of orc "dir @ [n0]" st] by (auto simp: st1_def prod_eq_iff)
  have "is_abandoned (fs st) dir n" if "is_abandoned (fs st1) dir n" for n
    using that is_abandoned_tree [of "fs st1" dir n "fs st"] removed_other [of n n0 orc dir st]
    by (cases "n = n0") (auto simp: st1_def split: if_splits)
  then have "agree_off (map (\<lambda>n. dir @ [n]) (filter (is_abandoned (fs st) dir) names)) (fs st1)
      (fs (remove_abandoned orc dir names st1))"
    by (intro agree_off_mono [OF Cons.IH]) auto
  then have "agree_off (map (\<lambda>n. dir @ [n]) (filter (is_abandoned (fs st) dir) (n0 # names))) (fs st1)
      (fs (remove_abandoned orc dir names st1))"
    by (rule agree_off_mono) auto
  moreover have "agree_off (map (\<lambda>n. dir @ [n]) (filter (is_abandoned (fs st) dir) (n0 # names))) (fs st) (fs st1)"
    using one by (rule agree_off_mono) auto
  ultimately have "agree_off (map (\<lambda>n. dir @ [n]) (filter (is_abandoned (fs st) dir) (n0 # names))) (fs st)
      (fs (remove_abandoned orc dir names st1))" by (rule agree_off_trans [rotated])
  then show ?case by (simp add: st1_def)
qed simp

lemma remove_abandoned_all:
  assumes "\<And>t. \<not> fails orc t" and "n \<in> set names" and "is_abandoned (fs st) dir n"
  shows "free_at (fs (remove_abandoned orc dir names st)) (dir @ [n])"
  using assms(2,3)
proof (induction names arbitrary: st)
  case (Cons n0 names)
  define st1 where "st1 = (if is_abandoned (fs st) dir n0 then snd (fs_remove_dir_all orc (dir @ [n0]) st) else st)"
  show ?case
  proof (cases "n = n0")
    case True
    then have "free_at (fs st1) (dir @ [n])"
      using Cons.prems(2) assms(1)
      by (auto simp: st1_def fs_remove_dir_all_def is_abandoned_def is_dir_def free_at_iff lookup_remove_tree)
    moreover have "\<not> is_abandoned (fs st1) dir n" using \<open>free_at (fs st1) (dir @ [n])\<close>
      by (auto simp: is_abandoned_def is_dir_def free_at_iff dest: spec [of _ "[]"])
    ultimately have "map_of (fs (remove_abandoned orc dir names st1)) (dir @ n # q) = None" for q
    proof -
      have "\<not> prefix t (dir @ n # q)" if t: "t \<in> set (map (\<lambda>n. dir @ [n]) (filter (is_abandoned (fs st1) dir) names))" for t
        using t \<open>\<not> is_abandoned (fs st1) dir n\<close> by auto
      then have "map_of (fs (remove_abandoned orc dir names st1)) (dir @ n # q) = map_of (fs st1) (dir @ n # q)"
        using remove_abandoned_only [of dir st1 names orc] unfolding agree_off_def by blast
      then show ?thesis using \<open>free_at (fs st1) (dir @ [n])\<close> by (simp add: free_at_iff)
    qed
    then show ?thesis by (simp add: st1_def free_at_iff)
  next
    case False
    then have "is_abandoned (fs st1) dir n"
      using Cons.prems(2) is_abandoned_tree [of "fs st1" dir n "fs st"] removed_other [of n n0 orc dir st]
      by (auto simp: st1_def)
    then show ?thesis using Cons.IH Cons.prems(1) False by (simp add: st1_def)
  qed
qed simp

text \<open>Theorem. Cleaning up after a killed indexer touches nothing but abandoned working directories: a
  backup that carries the marker of a failed rollback stays complete, and so does every other
  entry of the index directory. If no call fails, every abandoned directory is gone.\<close>

theorem abandoned_cleanup_safe:
  assumes "is_file (fs st) (dir @ [BACKUP_DIR_PREFIX @ y, RETAINED_BACKUP_MARKER])"
    and "st' = remove_abandoned_staging orc readable dir st"
  shows "same_tree (fs st) (dir @ [BACKUP_DIR_PREFIX @ y]) (fs st') (dir @ [BACKUP_DIR_PREFIX @ y])
     \<and> (\<forall>p. (\<forall>n. is_abandoned (fs st) dir n \<longrightarrow> \<not> prefix (dir @ [n]) p) \<longrightarrow> map_of (fs st') p = map_of (fs st) p)
     \<and> (readable \<longrightarrow> (\<forall>t. \<not> fails orc t) \<longrightarrow> (\<forall>n. is_abandoned (fs st) dir n \<longrightarrow> free_at (fs st') (dir @ [n])))"
proof (intro conjI)
  have only: "map_of (fs st') p = map_of (fs st) p" if "\<And>n. is_abandoned (fs st) dir n \<Longrightarrow> \<not> prefix (dir @ [n]) p" for p
    using remove_abandoned_only [of dir st "dir_names (fs st) dir" orc] assms(2) that
    by (auto simp: remove_abandoned_staging_def agree_off_def)
  then show "\<forall>p. (\<forall>n. is_abandoned (fs st) dir n \<longrightarrow> \<not> prefix (dir @ [n]) p) \<longrightarrow> map_of (fs st') p = map_of (fs st) p"
    by blast
  have "path_exists (fs st) (dir @ [BACKUP_DIR_PREFIX @ y, RETAINED_BACKUP_MARKER])"
    using assms(1) by (auto simp: is_file_def path_exists_def split: option.splits)
  then have "\<not> is_abandoned (fs st) dir (BACKUP_DIR_PREFIX @ y)"
    by (auto simp: is_abandoned_def BACKUP_DIR_PREFIX_def STAGING_DIR_PREFIX_def)
  then show "same_tree (fs st) (dir @ [BACKUP_DIR_PREFIX @ y]) (fs st') (dir @ [BACKUP_DIR_PREFIX @ y])"
    unfolding same_tree_def by (intro allI only) auto
  show "readable \<longrightarrow> (\<forall>t. \<not> fails orc t) \<longrightarrow> (\<forall>n. is_abandoned (fs st) dir n \<longrightarrow> free_at (fs st') (dir @ [n]))"
  proof (intro impI allI)
    fix n assume ok: "readable" "\<forall>t. \<not> fails orc t" and n: "is_abandoned (fs st) dir n"
    have "(dir @ [n], DirNode) \<in> set (fs st)" using n map_of_SomeD by (fastforce simp: is_abandoned_def is_dir_def)
    then have "n \<in> set (dir_names (fs st) dir)" by (force simp: dir_names_def)
    then show "free_at (fs st') (dir @ [n])"
      using remove_abandoned_all ok n assms(2) by (auto simp: remove_abandoned_staging_def)
  qed
qed

definition demo_killed :: files where
  "demo_killed =
     [([''i''], DirNode), ([''i'', BACKUP_DIR_PREFIX @ ''a''], DirNode),
      ([''i'', BACKUP_DIR_PREFIX @ ''a'', RETAINED_BACKUP_MARKER], FileNode []),
      ([''i'', BACKUP_DIR_PREFIX @ ''b''], DirNode)]"

theorem abandoned_cleanup_safe_witness:
  "free_at (fs (remove_abandoned_staging calm True [''i''] \<lparr>fs = demo_killed, tick = 0\<rparr>)) ([''i''] @ [BACKUP_DIR_PREFIX @ ''b''])"
proof -
  have "is_file demo_killed ([''i''] @ [BACKUP_DIR_PREFIX @ ''a'', RETAINED_BACKUP_MARKER])" by code_simp
  moreover have "is_abandoned demo_killed [''i''] (BACKUP_DIR_PREFIX @ ''b'')" by code_simp
  ultimately show ?thesis
    using abandoned_cleanup_safe [of "\<lparr>fs = demo_killed, tick = 0\<rparr>" "[''i'']" "''a''" _ calm True] by (simp add: calm_def)
qed

end
