(* ===== verification/Languages.thy ===== *)
theory Languages
  imports Prelude
begin

text \<open>
  The language registry and the detection of signature lines, \<^verbatim>\<open>src/src/chunking.rs\<close>: one predicate
  on trimmed lines per language, the table of languages with their extensions and file
  names, the resolution of a file to its language, of a type filter to a language name, and of
  an extension glob to the languages its files can have. A path enters through its file
  name. The theorems show that type filters resolve to names of the table and are idempotent,
  that every extension resolves the same way as a filter and as a file, and that an extension
  glob never excludes a language that one of its files can have.
\<close>

section \<open>Signature lines\<close>

datatype ChunkKind = FunctionChunk | ClassChunk | ModuleChunk | DocumentationChunk | TextChunk

definition starts_with_any :: "string \<Rightarrow> string list \<Rightarrow> bool" where
  "starts_with_any line pats \<longleftrightarrow> list_ex (\<lambda>p. starts_with line p) pats"

definition is_c_like_function_line :: "string \<Rightarrow> bool" where
  "is_c_like_function_line trimmed \<longleftrightarrow>
     contains_str trimmed ''('' \<and> ends_with trimmed ''{''
     \<and> \<not> starts_with_any trimmed
         [''if '', ''if('', ''else'', ''for '', ''for('', ''while '', ''while('', ''switch '', ''switch('', ''do '',
          ''do{'', ''} else'', ''} catch'', ''return '', ''return('', ''#'', ''//'', ''/*'', ''case '']"

definition to_ascii_uppercase :: "string \<Rightarrow> string" where
  "to_ascii_uppercase s = map (\<lambda>b. if is_ascii_lowercase b then char_of (code b - 32) else b) s"

definition detect_text_only :: "string \<Rightarrow> ChunkKind option" where
  "detect_text_only trimmed = None"

definition detect_rust :: "string \<Rightarrow> ChunkKind option" where
  "detect_rust trimmed =
     (if starts_with_any trimmed [''fn '', ''pub fn '', ''pub(crate) fn '', ''pub(super) fn '', ''async fn '', ''pub async fn '']
      then Some FunctionChunk
      else if starts_with_any trimmed [''struct '', ''pub struct '', ''enum '', ''pub enum '', ''trait '', ''pub trait '', ''union '', ''pub union '']
      then Some ClassChunk
      else if starts_with_any trimmed [''impl '', ''mod '', ''pub mod '', ''pub(crate) mod '']
      then Some ModuleChunk
      else None)"

definition detect_go :: "string \<Rightarrow> ChunkKind option" where
  "detect_go trimmed =
     (if starts_with trimmed ''func ''
      then Some FunctionChunk
      else if starts_with trimmed ''type ''
      then Some ClassChunk
      else None)"

definition detect_c :: "string \<Rightarrow> ChunkKind option" where
  "detect_c trimmed =
     (if starts_with_any trimmed [''struct '', ''union '', ''enum '', ''typedef '']
      then Some ClassChunk
      else if is_c_like_function_line trimmed
      then Some FunctionChunk
      else None)"

definition detect_cpp :: "string \<Rightarrow> ChunkKind option" where
  "detect_cpp trimmed =
     (if starts_with_any trimmed [''class '', ''struct '', ''enum '', ''union '', ''typedef '']
      then Some ClassChunk
      else if starts_with_any trimmed [''namespace '']
      then Some ModuleChunk
      else if starts_with_any trimmed [''template '']
      then Some ClassChunk
      else if is_c_like_function_line trimmed
      then Some FunctionChunk
      else None)"

definition detect_zig :: "string \<Rightarrow> ChunkKind option" where
  "detect_zig trimmed =
     (if starts_with_any trimmed [''fn '', ''pub fn '', ''export fn '']
      then Some FunctionChunk
      else if starts_with_any trimmed [''const '', ''pub const '', ''var '', ''pub var ''] \<and> contains_str trimmed ''struct''
      then Some ClassChunk
      else None)"

definition detect_nim :: "string \<Rightarrow> ChunkKind option" where
  "detect_nim trimmed =
     (if starts_with_any trimmed [''proc '', ''func '', ''method '', ''iterator '']
      then Some FunctionChunk
      else if starts_with_any trimmed [''type '']
      then Some ClassChunk
      else None)"

definition detect_java :: "string \<Rightarrow> ChunkKind option" where
  "detect_java trimmed =
     (if contains_str trimmed '' class '' \<or> starts_with trimmed ''class '' \<or> starts_with_any trimmed [''interface '', ''public interface '', ''protected interface '']
      then Some ClassChunk
      else if is_c_like_function_line trimmed
      then Some FunctionChunk
      else None)"

definition detect_kotlin :: "string \<Rightarrow> ChunkKind option" where
  "detect_kotlin trimmed =
     (if starts_with_any trimmed [''fun '', ''suspend fun '', ''private fun '', ''override fun '', ''internal fun '']
      then Some FunctionChunk
      else if starts_with_any trimmed [''class '', ''data class '', ''sealed class '', ''enum class '', ''abstract class '', ''open class '', ''interface '', ''object '', ''annotation class '']
      then Some ClassChunk
      else None)"

definition detect_scala :: "string \<Rightarrow> ChunkKind option" where
  "detect_scala trimmed =
     (if starts_with_any trimmed [''def '', ''private def '', ''override def '', ''protected def '']
      then Some FunctionChunk
      else if starts_with_any trimmed [''class '', ''case class '', ''trait '', ''object '', ''abstract class '', ''sealed trait '']
      then Some ClassChunk
      else None)"

definition detect_groovy :: "string \<Rightarrow> ChunkKind option" where
  "detect_groovy trimmed =
     (if starts_with_any trimmed [''def '', ''private def '', ''static def '']
      then Some FunctionChunk
      else if starts_with_any trimmed [''class '', ''interface '', ''enum '']
      then Some ClassChunk
      else if is_c_like_function_line trimmed
      then Some FunctionChunk
      else None)"

definition detect_csharp :: "string \<Rightarrow> ChunkKind option" where
  "detect_csharp trimmed =
     (if starts_with_any trimmed [''class '', ''public class '', ''internal class '', ''abstract class '', ''static class '', ''sealed class '', ''partial class '', ''interface '', ''public interface '', ''struct '', ''public struct '', ''enum '', ''public enum '', ''record '', ''public record '']
      then Some ClassChunk
      else if starts_with_any trimmed [''namespace '']
      then Some ModuleChunk
      else if is_c_like_function_line trimmed
      then Some FunctionChunk
      else None)"

definition detect_python :: "string \<Rightarrow> ChunkKind option" where
  "detect_python trimmed =
     (if starts_with_any trimmed [''def '', ''async def '']
      then Some FunctionChunk
      else if starts_with trimmed ''class ''
      then Some ClassChunk
      else None)"

definition detect_typescript_javascript :: "string \<Rightarrow> ChunkKind option" where
  "detect_typescript_javascript trimmed =
     (if starts_with_any trimmed [''function '', ''export function '', ''async function '', ''export async function ''] \<or> contains_str trimmed '' => ''
      then Some FunctionChunk
      else if starts_with_any trimmed [''class '', ''export class '', ''abstract class '', ''export abstract class '', ''interface '', ''export interface '', ''type '', ''export type '']
      then Some ClassChunk
      else None)"

definition detect_ruby :: "string \<Rightarrow> ChunkKind option" where
  "detect_ruby trimmed =
     (if starts_with trimmed ''def ''
      then Some FunctionChunk
      else if starts_with trimmed ''class ''
      then Some ClassChunk
      else if starts_with trimmed ''module ''
      then Some ModuleChunk
      else None)"

definition detect_php :: "string \<Rightarrow> ChunkKind option" where
  "detect_php trimmed =
     (if starts_with_any trimmed [''function '', ''public function '', ''private function '', ''protected function '', ''static function '', ''public static function '']
      then Some FunctionChunk
      else if starts_with_any trimmed [''class '', ''interface '', ''trait '', ''abstract class '', ''final class '', ''enum '']
      then Some ClassChunk
      else if starts_with trimmed ''namespace ''
      then Some ModuleChunk
      else None)"

definition detect_perl :: "string \<Rightarrow> ChunkKind option" where
  "detect_perl trimmed =
     (if starts_with trimmed ''sub ''
      then Some FunctionChunk
      else if starts_with trimmed ''package ''
      then Some ModuleChunk
      else None)"

definition detect_lua :: "string \<Rightarrow> ChunkKind option" where
  "detect_lua trimmed =
     (if starts_with_any trimmed [''function '', ''local function '']
      then Some FunctionChunk
      else None)"

text \<open>Swift: the words of the line from the left; modifiers and attributes are skipped, and so is
  \<^verbatim>\<open>class\<close> in front of a member.\<close>

definition swift_token :: "string \<Rightarrow> string" where
  "swift_token raw = hd (split_on (\<lambda>c. c \<in> {CHR ''('', CHR '':'', CHR ''{''}) raw)"

definition swift_modifiers :: "string list" where
  "swift_modifiers =
     [''public'', ''private'', ''fileprivate'', ''internal'', ''package'', ''open'', ''final'',
      ''indirect'', ''override'', ''required'', ''convenience'', ''static'', ''mutating'',
      ''nonmutating'', ''isolated'', ''nonisolated'', ''distributed'', ''lazy'']"

fun detect_swift_tokens :: "string list \<Rightarrow> ChunkKind option" where
  "detect_swift_tokens [] = None"
| "detect_swift_tokens (raw # rest) =
     (let token = swift_token raw
      in if token \<in> set [''func'', ''init'', ''deinit'', ''subscript''] then Some FunctionChunk
         else if token = ''class'' \<and> (case rest of [] \<Rightarrow> False | next_raw # _ \<Rightarrow>
                swift_token next_raw \<in> set [''func'', ''var'', ''let'', ''subscript''])
         then detect_swift_tokens rest
         else if token \<in> set [''class'', ''struct'', ''enum'', ''protocol'', ''extension'', ''actor'']
         then Some ClassChunk
         else if token \<in> set swift_modifiers then detect_swift_tokens rest
         else if starts_with token ''@'' then detect_swift_tokens rest
         else None)"

definition detect_swift :: "string \<Rightarrow> ChunkKind option" where
  "detect_swift trimmed = detect_swift_tokens (split_whitespace trimmed)"

definition detect_dart :: "string \<Rightarrow> ChunkKind option" where
  "detect_dart trimmed =
     (if starts_with_any trimmed [''class '', ''abstract class '', ''mixin '', ''extension '']
      then Some ClassChunk
      else if is_c_like_function_line trimmed
      then Some FunctionChunk
      else None)"

definition detect_objc :: "string \<Rightarrow> ChunkKind option" where
  "detect_objc trimmed =
     (if starts_with_any trimmed [''@interface '', ''@implementation '', ''@protocol '']
      then Some ClassChunk
      else if starts_with_any trimmed [''- ('', ''+ (''] \<or> is_c_like_function_line trimmed
      then Some FunctionChunk
      else None)"

definition detect_elixir :: "string \<Rightarrow> ChunkKind option" where
  "detect_elixir trimmed =
     (if starts_with_any trimmed [''def '', ''defp '', ''defmacro '', ''defmacrop '']
      then Some FunctionChunk
      else if starts_with_any trimmed [''defmodule '', ''defprotocol '', ''defimpl '']
      then Some ModuleChunk
      else None)"

definition detect_erlang :: "string \<Rightarrow> ChunkKind option" where
  "detect_erlang trimmed =
     (if starts_with trimmed ''-module(''
      then Some ModuleChunk
      else if starts_with trimmed ''-export('' \<or> starts_with trimmed ''-spec '' \<or> (\<not> starts_with trimmed ''%'' \<and> \<not> starts_with trimmed ''-'' \<and> \<not> trimmed = [] \<and> is_ascii_lowercase (hd trimmed) \<and> contains_str trimmed ''('' \<and> contains_str trimmed ''->'')
      then Some FunctionChunk
      else None)"

definition detect_haskell :: "string \<Rightarrow> ChunkKind option" where
  "detect_haskell trimmed =
     (if starts_with trimmed ''module ''
      then Some ModuleChunk
      else if \<not> starts_with trimmed '' '' \<and> \<not> starts_with trimmed ''-'' \<and> \<not> starts_with trimmed ''{'' \<and> \<not> trimmed = [] \<and> contains_str trimmed '' :: ''
      then Some FunctionChunk
      else if starts_with_any trimmed [''data '', ''newtype '', ''class '', ''instance '', ''type '']
      then Some ClassChunk
      else None)"

definition detect_ocaml :: "string \<Rightarrow> ChunkKind option" where
  "detect_ocaml trimmed =
     (if starts_with_any trimmed [''let '', ''let rec '']
      then Some FunctionChunk
      else if starts_with trimmed ''type ''
      then Some ClassChunk
      else if starts_with_any trimmed [''module '', ''module type '']
      then Some ModuleChunk
      else None)"

definition detect_clojure :: "string \<Rightarrow> ChunkKind option" where
  "detect_clojure trimmed =
     (if starts_with_any trimmed [''(defn '', ''(defn- '', ''(defmacro '', ''(defmethod '']
      then Some FunctionChunk
      else if starts_with_any trimmed [''(deftype '', ''(defrecord '', ''(defprotocol '']
      then Some ClassChunk
      else if starts_with trimmed ''(ns ''
      then Some ModuleChunk
      else None)"

definition detect_r :: "string \<Rightarrow> ChunkKind option" where
  "detect_r trimmed =
     (if contains_str trimmed ''<- function'' \<or> contains_str trimmed ''= function(''
      then Some FunctionChunk
      else None)"

definition detect_julia :: "string \<Rightarrow> ChunkKind option" where
  "detect_julia trimmed =
     (if starts_with_any trimmed [''function '', ''macro '']
      then Some FunctionChunk
      else if starts_with_any trimmed [''struct '', ''mutable struct '', ''abstract type '']
      then Some ClassChunk
      else if starts_with trimmed ''module ''
      then Some ModuleChunk
      else None)"

definition detect_shell :: "string \<Rightarrow> ChunkKind option" where
  "detect_shell trimmed =
     (if starts_with trimmed ''function '' \<or> (contains_str trimmed ''()'' \<and> ends_with trimmed ''{'')
      then Some FunctionChunk
      else None)"

definition detect_powershell :: "string \<Rightarrow> ChunkKind option" where
  "detect_powershell trimmed =
     (let lower = to_ascii_lowercase trimmed in if starts_with lower ''function '' \<or> starts_with lower ''filter ''
      then Some FunctionChunk
      else if starts_with lower ''class ''
      then Some ClassChunk
      else None)"

definition detect_sql :: "string \<Rightarrow> ChunkKind option" where
  "detect_sql trimmed =
     (let upper = to_ascii_uppercase trimmed in if starts_with_any upper [''CREATE FUNCTION'', ''CREATE PROCEDURE'', ''CREATE OR REPLACE FUNCTION'', ''CREATE OR REPLACE PROCEDURE'']
      then Some FunctionChunk
      else if starts_with_any upper [''CREATE TABLE'', ''CREATE VIEW'', ''CREATE INDEX'', ''CREATE TYPE'', ''CREATE OR REPLACE VIEW'']
      then Some ClassChunk
      else None)"

definition detect_protobuf :: "string \<Rightarrow> ChunkKind option" where
  "detect_protobuf trimmed =
     (if starts_with trimmed ''rpc ''
      then Some FunctionChunk
      else if starts_with_any trimmed [''message '', ''enum '', ''service '']
      then Some ClassChunk
      else None)"

definition detect_graphql :: "string \<Rightarrow> ChunkKind option" where
  "detect_graphql trimmed =
     (if starts_with_any trimmed [''type '', ''input '', ''enum '', ''interface '', ''union '', ''scalar '']
      then Some ClassChunk
      else if starts_with_any trimmed [''query '', ''mutation '', ''subscription '']
      then Some FunctionChunk
      else None)"

definition detect_terraform :: "string \<Rightarrow> ChunkKind option" where
  "detect_terraform trimmed =
     (if starts_with_any trimmed [''resource '', ''data '', ''module '', ''provider '', ''variable '', ''output '', ''locals '']
      then Some ModuleChunk
      else None)"

definition detect_starlark :: "string \<Rightarrow> ChunkKind option" where
  "detect_starlark trimmed =
     (if starts_with trimmed ''def ''
      then Some FunctionChunk
      else None)"


section \<open>The registry\<close>

record LanguageDef =
  lang_name :: string
  extensions :: "string list"
  filenames :: "string list"
  detect_signature :: "string \<Rightarrow> ChunkKind option"

abbreviation lang :: "string \<Rightarrow> string list \<Rightarrow> string list \<Rightarrow> (string \<Rightarrow> ChunkKind option) \<Rightarrow> LanguageDef" where
  "lang n e f d \<equiv> \<lparr>lang_name = n, extensions = e, filenames = f, detect_signature = d\<rparr>"

definition LANGUAGES :: "LanguageDef list" where
  "LANGUAGES =
     [
      lang ''rust'' [''rs''] [] detect_rust,
      lang ''go'' [''go''] [] detect_go,
      lang ''c'' [''c'', ''h''] [] detect_c,
      lang ''cpp'' [''cpp'', ''cc'', ''cxx'', ''hpp'', ''hxx'', ''hh''] [] detect_cpp,
      lang ''zig'' [''zig''] [] detect_zig,
      lang ''nim'' [''nim'', ''nims''] [] detect_nim,
      lang ''java'' [''java''] [] detect_java,
      lang ''kotlin'' [''kt'', ''kts''] [] detect_kotlin,
      lang ''scala'' [''scala'', ''sc''] [] detect_scala,
      lang ''groovy'' [''groovy'', ''gvy''] [] detect_groovy,
      lang ''csharp'' [''cs''] [] detect_csharp,
      lang ''python'' [''py'', ''pyi''] [] detect_python,
      lang ''typescript'' [''ts'', ''tsx'', ''mts'', ''cts''] [] detect_typescript_javascript,
      lang ''javascript'' [''js'', ''jsx'', ''mjs'', ''cjs''] [] detect_typescript_javascript,
      lang ''ruby'' [''rb'', ''rake''] [''Rakefile'', ''Gemfile''] detect_ruby,
      lang ''php'' [''php''] [] detect_php,
      lang ''perl'' [''pl'', ''pm''] [] detect_perl,
      lang ''lua'' [''lua''] [] detect_lua,
      lang ''swift'' [''swift''] [] detect_swift,
      lang ''dart'' [''dart''] [] detect_dart,
      lang ''objc'' [''m'', ''mm''] [] detect_objc,
      lang ''elixir'' [''ex'', ''exs''] [] detect_elixir,
      lang ''erlang'' [''erl'', ''hrl''] [] detect_erlang,
      lang ''haskell'' [''hs''] [] detect_haskell,
      lang ''ocaml'' [''ml'', ''mli''] [] detect_ocaml,
      lang ''clojure'' [''clj'', ''cljs'', ''cljc'', ''edn''] [] detect_clojure,
      lang ''r'' [''r'', ''R''] [] detect_r,
      lang ''julia'' [''jl''] [] detect_julia,
      lang ''shell'' [''sh'', ''bash'', ''zsh'', ''fish''] [] detect_shell,
      lang ''powershell'' [''ps1'', ''psm1'', ''psd1''] [] detect_powershell,
      lang ''sql'' [''sql''] [] detect_sql,
      lang ''protobuf'' [''proto''] [] detect_protobuf,
      lang ''thrift'' [''thrift''] [] detect_protobuf,
      lang ''graphql'' [''graphql'', ''gql''] [] detect_graphql,
      lang ''terraform'' [''tf'', ''tfvars'', ''hcl''] [] detect_terraform,
      lang ''starlark'' [''bzl'', ''bazel'', ''star''] [''=BUILD'', ''=WORKSPACE'', ''=MODULE''] detect_starlark,
      lang ''dockerfile'' [] [''Dockerfile''] detect_text_only,
      lang ''makefile'' [''mk''] [''Makefile'', ''makefile'', ''GNUmakefile''] detect_text_only,
      lang ''markdown'' [''md'', ''mdx''] [] detect_text_only,
      lang ''html'' [''html'', ''htm'', ''xhtml''] [] detect_text_only,
      lang ''css'' [''css'', ''scss'', ''sass'', ''less''] [] detect_text_only,
      lang ''xml'' [''xml'', ''xsl'', ''xslt'', ''svg'', ''plist''] [] detect_text_only,
      lang ''config'' [''toml'', ''yaml'', ''yml'', ''ini'', ''cfg'', ''env''] [] detect_text_only,
      lang ''json'' [''json'', ''jsonl'', ''json5'', ''geojson''] [] detect_text_only,
      lang ''text'' [''txt'', ''log'', ''csv'', ''tsv'', ''rst'', ''adoc''] [] detect_text_only]"

text \<open>\<^verbatim>\<open>Path::extension\<close> of a file name.\<close>

definition path_extension :: "string \<Rightarrow> string option" where
  "path_extension filename =
     (if filename = ''..'' then None
      else case rsplit_once filename ''.'' of
             None \<Rightarrow> None
           | Some (before, after) \<Rightarrow> if before = [] then None else Some after)"

definition filename_matches :: "string \<Rightarrow> string \<Rightarrow> bool" where
  "filename_matches filename pat =
     (case strip_prefix pat ''='' of
        Some exact \<Rightarrow> filename = exact
      | None \<Rightarrow> filename = pat
               \<or> length pat < length filename \<and> starts_with filename pat \<and> filename ! length pat = CHR ''.'')"

text \<open>The argument is the file name of the path, if it has one.\<close>

definition find_language_def :: "string option \<Rightarrow> LanguageDef option" where
  "find_language_def filename =
     (case Option.bind filename
             (\<lambda>name. List.find (\<lambda>l. list_ex (filename_matches name) (filenames l)) LANGUAGES) of
        Some l \<Rightarrow> Some l
      | None \<Rightarrow>
          (case Option.bind filename path_extension of
             None \<Rightarrow> None
           | Some ext \<Rightarrow> List.find (\<lambda>l. list_ex (\<lambda>e. eq_ignore_ascii_case e ext) (extensions l)) LANGUAGES))"

definition language_for_path :: "string option \<Rightarrow> string option" where
  "language_for_path filename = map_option lang_name (find_language_def filename)"

definition languages_for_extension_glob :: "string \<Rightarrow> string list option" where
  "languages_for_extension_glob extension =
     (case language_for_path (Some (''file.'' @ extension)) of
        None \<Rightarrow> None
      | Some primary \<Rightarrow>
          Some (primary # map lang_name (filter (\<lambda>l. lang_name l \<noteq> primary
                  \<and> list_ex (\<lambda>p. \<not> starts_with p ''='') (filenames l)) LANGUAGES)))"

definition type_aliases :: "(string \<times> string) list" where
  "type_aliases =
     [(''c++'', ''cpp''), (''cplusplus'', ''cpp''), (''c#'', ''csharp''), (''js'', ''javascript''),
      (''ts'', ''typescript''), (''tsx'', ''typescript''),
      (''jsx'', ''javascript''), (''mjs'', ''javascript''), (''cjs'', ''javascript''),
      (''bash'', ''shell''), (''zsh'', ''shell''), (''fish'', ''shell''),
      (''yml'', ''config''), (''toml'', ''config''), (''yaml'', ''config''), (''ini'', ''config''), (''cfg'', ''config''),
      (''objective-c'', ''objc''), (''objective_c'', ''objc''), (''objectivec'', ''objc''),
      (''proto'', ''protobuf''), (''tf'', ''terraform''), (''hcl'', ''terraform''), (''gql'', ''graphql''),
      (''rb'', ''ruby''), (''rake'', ''ruby''), (''kt'', ''kotlin''), (''kts'', ''kotlin''),
      (''ex'', ''elixir''), (''exs'', ''elixir''), (''erl'', ''erlang''), (''hrl'', ''erlang''),
      (''hs'', ''haskell''), (''ml'', ''ocaml''), (''mli'', ''ocaml''), (''pl'', ''perl''), (''pm'', ''perl''),
      (''clj'', ''clojure''), (''cljs'', ''clojure''), (''cljc'', ''clojure''), (''jl'', ''julia''),
      (''ps1'', ''powershell''), (''psm1'', ''powershell''), (''sc'', ''scala''),
      (''htm'', ''html''), (''xhtml'', ''html''), (''scss'', ''css''), (''sass'', ''css''), (''less'', ''css''),
      (''mdx'', ''markdown''), (''pyi'', ''python'')]"

definition resolve_type_alias :: "string \<Rightarrow> string option" where
  "resolve_type_alias input =
     (let lower = dropWhile (\<lambda>c. c = CHR ''.'') (to_ascii_lowercase input)
      in case List.find (\<lambda>l. lang_name l = lower) LANGUAGES of
           Some l \<Rightarrow> Some (lang_name l)
         | None \<Rightarrow>
             (case List.find (\<lambda>l. list_ex (\<lambda>e. eq_ignore_ascii_case e lower) (extensions l)) LANGUAGES of
                Some l \<Rightarrow> Some (lang_name l)
              | None \<Rightarrow> map_of type_aliases lower))"

definition is_indexable_path :: "string option \<Rightarrow> bool" where
  "is_indexable_path filename \<longleftrightarrow> language_for_path filename \<noteq> None"


section \<open>Lemmas on the registry\<close>

lemma find_in_set: "List.find P xs = Some x \<Longrightarrow> x \<in> set xs \<and> P x"
  by (auto simp: find_Some_iff)

abbreviation language_names :: "string list" where
  "language_names \<equiv> map lang_name LANGUAGES"

lemma aliases_in_table: "list_all (\<lambda>(_, n). n \<in> set language_names) type_aliases"
  by code_simp

lemma names_canonical: "list_all (\<lambda>n. n \<noteq> [] \<and> hd n \<noteq> CHR ''.'' \<and> to_ascii_lowercase n = n) language_names"
  by code_simp

lemma resolve_in_table: "resolve_type_alias input = Some n \<Longrightarrow> n \<in> set language_names"
  using aliases_in_table
  by (auto simp: resolve_type_alias_def Let_def list_all_iff dest!: find_in_set map_of_SomeD split: option.splits)

lemma resolve_name:
  assumes "n \<in> set language_names"
  shows "resolve_type_alias n = Some n"
proof -
  have n: "n \<noteq> []" "hd n \<noteq> CHR ''.''" "to_ascii_lowercase n = n"
    using names_canonical assms by (auto simp: list_all_iff)
  then have "dropWhile (\<lambda>c. c = CHR ''.'') (to_ascii_lowercase n) = n" by (cases n) auto
  moreover obtain l where "List.find (\<lambda>l. lang_name l = n) LANGUAGES = Some l"
    using assms find_None_iff [of "\<lambda>l. lang_name l = n" LANGUAGES] by (cases "List.find (\<lambda>l. lang_name l = n) LANGUAGES") auto
  moreover have "lang_name l = n" using find_in_set [OF calculation(2)] by simp
  ultimately show ?thesis by (simp add: resolve_type_alias_def Let_def)
qed

text \<open>A file name with an extension, and what the registry finds for it.\<close>

lemma extension_of_glob:
  assumes "stem \<noteq> []" and "\<not> starts_with ext ''.''" and "stem \<noteq> ''.'' \<or> ext \<noteq> []"
  shows "path_extension (stem @ ''.'' @ ext) = path_extension (''file.'' @ ext)"
proof -
  have last_dot: "rsplit_once (pre @ ''.'' @ e) ''.'' =
      (case rsplit_once e ''.'' of None \<Rightarrow> Some (pre, e) | Some (a, b) \<Rightarrow> Some (pre @ ''.'' @ a, b))" for pre e
  proof (induction pre)
    case Nil
    show ?case by (cases "rsplit_once e ''.''") auto
  next
    case (Cons c pre)
    then show ?case by (cases "rsplit_once e ''.''") auto
  qed
  have "stem @ ''.'' @ ext \<noteq> ''..''" using assms by (cases stem; cases "tl stem"; cases ext) auto
  then show ?thesis
    using assms(1) last_dot [of stem ext] last_dot [of "''file''" ext]
    by (auto simp: path_extension_def split: option.splits)
qed

lemma no_pattern_matches_file: "list_all (\<lambda>l. list_all (\<lambda>p. \<not> starts_with p ''file'' \<and> \<not> starts_with p ''=file'' \<and> p \<noteq> []
     \<and> \<not> prefix p ''file'') (filenames l)) LANGUAGES"
  by code_simp

lemma exact_patterns_without_dot:
  "list_all (\<lambda>l. list_all (\<lambda>p. starts_with p ''='' \<longrightarrow> CHR ''.'' \<notin> set p) (filenames l)) LANGUAGES"
  by code_simp

lemma file_not_matched: "List.find (\<lambda>l. list_ex (filename_matches (''file.'' @ ext)) (filenames l)) LANGUAGES = None"
proof -
  have "\<not> filename_matches (''file.'' @ ext) p" if l: "l \<in> set LANGUAGES" and p: "p \<in> set (filenames l)" for l p
  proof -
    have ok: "\<not> starts_with p ''file''" "\<not> starts_with p ''=file''" "p \<noteq> []" "\<not> prefix p ''file''"
      using no_pattern_matches_file l p by (auto simp: list_all_iff)
    have "p \<noteq> ''file.'' @ ext" using ok(1) by auto
    moreover have "\<not> prefix p (''file.'' @ ext)"
    proof
      assume "prefix p (''file.'' @ ext)"
      then consider "prefix p ''file.''" | "prefix ''file.'' p" using prefix_same_cases [of p "''file.'' @ ext" "''file.''"] by auto
      then show False
      proof cases
        case 1
        then have "p = ''file'' @ ''.'' \<or> prefix p ''file''" using prefix_snoc [of p "''file''" "CHR ''.''"] by simp
        then show ?thesis using ok(1,4) by auto
      next
        case 2
        then have "prefix ''file'' p" by (metis append.simps append_prefixD)
        then show ?thesis using ok(1) by blast
      qed
    qed
    moreover have "''file.'' @ ext \<noteq> e" if "p = ''='' @ e" for e using ok(2) that by auto
    ultimately show ?thesis by (auto simp: filename_matches_def strip_prefix_Some split: option.splits)
  qed
  then show ?thesis by (auto simp: find_None_iff list_ex_iff)
qed

text \<open>An extension that is also the name of a language belongs to that language.\<close>

lemma names_as_extensions:
  "list_all (\<lambda>l. list_all (\<lambda>e. to_ascii_lowercase e \<in> set language_names \<longrightarrow> to_ascii_lowercase e = lang_name l) (extensions l)) LANGUAGES"
  by code_simp

lemma extensions_disjoint:
  "distinct (concat (map (\<lambda>l. remdups (map to_ascii_lowercase (extensions l))) LANGUAGES))"
  by code_simp

lemma extensions_plain: "list_all (\<lambda>l. list_all (\<lambda>e. list_all (\<lambda>c. c \<noteq> CHR ''.'') e
     \<and> list_all (\<lambda>c. c \<noteq> CHR ''.'') (to_ascii_lowercase e) \<and> e \<noteq> []) (extensions l)) LANGUAGES"
  by code_simp

lemma distinct_concat_same:
  "distinct (concat (map f xs)) \<Longrightarrow> a \<in> set xs \<Longrightarrow> b \<in> set xs \<Longrightarrow> z \<in> set (f a) \<Longrightarrow> z \<in> set (f b) \<Longrightarrow> a = b"
  by (induction xs) auto

lemma find_extension:
  assumes "l \<in> set LANGUAGES" and "e \<in> set (extensions l)" and "to_ascii_lowercase x = to_ascii_lowercase e"
  shows "List.find (\<lambda>l. list_ex (\<lambda>e. eq_ignore_ascii_case e x) (extensions l)) LANGUAGES = Some l"
proof -
  let ?P = "\<lambda>l. list_ex (\<lambda>e. eq_ignore_ascii_case e x) (extensions l)"
  have "?P l" using assms(2,3) by (auto simp: list_ex_iff eq_ignore_ascii_case_def)
  then obtain d where d: "List.find ?P LANGUAGES = Some d"
    using assms(1) find_None_iff [of ?P LANGUAGES] by (cases "List.find ?P LANGUAGES") auto
  have "to_ascii_lowercase e \<in> set (remdups (map to_ascii_lowercase (extensions d)))"
    using find_in_set [OF d] assms(3)
    by (auto simp: list_ex_iff eq_ignore_ascii_case_def intro: rev_image_eqI)
  then have "d = l"
    using distinct_concat_same [OF extensions_disjoint _ assms(1)] find_in_set [OF d] assms(2) by auto
  then show ?thesis using d by simp
qed

lemma resolve_extension:
  assumes "l \<in> set LANGUAGES" and "e \<in> set (extensions l)"
  shows "resolve_type_alias e = language_for_path (Some (''file.'' @ e))"
proof -
  have plain: "CHR ''.'' \<notin> set e" "CHR ''.'' \<notin> set (to_ascii_lowercase e)" "e \<noteq> []"
    using extensions_plain assms by (auto simp: list_all_iff)
  have "rsplit_once (''file'' @ ''.'' @ e) ''.'' = Some (''file'', e)"
    using plain(1) by (intro rsplit_once_last) (auto dest: set_mono_sublist)
  then have "language_for_path (Some (''file.'' @ e)) = Some (lang_name l)"
    using file_not_matched [of e] find_extension [OF assms refl]
    by (simp add: language_for_path_def find_language_def_def path_extension_def)
  moreover have "resolve_type_alias e = Some (lang_name l)"
  proof -
    let ?low = "to_ascii_lowercase e"
    have low: "dropWhile (\<lambda>c. c = CHR ''.'') ?low = ?low"
      using plain(2) by (cases ?low) auto
    have named: "lang_name d = lang_name l" if "List.find (\<lambda>l. lang_name l = ?low) LANGUAGES = Some d" for d
    proof -
      have d: "lang_name d = ?low" "d \<in> set LANGUAGES" using find_in_set [OF that] by auto
      have "lang_name d \<in> set language_names" unfolding set_map by (rule imageI [OF d(2)])
      then have "?low \<in> set language_names" using d(1) by (simp only:)
      then have "?low = lang_name l" using names_as_extensions assms unfolding list_all_iff by blast
      then show ?thesis using d(1) by simp
    qed
    show ?thesis
    proof (cases "List.find (\<lambda>l. lang_name l = ?low) LANGUAGES")
      case None
      then show ?thesis using low find_extension [OF assms, of ?low] by (simp add: resolve_type_alias_def)
    next
      case (Some d)
      then show ?thesis using low named [OF Some] by (simp add: resolve_type_alias_def)
    qed
  qed
  ultimately show ?thesis by simp
qed


section \<open>Properties\<close>

text \<open>Theorem. The languages of an extension glob are complete: whatever file name ends with the
  extension, if the registry gives it a language, then that language is in the list that the
  glob is translated to. A filter on these languages excludes no file of the glob.\<close>

theorem extension_glob_complete:
  assumes "languages_for_extension_glob ext = Some ls" and "\<not> starts_with ext ''.''"
    and "stem \<noteq> []" and "stem \<noteq> ''.'' \<or> ext \<noteq> []"
    and "language_for_path (Some (stem @ ''.'' @ ext)) = Some l"
  shows "l \<in> set ls"
proof -
  let ?name = "stem @ ''.'' @ ext"
  obtain primary where primary: "language_for_path (Some (''file.'' @ ext)) = Some primary"
    and ls: "ls = primary # map lang_name (filter (\<lambda>l. lang_name l \<noteq> primary
                  \<and> list_ex (\<lambda>p. \<not> starts_with p ''='') (filenames l)) LANGUAGES)"
    using assms(1) by (auto simp: languages_for_extension_glob_def split: option.splits)
  show ?thesis
  proof (cases "List.find (\<lambda>l. list_ex (filename_matches ?name) (filenames l)) LANGUAGES")
    case (Some d)
    then have d: "d \<in> set LANGUAGES" "lang_name d = l" and "list_ex (filename_matches ?name) (filenames d)"
      using assms(5) find_in_set [OF Some] by (auto simp: language_for_path_def find_language_def_def)
    then obtain p where p: "p \<in> set (filenames d)" "filename_matches ?name p" by (auto simp: list_ex_iff)
    have "\<not> starts_with p ''=''"
    proof
      assume eq: "starts_with p ''=''"
      then have "CHR ''.'' \<notin> set p" using exact_patterns_without_dot d(1) p(1) by (auto simp: list_all_iff)
      moreover obtain e where "p = ''='' @ e" using eq by (auto simp: prefix_def)
      ultimately show False using p(2) by (auto simp: filename_matches_def strip_prefix_def)
    qed
    then show ?thesis using ls d p(1) by (cases "l = primary") (auto simp: list_ex_iff)
  next
    case None
    then have "language_for_path (Some ?name) = language_for_path (Some (''file.'' @ ext))"
      using extension_of_glob [OF assms(3,2,4)] file_not_matched [of ext]
      by (simp add: language_for_path_def find_language_def_def)
    then show ?thesis using primary ls assms(5) by simp
  qed
qed

lemma glob_rs: "languages_for_extension_glob ''rs'' \<noteq> None"
  by code_simp

theorem extension_glob_complete_witness:
  "\<exists>ls l. languages_for_extension_glob ''rs'' = Some ls \<and> language_for_path (Some (''Dockerfile'' @ ''.'' @ ''rs'')) = Some l \<and> l \<in> set ls"
proof -
  obtain ls where ls: "languages_for_extension_glob ''rs'' = Some ls" using glob_rs by auto
  have l: "language_for_path (Some (''Dockerfile'' @ ''.'' @ ''rs'')) = Some ''dockerfile''" by code_simp
  show ?thesis using extension_glob_complete [OF ls _ _ _ l] ls l by auto
qed

text \<open>Theorem. A type filter resolves to the name of a language of the registry or to nothing, and
  resolving that name again gives the same name; and every extension of the registry resolves as
  a filter to the language that a file with this extension has.\<close>

theorem type_filter_sound:
  "(resolve_type_alias input = Some n \<longrightarrow> n \<in> set (map lang_name LANGUAGES) \<and> resolve_type_alias n = Some n)
   \<and> (\<forall>l\<in>set LANGUAGES. \<forall>e\<in>set (extensions l). resolve_type_alias e = language_for_path (Some (''file.'' @ e)))"
  using resolve_in_table resolve_name resolve_extension by blast

theorem type_filter_sound_witness: "resolve_type_alias ''.PYI'' = Some ''python'' \<and> resolve_type_alias ''python'' = Some ''python''"
proof -
  have "resolve_type_alias ''.PYI'' = Some ''python''" by code_simp
  then show ?thesis using type_filter_sound [of "''.PYI''" "''python''"] by simp
qed

end
