(* ===== verification/Chunking.thy ===== *)
theory Chunking
  imports Languages
begin

text \<open>
  Text sniffing and heuristic chunking, \<^verbatim>\<open>src/src/chunking.rs\<close>: the test whether a file is text and
  not minified, on the whole file and on a stream of reads; the bounded line windows that a
  definition or an unstructured file is cut into; the chunker for sources without a syntax tree,
  with the tree-sitter chunker as an argument; and the removal of the header that a stored
  chunk carries. The theorems show that the streaming test agrees with the test on the whole
  file for every way the file is read, that the chunks stay within the file and within their
  limits and leave out no line that says anything, and that a preview gets back exactly
  the lines of its chunk.
\<close>

section \<open>Is it text?\<close>

definition TEXT_SNIFF_BYTES :: nat where "TEXT_SNIFF_BYTES = 8 * 1024"
definition MAX_SOURCE_LINE_BYTES :: nat where "MAX_SOURCE_LINE_BYTES = 50000"

abbreviation newline :: char where
  "newline \<equiv> CHR 0x0A"

text \<open>\<^verbatim>\<open>std::str::from_utf8\<close>: a character at the start of the bytes is complete, cut off by their
  end, or invalid after some bytes.\<close>

datatype char_check = Complete nat | CutOff | Invalid nat

definition tail_check :: "char list \<Rightarrow> nat \<Rightarrow> nat \<Rightarrow> char_check" where
  "tail_check bs k width =
     (if length bs \<le> k then CutOff
      else if \<not> is_continuation (bs ! k) then Invalid k
      else if width \<le> k + 1 then Complete width
      else if length bs \<le> k + 1 then CutOff
      else if \<not> is_continuation (bs ! (k + 1)) then Invalid (k + 1)
      else Complete width)"

definition second_ok :: "nat \<Rightarrow> nat \<Rightarrow> bool" where
  "second_ok first second \<longleftrightarrow>
     (if first = 0xE0 then 0xA0 \<le> second \<and> second \<le> 0xBF
      else if first = 0xED then 0x80 \<le> second \<and> second \<le> 0x9F
      else if first = 0xF0 then 0x90 \<le> second \<and> second \<le> 0xBF
      else if first = 0xF4 then 0x80 \<le> second \<and> second \<le> 0x8F
      else 0x80 \<le> second \<and> second \<le> 0xBF)"

definition check_char :: "char list \<Rightarrow> char_check" where
  "check_char bs =
     (let first = code (hd bs)
      in if first < 0x80 then Complete 1
         else if 0xC2 \<le> first \<and> first \<le> 0xDF then tail_check bs 1 2
         else if 0xE0 \<le> first \<and> first \<le> 0xF4
         then (if length bs \<le> 1 then CutOff
               else if \<not> second_ok first (code (bs ! 1)) then Invalid 1
               else tail_check bs 2 (if first \<le> 0xEF then 3 else 4))
         else Invalid 1)"

datatype utf8_result = Utf8Ok | Utf8Error nat "nat option"

function from_utf8 :: "nat \<Rightarrow> char list \<Rightarrow> utf8_result" where
  "from_utf8 valid [] = Utf8Ok"
| "from_utf8 valid (b # bs) =
     (case check_char (b # bs) of
        Complete n \<Rightarrow> from_utf8 (valid + n) (drop n (b # bs))
      | CutOff \<Rightarrow> Utf8Error valid None
      | Invalid n \<Rightarrow> Utf8Error valid (Some n))"
  by pat_completeness auto
termination
proof (relation "measure (length \<circ> snd)", goal_cases)
  case (2 valid b bs n)
  then have "0 < n" by (auto simp: check_char_def tail_check_def Let_def split: if_splits)
  then show ?case by simp
qed simp

text \<open>The last test compares two \<^verbatim>\<open>f32\<close> values, \<^verbatim>\<open>printable / len\<close> and 0.85. Both counts are at most 8192
  and exact; the quotient is off by less than $2^{-24}$ while it differs from 17/20 by at least
  $1/(20 \cdot 8192)$ or not at all, and equal quotients round equally, so the comparison is that of the
  fractions.\<close>

definition is_printable_byte :: "char \<Rightarrow> bool" where
  "is_printable_byte b \<longleftrightarrow> code b \<in> {10, 13, 9, 0x0C} \<or> 0x20 \<le> code b \<and> code b \<le> 0x7E"

definition is_probably_text :: "char list \<Rightarrow> bool" where
  "is_probably_text bytes =
     (let sample = take TEXT_SNIFF_BYTES bytes
      in if sample = [] then False
         else if CHR 0x00 \<in> set sample then False
         else case from_utf8 0 sample of
                Utf8Ok \<Rightarrow> True
              | Utf8Error valid_up_to error_len \<Rightarrow>
                  if error_len = None \<and> 0 < valid_up_to then True
                  else 17 * length sample \<le> 20 * length (filter is_printable_byte sample))"


section \<open>Minified files and the test on a stream\<close>

text \<open>The result is the verdict and the run of bytes without a line break up to the end.\<close>

fun scan_minified_run :: "nat \<Rightarrow> char list \<Rightarrow> bool \<times> nat" where
  "scan_minified_run run [] = (False, run)"
| "scan_minified_run run (b # bs) =
     (if b = newline then scan_minified_run 0 bs
      else if MAX_SOURCE_LINE_BYTES \<le> run + 1 then (True, run + 1)
      else scan_minified_run (run + 1) bs)"

definition is_minified_blob :: "char list \<Rightarrow> bool" where
  "is_minified_blob bytes = fst (scan_minified_run 0 bytes)"

definition is_indexable_file :: "string option \<Rightarrow> char list \<Rightarrow> bool" where
  "is_indexable_file filename bytes =
     (if bytes = [] then False
      else if \<not> is_probably_text bytes then False
      else if is_minified_blob bytes then False
      else if is_indexable_path filename then True
      else True)"

text \<open>A reader as the results of its \<^verbatim>\<open>read\<close> calls: an error, or the bytes read; no bytes, or no further
  result, is the end of the file.\<close>

fun reader_loop :: "char list \<Rightarrow> nat \<Rightarrow> ('e + char list) list \<Rightarrow> 'e + bool" where
  "reader_loop sample run [] = Inr (is_probably_text sample)"
| "reader_loop sample run (Inl e # rest) = Inl e"
| "reader_loop sample run (Inr bytes # rest) =
     (if bytes = [] then Inr (is_probably_text sample)
      else
        let sample' = (if length sample < TEXT_SNIFF_BYTES
                       then sample @ take (TEXT_SNIFF_BYTES - length sample) bytes else sample)
        in if length sample < TEXT_SNIFF_BYTES \<and> length sample' = TEXT_SNIFF_BYTES
              \<and> \<not> is_probably_text sample' then Inr False
           else let (hit, run') = scan_minified_run run bytes
                in if hit then Inr False else reader_loop sample' run' rest)"

definition is_indexable_file_reader :: "('e + char list) list \<Rightarrow> 'e + bool" where
  "is_indexable_file_reader reads = reader_loop [] 0 reads"


section \<open>Chunks\<close>

record ChunkDefinition =
  def_name :: string
  owner :: "string option"

record Chunk =
  chunk_id :: string
  file_path :: string
  start_line :: nat
  end_line :: nat
  chunk_text :: string
  language :: string
  chunk_kind :: ChunkKind
  content_hash :: string
  definitions :: "ChunkDefinition list option"

text \<open>The hash function and the hexadecimal encoding of the two libraries.\<close>

record hasher =
  xxh3_128 :: "string \<Rightarrow> string"
  hex_encode :: "string \<Rightarrow> string"

definition usize_le_bytes :: "nat \<Rightarrow> string" where
  "usize_le_bytes n = map (\<lambda>i. char_of (n div 256 ^ i mod 256)) [0..<8]"

definition make_chunk ::
    "hasher \<Rightarrow> string \<Rightarrow> nat \<Rightarrow> nat \<Rightarrow> string \<Rightarrow> string \<Rightarrow> ChunkKind \<Rightarrow> ChunkDefinition list option \<Rightarrow> Chunk" where
  "make_chunk h rel_path s e txt lng kind defs =
     (let data = rel_path @ usize_le_bytes s @ usize_le_bytes e @ txt;
          digest = xxh3_128 h data
      in \<lparr>chunk_id = digest, file_path = rel_path, start_line = s, end_line = e, chunk_text = txt,
          language = lng, chunk_kind = kind, content_hash = hex_encode h digest, definitions = defs\<rparr>)"

fun join_lines :: "string list \<Rightarrow> string" where
  "join_lines [] = []"
| "join_lines [l] = l"
| "join_lines (l # ls) = l @ [newline] @ join_lines ls"

text \<open>\<^verbatim>\<open>str::lines\<close>.\<close>

definition strip_line_end :: "string \<Rightarrow> string" where
  "strip_line_end l =
     (case strip_suffix l [newline] of
        None \<Rightarrow> l
      | Some l1 \<Rightarrow> (case strip_suffix l1 [CHR 0x0D] of None \<Rightarrow> l1 | Some l2 \<Rightarrow> l2))"

definition rust_lines :: "string \<Rightarrow> string list" where
  "rust_lines s = map strip_line_end (split_inclusive newline s)"

text \<open>The lines \<open>a\<close> to \<open>b\<close>, counted from one.\<close>

abbreviation line_range :: "string list \<Rightarrow> nat \<Rightarrow> nat \<Rightarrow> string list" where
  "line_range lines a b \<equiv> slice_of lines (a - 1) b"


section \<open>Windows of lines\<close>

definition MAX_STRUCTURAL_CHUNK_LINES :: nat where "MAX_STRUCTURAL_CHUNK_LINES = 128"
definition MAX_STRUCTURAL_CHUNK_BYTES :: nat where "MAX_STRUCTURAL_CHUNK_BYTES = 4096"
definition STRUCTURAL_CHUNK_OVERLAP_LINES :: nat where "STRUCTURAL_CHUNK_OVERLAP_LINES = 8"

function grow_window :: "string list \<Rightarrow> nat \<Rightarrow> nat \<Rightarrow> nat \<Rightarrow> nat \<Rightarrow> nat" where
  "grow_window lines ws last_line we bytes =
     (if we < last_line \<and> we - ws + 1 < MAX_STRUCTURAL_CHUNK_LINES
      then let next_bytes = length (lines ! we) + 1
           in if MAX_STRUCTURAL_CHUNK_BYTES < bytes + next_bytes then we
              else grow_window lines ws last_line (we + 1) (bytes + next_bytes)
      else we)"
  by pat_completeness auto
termination by (relation "measure (\<lambda>(_, _, last_line, we, _). last_line - we)") auto

declare grow_window.simps [simp del]

definition window_end :: "string list \<Rightarrow> nat \<Rightarrow> nat \<Rightarrow> nat" where
  "window_end lines last_line ws = grow_window lines ws last_line ws (length (lines ! (ws - 1)))"

function structural_windows :: "string list \<Rightarrow> nat \<Rightarrow> nat \<Rightarrow> (nat \<times> nat) list" where
  "structural_windows lines last_line ws =
     (if ws \<le> last_line
      then let we = window_end lines last_line ws
           in (ws, we) # (if we = last_line then []
                else structural_windows lines last_line
                       (max (we - (STRUCTURAL_CHUNK_OVERLAP_LINES - 1)) (ws + 1)))
      else [])"
  by pat_completeness auto
termination by (relation "measure (\<lambda>(_, last_line, ws). Suc last_line - ws)") auto

declare structural_windows.simps [simp del]

definition is_trivial_line :: "string \<Rightarrow> bool" where
  "is_trivial_line l \<longleftrightarrow> trim l \<in> set [[], ''{'', ''}'', ''};'', '');'']"

definition structural_chunk ::
    "hasher \<Rightarrow> string \<Rightarrow> string list \<Rightarrow> nat \<Rightarrow> string \<Rightarrow> ChunkKind \<Rightarrow> string \<Rightarrow> ChunkDefinition list option
       \<Rightarrow> nat \<times> nat \<Rightarrow> Chunk" where
  "structural_chunk h rel_path lines first_line lng kind context_line defs = (\<lambda>(ws, we).
     let block = join_lines (line_range lines ws we);
         (txt, window_defs) =
           (if ws = first_line then (''// '' @ rel_path @ [newline, newline] @ block, defs)
            else (''// '' @ rel_path @ [newline] @ ''// continuation of '' @ context_line @ [newline, newline] @ block,
                  if defs \<noteq> None \<or> kind \<noteq> ModuleChunk then Some [] else None))
     in make_chunk h rel_path ws we txt lng kind window_defs)"

definition push_bounded_structural_chunks ::
    "hasher \<Rightarrow> string \<Rightarrow> string list \<Rightarrow> nat \<times> nat \<Rightarrow> string \<Rightarrow> ChunkKind \<Rightarrow> string \<Rightarrow> ChunkDefinition list option
       \<Rightarrow> Chunk list \<Rightarrow> Chunk list" where
  "push_bounded_structural_chunks h rel_path lines span lng kind context_line defs chunks =
     (let (first_line, last_line) = span
      in if last_line < first_line \<or> list_all is_trivial_line (line_range lines first_line last_line) then chunks
         else chunks @ map (structural_chunk h rel_path lines first_line lng kind context_line defs)
                (structural_windows lines last_line first_line))"

function fallback_windows :: "nat \<Rightarrow> nat \<Rightarrow> (nat \<times> nat) list" where
  "fallback_windows n start =
     (if start \<le> n
      then let last_line = min (start + 80 - 1) n
           in (start, last_line) # (if last_line = n then [] else fallback_windows n (last_line - 20 + 1))
      else [])"
  by pat_completeness auto
termination by (relation "measure (\<lambda>(n, start). Suc n - start)") (auto simp: min_def split: if_splits)

declare fallback_windows.simps [simp del]

definition fallback_chunks :: "hasher \<Rightarrow> string \<Rightarrow> string \<Rightarrow> string list \<Rightarrow> Chunk list" where
  "fallback_chunks h rel_path lng lines =
     map (\<lambda>(s, e). make_chunk h rel_path s e
            (''// '' @ rel_path @ [newline, newline] @ join_lines (line_range lines s e)) lng TextChunk None)
       (fallback_windows (length lines) 1)"


section \<open>The heuristic chunker\<close>

definition is_leading_doc_line :: "string \<Rightarrow> string \<Rightarrow> bool" where
  "is_leading_doc_line trimmed lng =
     (if starts_with_any trimmed
           [''//'', ''/*'', ''*'', ''--'', '';'', replicate 3 (CHR 0x22), replicate 3 (CHR 0x27)] then True
      else if starts_with trimmed ''@''
      then lng \<in> set [''python'', ''java'', ''kotlin'', ''typescript'', ''javascript'', ''swift'', ''scala'', ''dart'']
      else if starts_with trimmed ''#['' \<or> starts_with trimmed ''#!'' then True
      else if starts_with trimmed ''#''
      then lng \<in> set [''python'', ''ruby'', ''php'', ''perl'', ''shell'']
      else False)"

text \<open>Recursion on the line number; \<open>lines ! (start - 2)\<close> is the line above.\<close>

fun leading_doc_start :: "nat \<Rightarrow> string \<Rightarrow> string list \<Rightarrow> nat" where
  "leading_doc_start 0 lng lines = 0"
| "leading_doc_start (Suc n) lng lines =
     (if 1 < Suc n \<and> is_leading_doc_line (trim (lines ! (Suc n - 2))) lng
      then leading_doc_start n lng lines else Suc n)"

definition generated_header :: "string list \<Rightarrow> bool" where
  "generated_header lines \<longleftrightarrow>
     list_ex (\<lambda>line. let lower = to_ascii_lowercase line
        in contains_str lower ''@generated'' \<or> contains_str lower ''generated''
           \<or> contains_str lower ''automatically generated'' \<or> contains_str lower ''do not edit'') (take 20 lines)"

definition should_skip_tree_sitter_for_generated_source ::
    "string \<Rightarrow> string list \<Rightarrow> (string \<Rightarrow> ChunkKind option) \<Rightarrow> bool" where
  "should_skip_tree_sitter_for_generated_source lng lines detect =
     (if lng \<noteq> ''rust'' \<or> length lines < 200 then False
      else
        let kinds = List.map_filter (\<lambda>line. detect (trim line)) lines;
            signature_count = length kinds;
            only_function_signatures = list_all (\<lambda>k. k = FunctionChunk) kinds
        in if generated_header lines then 50 \<le> signature_count
           else only_function_signatures \<and> 50 \<le> signature_count \<and> length lines \<le> signature_count * 4)"

definition collect_signatures :: "(string \<Rightarrow> ChunkKind option) \<Rightarrow> string list \<Rightarrow> (nat \<times> ChunkKind) list" where
  "collect_signatures detect lines =
     List.map_filter (\<lambda>(idx, line). map_option (\<lambda>kind. (idx + 1, kind)) (detect (trim_start line)))
       (enumerate 0 lines)"

record RustDocInclude =
  source_line :: nat
  include_path :: string

record ChunkedSource =
  chunks :: "Chunk list"
  rust_doc_includes :: "RustDocInclude list"

text \<open>The loop over the signatures with the first lines of their chunks.\<close>

fun signature_chunks ::
    "hasher \<Rightarrow> string \<Rightarrow> string list \<Rightarrow> string \<Rightarrow> (nat \<times> nat \<times> ChunkKind) list \<Rightarrow> Chunk list \<Rightarrow> Chunk list" where
  "signature_chunks h rel_path lines lng [] acc = acc"
| "signature_chunks h rel_path lines lng ((start, definition_start, kind) # rest) acc =
     (let last_line = (case rest of [] \<Rightarrow> length lines | (next_start, _) # _ \<Rightarrow> next_start - 1)
      in signature_chunks h rel_path lines lng rest
           (if last_line < start then acc
            else push_bounded_structural_chunks h rel_path lines (start, last_line) lng kind
                   (trim (lines ! (definition_start - 1))) None acc))"

text \<open>The tree-sitter chunker is a function of the path, the text, the language and the lines.\<close>

type_synonym tree_chunker = "string \<Rightarrow> string \<Rightarrow> string \<Rightarrow> string list \<Rightarrow> ChunkedSource option"

definition heuristic_chunks ::
    "hasher \<Rightarrow> string \<Rightarrow> string list \<Rightarrow> string \<Rightarrow> (nat \<times> ChunkKind) list \<Rightarrow> Chunk list" where
  "heuristic_chunks h rel_path lines lng signatures =
     (if signatures = [] then fallback_chunks h rel_path lng lines
      else
        let starts = map (\<lambda>(start, _). leading_doc_start start lng lines) signatures;
            preamble_end = hd starts - 1;
            acc = (if 0 < preamble_end
                   then push_bounded_structural_chunks h rel_path lines (1, preamble_end) lng ModuleChunk
                          (trim (hd lines)) None []
                   else [])
        in signature_chunks h rel_path lines lng (zip starts signatures) acc)"

text \<open>\<open>filename\<close> is the file name of the path \<open>rel_path\<close>.\<close>

definition chunk_source_with_metadata ::
    "hasher \<Rightarrow> tree_chunker \<Rightarrow> string option \<Rightarrow> string \<Rightarrow> string \<Rightarrow> ChunkedSource" where
  "chunk_source_with_metadata h tree filename rel_path tx =
     (let lang_def = find_language_def filename;
          lng = (case lang_def of Some d \<Rightarrow> lang_name d | None \<Rightarrow> ''text'');
          lines = rust_lines tx
      in if lines = [] then \<lparr>chunks = [], rust_doc_includes = []\<rparr>
         else
           let skip = (case lang_def of
                         Some d \<Rightarrow> should_skip_tree_sitter_for_generated_source lng lines (detect_signature d)
                       | None \<Rightarrow> False);
               parsed = (if skip then None else tree rel_path tx lng lines);
               signatures = (case lang_def of
                               Some d \<Rightarrow> collect_signatures (detect_signature d) lines
                             | None \<Rightarrow> [])
           in case parsed of
                Some chunked \<Rightarrow>
                  if chunks chunked \<noteq> [] then chunked
                  else \<lparr>chunks = heuristic_chunks h rel_path lines lng signatures, rust_doc_includes = []\<rparr>
              | None \<Rightarrow> \<lparr>chunks = heuristic_chunks h rel_path lines lng signatures, rust_doc_includes = []\<rparr>)"


section \<open>The header of a stored chunk\<close>

fun split_once :: "char \<Rightarrow> string \<Rightarrow> (string \<times> string) option" where
  "split_once d [] = None"
| "split_once d (c # s) =
     (if c = d then Some ([], s) else map_option (\<lambda>(a, b). (c # a, b)) (split_once d s))"

definition same_path_ignoring_separators :: "string \<Rightarrow> string \<Rightarrow> bool" where
  "same_path_ignoring_separators left right \<longleftrightarrow>
     length left = length right
     \<and> list_all2 (\<lambda>l r. l = r \<or> l \<in> {CHR ''/'', CHR 0x5C} \<and> r \<in> {CHR ''/'', CHR 0x5C}) left right"

definition strip_chunk_header :: "string \<Rightarrow> string \<Rightarrow> string" where
  "strip_chunk_header tx rel_path =
     (case Option.bind (strip_prefix tx ''// '') (split_once newline) of
        None \<Rightarrow> tx
      | Some (header_path, rest) \<Rightarrow>
          if \<not> same_path_ignoring_separators header_path rel_path then tx
          else
            let rest1 = (case split_once newline rest of
                           Some (line, body) \<Rightarrow>
                             if starts_with line ''// continuation of ''
                                \<or> starts_with line ''// Rust documentation included from '' then body else rest
                         | None \<Rightarrow> rest)
            in case strip_prefix rest1 [newline] of Some body \<Rightarrow> body | None \<Rightarrow> tx)"


section \<open>The test on a stream\<close>

lemma scan_append:
  "scan_minified_run run (a @ b) =
     (let (hit, r) = scan_minified_run run a in if hit then (True, r) else scan_minified_run r b)"
  by (induction run a rule: scan_minified_run.induct) (auto simp: Let_def)

lemma scan_long_line:
  "run < MAX_SOURCE_LINE_BYTES \<Longrightarrow>
   fst (scan_minified_run run bs) \<longleftrightarrow>
     MAX_SOURCE_LINE_BYTES \<le> run + length (hd (split_on (\<lambda>c. c = newline) bs))
     \<or> (\<exists>l\<in>set (tl (split_on (\<lambda>c. c = newline) bs)). MAX_SOURCE_LINE_BYTES \<le> length l)"
proof (induction run bs rule: scan_minified_run.induct)
  case (2 run b bs)
  obtain l ls where ls: "split_on (\<lambda>c. c = newline) bs = l # ls" by (cases "split_on (\<lambda>c. c = newline) bs") auto
  show ?case
  proof (cases "b = newline")
    case True
    have "0 < MAX_SOURCE_LINE_BYTES" by (simp add: MAX_SOURCE_LINE_BYTES_def)
    then show ?thesis using "2.IH"(1) [OF True] True ls "2.prems" by auto
  next
    case False
    then show ?thesis using 2 ls by (cases "MAX_SOURCE_LINE_BYTES \<le> run + 1") auto
  qed
qed simp

lemma text_of_sample: "is_probably_text (take TEXT_SNIFF_BYTES x) = is_probably_text x"
  by (simp add: is_probably_text_def)

lemma text_full:
  assumes "TEXT_SNIFF_BYTES \<le> length c"
  shows "is_probably_text (c @ x) = is_probably_text c"
  using assms by (simp add: is_probably_text_def)

lemma reader_loop_step:
  "reader_loop (take TEXT_SNIFF_BYTES c) run (Inr bs # rest) =
     (if bs = [] then Inr (is_probably_text (take TEXT_SNIFF_BYTES c))
      else if length (take TEXT_SNIFF_BYTES c) < TEXT_SNIFF_BYTES
            \<and> length (take TEXT_SNIFF_BYTES (c @ bs)) = TEXT_SNIFF_BYTES
            \<and> \<not> is_probably_text (take TEXT_SNIFF_BYTES (c @ bs)) then Inr False
      else let (hit, run') = scan_minified_run run bs
           in if hit then Inr False else reader_loop (take TEXT_SNIFF_BYTES (c @ bs)) run' rest)"
proof -
  let ?N = TEXT_SNIFF_BYTES
  have "(if length (take ?N c) < ?N then take ?N c @ take (?N - length (take ?N c)) bs else take ?N c)
      = take ?N (c @ bs)"
    by (auto simp: min_def)
  then show ?thesis by (simp only: reader_loop.simps Let_def)
qed

declare reader_loop.simps(3) [simp del]

text \<open>What the bytes read so far already decide: an over-long line, or a full sample that is not text.\<close>

definition rejected :: "char list \<Rightarrow> bool" where
  "rejected bs \<longleftrightarrow> is_minified_blob bs \<or> TEXT_SNIFF_BYTES \<le> length bs \<and> \<not> is_probably_text bs"

lemma minified_append: "is_minified_blob c \<Longrightarrow> is_minified_blob (c @ x)"
  by (auto simp: is_minified_blob_def scan_append Let_def split: prod.splits)

lemma rejected_append: "rejected c \<Longrightarrow> rejected (c @ x)"
  using minified_append text_full by (auto simp: rejected_def)

lemma full_sample_iff: "length (take TEXT_SNIFF_BYTES x) = TEXT_SNIFF_BYTES \<longleftrightarrow> TEXT_SNIFF_BYTES \<le> length x"
  unfolding length_take by linarith

lemma reader_read:
  assumes "\<not> rejected c" and "bs \<noteq> []"
  shows "reader_loop (take TEXT_SNIFF_BYTES c) (snd (scan_minified_run 0 c)) (Inr bs # rest) =
     (if rejected (c @ bs) then Inr False
      else reader_loop (take TEXT_SNIFF_BYTES (c @ bs)) (snd (scan_minified_run 0 (c @ bs))) rest)"
proof -
  let ?N = TEXT_SNIFF_BYTES
  obtain run where run: "scan_minified_run 0 c = (False, run)"
    using assms(1) by (cases "scan_minified_run 0 c") (auto simp: rejected_def is_minified_blob_def)
  obtain hit r where sc: "scan_minified_run run bs = (hit, r)" by fastforce
  have whole: "scan_minified_run 0 (c @ bs) = (hit, r)" using run sc by (simp add: scan_append)
  let ?early = "length (take ?N c) < ?N \<and> length (take ?N (c @ bs)) = ?N \<and> \<not> is_probably_text (take ?N (c @ bs))"
  have "?early \<longleftrightarrow> ?N \<le> length (c @ bs) \<and> \<not> is_probably_text (c @ bs)"
  proof (cases "?N \<le> length c")
    case True
    then have "is_probably_text (c @ bs)" using assms(1) text_full by (auto simp: rejected_def)
    then show ?thesis using text_of_sample [of "c @ bs"] by (simp only: simp_thms)
  next
    case False
    then have "length (take ?N c) < ?N" by simp
    then show ?thesis by (simp only: text_of_sample full_sample_iff simp_thms)
  qed
  then have "rejected (c @ bs) \<longleftrightarrow> ?early \<or> hit"
    unfolding rejected_def is_minified_blob_def whole fst_conv by blast
  then show ?thesis
    unfolding run snd_conv reader_loop_step using sc whole assms(2)
    by (cases ?early; cases hit) (simp_all only: prod.case Let_def snd_conv if_False if_True simp_thms)
qed

lemma reader_reads:
  "\<not> rejected c \<Longrightarrow> list_all (\<lambda>b. b \<noteq> []) bss \<Longrightarrow>
   reader_loop (take TEXT_SNIFF_BYTES c) (snd (scan_minified_run 0 c)) (map Inr bss @ rest) =
     (if rejected (c @ concat bss) then Inr False
      else reader_loop (take TEXT_SNIFF_BYTES (c @ concat bss)) (snd (scan_minified_run 0 (c @ concat bss))) rest)"
proof (induction bss arbitrary: c)
  case (Cons bs bss)
  then have ne: "bs \<noteq> []" "list_all (\<lambda>b. b \<noteq> []) bss" by auto
  show ?case
  proof (cases "rejected (c @ bs)")
    case True
    then have "rejected (c @ bs @ concat bss)" using rejected_append [of "c @ bs" "concat bss"] by simp
    then show ?thesis using True by (simp add: reader_read [OF Cons.prems(1) ne(1)] del: take_append)
  next
    case False
    then show ?thesis
      using Cons.IH [OF False ne(2)] by (simp add: reader_read [OF Cons.prems(1) ne(1)] del: take_append)
  qed
qed simp

lemma not_rejected_Nil: "\<not> rejected []"
  by (simp add: rejected_def is_minified_blob_def TEXT_SNIFF_BYTES_def)

lemma reader_from_start:
  "list_all (\<lambda>b. b \<noteq> []) bss \<Longrightarrow> is_indexable_file_reader (map Inr bss @ rest) =
     (if rejected (concat bss) then Inr False
      else reader_loop (take TEXT_SNIFF_BYTES (concat bss)) (snd (scan_minified_run 0 (concat bss))) rest)"
  using reader_reads [OF not_rejected_Nil, of bss rest] by (simp add: is_indexable_file_reader_def)

lemma minified_iff:
  "is_minified_blob bs \<longleftrightarrow> (\<exists>l\<in>set (split_on (\<lambda>c. c = newline) bs). MAX_SOURCE_LINE_BYTES \<le> length l)"
proof -
  obtain l ls where "split_on (\<lambda>c. c = newline) bs = l # ls" by (cases "split_on (\<lambda>c. c = newline) bs") auto
  then show ?thesis using scan_long_line [of 0 bs] by (simp add: is_minified_blob_def MAX_SOURCE_LINE_BYTES_def)
qed

lemma indexable_iff: "is_indexable_file filename bs \<longleftrightarrow> is_probably_text bs \<and> \<not> is_minified_blob bs"
  by (auto simp: is_indexable_file_def is_probably_text_def)

text \<open>Claim C28. The test on a stream of reads gives the verdict of the test on the whole contents, however the
  contents are cut into reads; and a file is accepted exactly when it is text by its first 8192 bytes and has
  no line of the maximal length or more.\<close>

theorem stream_test_agrees:
  assumes "list_all (\<lambda>b. b \<noteq> []) reads"
  shows "is_indexable_file_reader (map Inr reads) = Inr (is_indexable_file filename (concat reads))
     \<and> (is_indexable_file filename (concat reads) \<longleftrightarrow> is_probably_text (concat reads)
        \<and> (\<forall>line\<in>set (split_on (\<lambda>c. c = newline) (concat reads)). length line < MAX_SOURCE_LINE_BYTES))"
proof
  show "is_indexable_file_reader (map Inr reads) = Inr (is_indexable_file filename (concat reads))"
    by (auto simp: reader_from_start [OF assms, of "[]", simplified] text_of_sample indexable_iff rejected_def)
  show "is_indexable_file filename (concat reads) \<longleftrightarrow> is_probably_text (concat reads)
        \<and> (\<forall>line\<in>set (split_on (\<lambda>c. c = newline) (concat reads)). length line < MAX_SOURCE_LINE_BYTES)"
    by (auto simp: indexable_iff minified_iff)
qed

theorem stream_test_agrees_witness:
  "list_all (\<lambda>b. b \<noteq> []) [''fn ma'', ''in''] \<and>
   is_indexable_file_reader (map Inr [''fn ma'', ''in'']) =
     (Inr (is_indexable_file (Some ''main.rs'') (concat [''fn ma'', ''in''])) :: string + bool)"
  by (intro conjI stream_test_agrees [THEN conjunct1]) simp_all

text \<open>Claim C39. A failing read is reported unless the bytes before it already reject the file: an over-long line
  or a full sample that is not text ends the test before the failing read.\<close>

theorem stream_test_errors:
  assumes "list_all (\<lambda>b. b \<noteq> []) reads"
  shows "is_indexable_file_reader (map Inr reads @ Inl e # rest) =
     (if is_minified_blob (concat reads)
         \<or> TEXT_SNIFF_BYTES \<le> length (concat reads) \<and> \<not> is_probably_text (concat reads)
      then Inr False else Inl e)"
  by (auto simp: reader_from_start [OF assms] rejected_def)

theorem stream_test_errors_witness:
  "list_all (\<lambda>b. b \<noteq> []) [''fn''] \<and>
   is_indexable_file_reader (map Inr [''fn''] @ [Inl ''denied'']) = Inl ''denied''"
  using stream_test_errors [of "[''fn'']" "''denied''" "[]"]
  by (simp add: is_minified_blob_def MAX_SOURCE_LINE_BYTES_def TEXT_SNIFF_BYTES_def)


section \<open>Windows cover their lines\<close>

lemma join_snoc: "xs \<noteq> [] \<Longrightarrow> length (join_lines (xs @ [y])) = length (join_lines xs) + length y + 1"
  by (induction xs rule: join_lines.induct) auto

lemma grow_window_spec:
  assumes "1 \<le> ws" "ws \<le> we" "we \<le> last_line" "last_line \<le> length lines"
    and "we - ws + 1 \<le> MAX_STRUCTURAL_CHUNK_LINES"
    and "bytes = length (join_lines (line_range lines ws we))"
    and "ws < we \<longrightarrow> bytes \<le> MAX_STRUCTURAL_CHUNK_BYTES"
    and "e = grow_window lines ws last_line we bytes"
  shows "we \<le> e \<and> e \<le> last_line \<and> e - ws + 1 \<le> MAX_STRUCTURAL_CHUNK_LINES
     \<and> (ws < e \<longrightarrow> length (join_lines (line_range lines ws e)) \<le> MAX_STRUCTURAL_CHUNK_BYTES)"
  using assms
proof (induction lines ws last_line we bytes rule: grow_window.induct)
  case (1 lines ws last_line we bytes)
  let ?next = "length (lines ! we) + 1"
  show ?case
  proof (cases "we < last_line \<and> we - ws + 1 < MAX_STRUCTURAL_CHUNK_LINES \<and> bytes + ?next \<le> MAX_STRUCTURAL_CHUNK_BYTES")
    case True
    have "line_range lines ws (we + 1) = line_range lines ws we @ [lines ! we]"
      using "1.prems" True by (simp add: slice_snoc)
    moreover have "line_range lines ws we \<noteq> []"
      using "1.prems" by (simp add: slice_of_def)
    ultimately have "bytes + ?next = length (join_lines (line_range lines ws (we + 1)))"
      using "1.prems"(6) by (simp add: join_snoc)
    moreover have "e = grow_window lines ws last_line (we + 1) (bytes + ?next)"
      using "1.prems"(8) True by (simp add: grow_window.simps [of lines ws last_line we bytes] Let_def)
    ultimately have "we + 1 \<le> e \<and> e \<le> last_line \<and> e - ws + 1 \<le> MAX_STRUCTURAL_CHUNK_LINES
       \<and> (ws < e \<longrightarrow> length (join_lines (line_range lines ws e)) \<le> MAX_STRUCTURAL_CHUNK_BYTES)"
      using "1.prems"(1-5) True by (intro "1.IH") auto
    then show ?thesis by simp
  next
    case False
    then have "grow_window lines ws last_line we bytes = we"
      by (auto simp: grow_window.simps [of lines ws last_line we bytes] Let_def)
    then show ?thesis using "1.prems" by simp
  qed
qed

definition good_window :: "string list \<Rightarrow> nat \<times> nat \<Rightarrow> bool" where
  "good_window lines = (\<lambda>(s, e). 1 \<le> s \<and> s \<le> e \<and> e \<le> length lines \<and> e - s + 1 \<le> MAX_STRUCTURAL_CHUNK_LINES
     \<and> (s < e \<longrightarrow> length (join_lines (line_range lines s e)) \<le> MAX_STRUCTURAL_CHUNK_BYTES))"

lemma window_end_spec:
  assumes "1 \<le> ws" "ws \<le> last_line" "last_line \<le> length lines"
  shows "good_window lines (ws, window_end lines last_line ws) \<and> window_end lines last_line ws \<le> last_line"
proof -
  have "line_range lines ws ws = [lines ! (ws - 1)]"
    using assms slice_snoc [of "ws - 1" "ws - 1" lines] by simp
  then show ?thesis
    using grow_window_spec [OF assms(1) order_refl assms(2,3), of "length (lines ! (ws - 1))" "window_end lines last_line ws"] assms
    by (simp add: good_window_def window_end_def MAX_STRUCTURAL_CHUNK_LINES_def)
qed

text \<open>Every line from \<open>a\<close> to \<open>n\<close> lies in one of the windows.\<close>

definition covered :: "(nat \<times> nat) list \<Rightarrow> nat \<Rightarrow> nat \<Rightarrow> bool" where
  "covered ws a n = (\<forall>i. a \<le> i \<and> i \<le> n \<longrightarrow> (\<exists>w\<in>set ws. fst w \<le> i \<and> i \<le> snd w))"

lemma covered_Nil: "n < a \<Longrightarrow> covered ws a n"
  by (auto simp: covered_def)

lemma covered_single: "covered [(a, n)] a n"
  by (simp add: covered_def)

text \<open>A window in front of windows that start no later than one line after it.\<close>

lemma covered_step:
  assumes "next_ws \<le> we + 1" and "covered rest next_ws n"
  shows "covered ((ws, we) # rest) ws n"
  unfolding covered_def
proof (intro allI impI)
  fix i assume i: "ws \<le> i \<and> i \<le> n"
  show "\<exists>w\<in>set ((ws, we) # rest). fst w \<le> i \<and> i \<le> snd w"
  proof (cases "i \<le> we")
    case False
    then have "next_ws \<le> i" using assms(1) by simp
    then show ?thesis using assms(2) i unfolding covered_def by auto
  qed (use i in auto)
qed

lemma structural_windows_spec:
  "1 \<le> ws \<Longrightarrow> last_line \<le> length lines \<Longrightarrow>
   list_all (good_window lines) (structural_windows lines last_line ws)
   \<and> covered (structural_windows lines last_line ws) ws last_line"
proof (induction lines last_line ws rule: structural_windows.induct)
  case (1 lines last_line ws)
  show ?case
  proof (cases "ws \<le> last_line")
    case True
    let ?we = "window_end lines last_line ws"
    have we: "good_window lines (ws, ?we)" "?we \<le> last_line" using window_end_spec [OF "1.prems"(1) True "1.prems"(2)] by auto
    show ?thesis
    proof (cases "?we = last_line")
      case fin: True
      then have "structural_windows lines last_line ws = [(ws, ?we)]"
        using True by (simp add: structural_windows.simps [of lines last_line ws] Let_def)
      then show ?thesis using we fin covered_single by simp
    next
      case False
      let ?next = "max (?we - (STRUCTURAL_CHUNK_OVERLAP_LINES - 1)) (ws + 1)"
      have step: "structural_windows lines last_line ws = (ws, ?we) # structural_windows lines last_line ?next"
        using True False by (simp add: structural_windows.simps [of lines last_line ws] Let_def)
      have "?next \<le> ?we + 1" using we(1) by (auto simp: good_window_def)
      moreover have "list_all (good_window lines) (structural_windows lines last_line ?next)
          \<and> covered (structural_windows lines last_line ?next) ?next last_line"
        using "1.IH" [OF True refl False] "1.prems" by simp
      ultimately show ?thesis unfolding step using we(1) covered_step [of ?next ?we] by simp
    qed
  qed (use "1.prems" in \<open>simp add: structural_windows.simps [of lines last_line ws] covered_Nil\<close>)
qed

lemma fallback_windows_spec:
  "1 \<le> start \<Longrightarrow>
   list_all (\<lambda>(s, e). 1 \<le> s \<and> s \<le> e \<and> e \<le> n \<and> e - s + 1 \<le> 80) (fallback_windows n start)
   \<and> covered (fallback_windows n start) start n"
proof (induction n start rule: fallback_windows.induct)
  case (1 n start)
  show ?case
  proof (cases "start \<le> n")
    case True
    let ?e = "min (start + 80 - 1) n"
    show ?thesis
    proof (cases "?e = n")
      case fin: True
      then have "fallback_windows n start = [(start, n)]"
        using True by (simp add: fallback_windows.simps [of n start] Let_def)
      then show ?thesis using fin True "1.prems" covered_single by (auto simp: min_def split: if_splits)
    next
      case False
      then have e: "?e = start + 79" "start + 79 < n" by (auto simp: min_def split: if_splits)
      have step: "fallback_windows n start = (start, start + 79) # fallback_windows n (start + 60)"
        using True False e by (simp add: fallback_windows.simps [of n start] Let_def add.commute)
      have "list_all (\<lambda>(s, e). 1 \<le> s \<and> s \<le> e \<and> e \<le> n \<and> e - s + 1 \<le> 80) (fallback_windows n (start + 60))
          \<and> covered (fallback_windows n (start + 60)) (start + 60) n"
        using "1.IH" [OF True refl False] e by (simp add: add.commute)
      then show ?thesis unfolding step using e "1.prems" covered_step [of "start + 60" "start + 79"] by simp
    qed
  qed (simp add: fallback_windows.simps [of n start] covered_Nil)
qed


section \<open>The heuristic chunks cover the file\<close>

definition chunk_ok :: "string list \<Rightarrow> Chunk \<Rightarrow> bool" where
  "chunk_ok lines c \<longleftrightarrow>
     1 \<le> start_line c \<and> start_line c \<le> end_line c \<and> end_line c \<le> length lines
     \<and> end_line c - start_line c + 1 \<le> MAX_STRUCTURAL_CHUNK_LINES
     \<and> (chunk_kind c \<noteq> TextChunk \<and> start_line c < end_line c \<longrightarrow>
          length (join_lines (line_range lines (start_line c) (end_line c))) \<le> MAX_STRUCTURAL_CHUNK_BYTES)"

definition chunks_cover :: "string list \<Rightarrow> Chunk list \<Rightarrow> nat \<Rightarrow> nat \<Rightarrow> bool" where
  "chunks_cover lines cs a n \<longleftrightarrow>
     (\<forall>i. a \<le> i \<and> i \<le> n \<and> \<not> is_trivial_line (lines ! (i - 1)) \<longrightarrow> (\<exists>c\<in>set cs. start_line c \<le> i \<and> i \<le> end_line c))"

lemma make_chunk_fields [simp]:
  "start_line (make_chunk h p s e tx lng kind defs) = s"
  "end_line (make_chunk h p s e tx lng kind defs) = e"
  "chunk_text (make_chunk h p s e tx lng kind defs) = tx"
  "chunk_kind (make_chunk h p s e tx lng kind defs) = kind"
  by (simp_all add: make_chunk_def Let_def)

lemma structural_chunk_fields [simp]:
  "start_line (structural_chunk h p lines fl lng kind ctx defs w) = fst w"
  "end_line (structural_chunk h p lines fl lng kind ctx defs w) = snd w"
  "chunk_kind (structural_chunk h p lines fl lng kind ctx defs w) = kind"
  by (cases w; simp add: structural_chunk_def Let_def)+

lemma push_append:
  "push_bounded_structural_chunks h p lines span lng kind ctx defs acc =
     acc @ push_bounded_structural_chunks h p lines span lng kind ctx defs []"
  by (cases span) (simp add: push_bounded_structural_chunks_def Let_def)

lemma signature_chunks_append:
  "signature_chunks h p lines lng sigs acc = acc @ signature_chunks h p lines lng sigs []"
proof (induction sigs arbitrary: acc)
  case (Cons sg rest)
  obtain a b c where sg: "sg = (a, b, c)" by (cases sg)
  let ?last = "case rest of [] \<Rightarrow> length lines | (next_start, _) # _ \<Rightarrow> next_start - 1"
  let ?push = "push_bounded_structural_chunks h p lines (a, ?last) lng c (trim (lines ! (b - 1))) None"
  show ?case
    using Cons.IH [of "if ?last < a then acc else ?push acc"] Cons.IH [of "if ?last < a then [] else ?push []"]
      push_append [of h p lines "(a, ?last)" lng c "trim (lines ! (b - 1))" None acc]
    by (simp add: sg Let_def)
qed simp

lemma signature_chunks_Cons:
  "signature_chunks h p lines lng ((a, b, c) # rest) [] =
     (let e = (case rest of [] \<Rightarrow> length lines | (next_start, _) # _ \<Rightarrow> next_start - 1)
      in if e < a then []
         else push_bounded_structural_chunks h p lines (a, e) lng c (trim (lines ! (b - 1))) None [])
     @ signature_chunks h p lines lng rest []"
  by (simp only: signature_chunks.simps Let_def signature_chunks_append [symmetric])

lemma chunks_cover_empty: "n < a \<Longrightarrow> chunks_cover lines cs a n"
  by (auto simp: chunks_cover_def)

text \<open>Two runs of lines that meet, or overlap, are covered together.\<close>

lemma chunks_cover_join:
  assumes "chunks_cover lines cs a m" "chunks_cover lines ds b n" "b \<le> m + 1"
  shows "chunks_cover lines (cs @ ds) a n"
  unfolding chunks_cover_def
proof (intro allI impI)
  fix i assume i: "a \<le> i \<and> i \<le> n \<and> \<not> is_trivial_line (lines ! (i - 1))"
  consider "i \<le> m" | "b \<le> i" using assms(3) by linarith
  then show "\<exists>c\<in>set (cs @ ds). start_line c \<le> i \<and> i \<le> end_line c"
  proof cases
    case 1
    then show ?thesis using assms(1) i unfolding chunks_cover_def by (metis Un_iff set_append)
  next
    case 2
    then show ?thesis using assms(2) i unfolding chunks_cover_def by (metis Un_iff set_append)
  qed
qed

lemma line_in_range:
  assumes "1 \<le> a" "a \<le> i" "i \<le> b" "b \<le> length lines"
  shows "lines ! (i - 1) \<in> set (line_range lines a b)"
proof -
  have "line_range lines a b ! (i - a) = lines ! (i - 1)" "i - a < length (line_range lines a b)"
    using assms by (auto simp: slice_of_def)
  then show ?thesis by (metis nth_mem)
qed

lemma push_spec:
  assumes "1 \<le> a" "b \<le> length lines"
  shows "list_all (chunk_ok lines) (push_bounded_structural_chunks h p lines (a, b) lng kind ctx defs [])
     \<and> chunks_cover lines (push_bounded_structural_chunks h p lines (a, b) lng kind ctx defs []) a b"
proof (cases "b < a \<or> list_all is_trivial_line (line_range lines a b)")
  case True
  then have "chunks_cover lines [] a b"
    using line_in_range [OF assms(1) _ _ assms(2)] unfolding chunks_cover_def
    by (auto simp: list_all_iff dest: leD order_trans)
  then show ?thesis using True by (simp add: push_bounded_structural_chunks_def)
next
  case False
  let ?ws = "structural_windows lines b a"
  have "list_all (good_window lines) ?ws" "covered ?ws a b" using structural_windows_spec [OF assms] by auto
  then show ?thesis using False unfolding push_bounded_structural_chunks_def
    by (auto simp: list_all_iff chunk_ok_def good_window_def chunks_cover_def covered_def)
qed

lemma leading_doc_bounds: "1 \<le> n \<Longrightarrow> 1 \<le> leading_doc_start n lng lines \<and> leading_doc_start n lng lines \<le> n"
  by (induction n lng lines rule: leading_doc_start.induct) auto

lemma signature_chunks_spec:
  "list_all (\<lambda>(s, _). 1 \<le> s \<and> s \<le> length lines) sigs \<Longrightarrow>
   list_all (chunk_ok lines) (signature_chunks h p lines lng sigs [])
   \<and> (sigs \<noteq> [] \<longrightarrow> chunks_cover lines (signature_chunks h p lines lng sigs []) (fst (hd sigs)) (length lines))"
proof (induction sigs)
  case (Cons sg rest)
  obtain a b c where sg: "sg = (a, b, c)" by (cases sg)
  define e where "e = (case rest of [] \<Rightarrow> length lines | (next_start, _) # _ \<Rightarrow> next_start - 1)"
  define here where "here = (if e < a then []
     else push_bounded_structural_chunks h p lines (a, e) lng c (trim (lines ! (b - 1))) None [])"
  have split: "signature_chunks h p lines lng (sg # rest) [] = here @ signature_chunks h p lines lng rest []"
    by (simp only: sg here_def e_def signature_chunks_Cons Let_def)
  have "e \<le> length lines" "1 \<le> a" using Cons.prems by (auto simp: sg e_def split: list.splits)
  then have here: "list_all (chunk_ok lines) here" "chunks_cover lines here a e"
    using push_spec [of a e lines h p lng c] by (auto simp: here_def chunks_cover_def)
  have rest: "list_all (chunk_ok lines) (signature_chunks h p lines lng rest [])"
      "rest \<noteq> [] \<longrightarrow> chunks_cover lines (signature_chunks h p lines lng rest []) (fst (hd rest)) (length lines)"
    using Cons by auto
  show ?case
  proof (cases rest)
    case Nil
    then show ?thesis using split here by (simp add: sg e_def)
  next
    case (Cons nx more)
    then have "fst (hd rest) \<le> e + 1" by (cases nx) (auto simp: e_def)
    then show ?thesis
      using chunks_cover_join [OF here(2)] rest here(1) Cons unfolding split by (simp add: sg)
  qed
qed simp

lemma collect_signatures_bounds: "(s, k) \<in> set (collect_signatures detect lines) \<Longrightarrow> 1 \<le> s \<and> s \<le> length lines"
  by (auto simp: collect_signatures_def map_filter_def in_set_enumerate_eq split: prod.splits)

lemma fallback_chunks_spec:
  "list_all (chunk_ok lines) (fallback_chunks h p lng lines) \<and> chunks_cover lines (fallback_chunks h p lng lines) 1 (length lines)"
proof -
  let ?ws = "fallback_windows (length lines) 1"
  have ws: "list_all (\<lambda>(s, e). 1 \<le> s \<and> s \<le> e \<and> e \<le> length lines \<and> e - s + 1 \<le> 80) ?ws" "covered ?ws 1 (length lines)"
    using fallback_windows_spec [of 1 "length lines"] by auto
  have "list_all (chunk_ok lines) (fallback_chunks h p lng lines)"
    using ws(1) by (fastforce simp: list_all_iff chunk_ok_def fallback_chunks_def MAX_STRUCTURAL_CHUNK_LINES_def)
  moreover have "chunks_cover lines (fallback_chunks h p lng lines) 1 (length lines)"
    using ws(2) by (simp add: chunks_cover_def covered_def fallback_chunks_def case_prod_unfold)
  ultimately show ?thesis by simp
qed

lemma heuristic_chunks_append:
  "heuristic_chunks h p lines lng signatures =
     (if signatures = [] then fallback_chunks h p lng lines
      else
        let starts = map (\<lambda>(start, _). leading_doc_start start lng lines) signatures
        in (if 0 < hd starts - 1
            then push_bounded_structural_chunks h p lines (1, hd starts - 1) lng ModuleChunk (trim (hd lines)) None []
            else []) @ signature_chunks h p lines lng (zip starts signatures) [])"
  by (simp only: heuristic_chunks_def Let_def signature_chunks_append [symmetric])

lemma heuristic_chunks_spec:
  "list_all (chunk_ok lines) (heuristic_chunks h p lines lng (collect_signatures detect lines))
   \<and> chunks_cover lines (heuristic_chunks h p lines lng (collect_signatures detect lines)) 1 (length lines)"
proof (cases "collect_signatures detect lines")
  case Nil
  then show ?thesis using fallback_chunks_spec by (simp add: heuristic_chunks_def)
next
  case (Cons sg more)
  let ?sigs = "collect_signatures detect lines"
  let ?starts = "map (\<lambda>(start, _). leading_doc_start start lng lines) ?sigs"
  let ?pre = "hd ?starts - 1"
  define acc where "acc = (if 0 < ?pre
     then push_bounded_structural_chunks h p lines (1, ?pre) lng ModuleChunk (trim (hd lines)) None [] else [])"
  have start: "1 \<le> leading_doc_start s lng lines \<and> leading_doc_start s lng lines \<le> length lines"
    if "(s, k) \<in> set ?sigs" for s k
    using collect_signatures_bounds [OF that] leading_doc_bounds [of s lng lines] by linarith
  then have hd: "1 \<le> hd ?starts" "hd ?starts \<le> length lines" using Cons by (auto split: prod.splits)
  have acc: "list_all (chunk_ok lines) acc \<and> chunks_cover lines acc 1 ?pre"
    using push_spec [of 1 ?pre lines h p lng ModuleChunk "trim (hd lines)" None] hd chunks_cover_empty
    by (cases "0 < ?pre") (simp_all add: acc_def)
  have "list_all (\<lambda>(s, _). 1 \<le> s \<and> s \<le> length lines) (zip ?starts ?sigs)"
    using start by (fastforce simp: list_all_iff dest!: set_zip_leftD)
  note sigs = signature_chunks_spec [OF this, of h p lng]
  have "?sigs \<noteq> []" using Cons by simp
  then have eq: "heuristic_chunks h p lines lng ?sigs = acc @ signature_chunks h p lines lng (zip ?starts ?sigs) []"
    by (simp only: heuristic_chunks_append acc_def Let_def if_False)
  show ?thesis
    using sigs acc chunks_cover_join [of lines acc 1 ?pre _ "hd ?starts"] hd Cons unfolding eq by (simp add: hd_zip)
qed



section \<open>The header is removed again\<close>

lemma split_once_sep: "d \<notin> set a \<Longrightarrow> split_once d (a @ d # b) = Some (a, b)"
  by (induction a) auto

lemma same_path_refl [simp]: "same_path_ignoring_separators p p"
  by (simp add: same_path_ignoring_separators_def list_all2_same)

lemma strip_prefix_append [simp]: "strip_prefix (p @ s) p = Some s"
  by (simp add: strip_prefix_Some)

lemma trim_set: "set (trim s) \<subseteq> set s"
  unfolding trim_def
  using set_mono_prefix [OF trim_end_prefix] set_mono_suffix [OF trim_start_suffix] by (rule subset_trans)

lemma rust_lines_no_newline: "line \<in> set (rust_lines tx) \<Longrightarrow> newline \<notin> set line"
proof -
  assume "line \<in> set (rust_lines tx)"
  then obtain l where l: "l \<in> set (split_inclusive newline tx)" "line = strip_line_end l"
    by (auto simp: rust_lines_def)
  have bl: "newline \<notin> set (butlast l)" using l(1) by (rule line_newline)
  have ne: "l \<noteq> []" using l(1) by (rule split_inclusive_nonempty)
  show ?thesis
  proof (cases "suffix [newline] l")
    case True
    then obtain x where x: "l = x @ [newline]" by (auto simp: suffix_def)
    then have "newline \<notin> set x" using bl by simp
    then show ?thesis using x l(2)
      by (auto simp: strip_line_end_def strip_suffix_def dest: in_set_takeD)
  next
    case False
    have "l = butlast l @ [last l]" using ne by simp
    moreover have "last l \<noteq> newline" using False ne by (metis append_butlast_last_id suffix_def)
    ultimately have "newline \<notin> set l" using bl by (metis Un_iff insertE list.set(1,2) set_append singletonD)
    then show ?thesis using l(2) False by (simp add: strip_line_end_def strip_suffix_def)
  qed
qed

definition headed :: "string \<Rightarrow> string list \<Rightarrow> Chunk \<Rightarrow> bool" where
  "headed p lines c \<longleftrightarrow>
     strip_chunk_header (chunk_text c) p = join_lines (line_range lines (start_line c) (end_line c))"

lemma strip_header_path:
  assumes "newline \<notin> set p"
  shows "strip_chunk_header (''// '' @ p @ newline # rest) p =
     (let rest1 = (case split_once newline rest of
                     Some (line, body) \<Rightarrow>
                       if starts_with line ''// continuation of ''
                          \<or> starts_with line ''// Rust documentation included from '' then body else rest
                   | None \<Rightarrow> rest)
      in case strip_prefix rest1 [newline] of Some body \<Rightarrow> body | None \<Rightarrow> ''// '' @ p @ newline # rest)"
  by (simp add: strip_chunk_header_def strip_prefix_def split_once_sep [OF assms] Let_def)

lemma strip_first_header:
  assumes "newline \<notin> set p"
  shows "strip_chunk_header (''// '' @ p @ [newline, newline] @ block) p = block"
  using strip_header_path [OF assms, of "newline # block"] by (simp add: strip_prefix_def)

lemma strip_continuation_header:
  assumes "newline \<notin> set p" "newline \<notin> set ctx"
  shows "strip_chunk_header
     (''// '' @ p @ [newline] @ ''// continuation of '' @ ctx @ [newline, newline] @ block) p = block"
proof -
  have "newline \<notin> set (''// continuation of '' @ ctx)" using assms(2) by simp
  then have "split_once newline ((''// continuation of '' @ ctx) @ newline # newline # block)
      = Some (''// continuation of '' @ ctx, newline # block)" by (rule split_once_sep)
  then show ?thesis
    using strip_header_path [OF assms(1), of "(''// continuation of '' @ ctx) @ newline # newline # block"]
    by (simp add: strip_prefix_def)
qed

lemma structural_chunk_headed:
  assumes "newline \<notin> set p" "newline \<notin> set ctx"
  shows "headed p lines (structural_chunk h p lines fl lng kind ctx defs w)"
  using strip_first_header [OF assms(1)] strip_continuation_header [OF assms]
  by (cases w) (simp add: headed_def structural_chunk_def Let_def)

lemma push_headed:
  assumes "newline \<notin> set p" "newline \<notin> set ctx"
  shows "list_all (headed p lines) (push_bounded_structural_chunks h p lines span lng kind ctx defs [])"
  using structural_chunk_headed [OF assms]
  by (cases span) (simp add: push_bounded_structural_chunks_def list_all_iff)

lemma signature_chunks_headed:
  assumes "newline \<notin> set p" "\<forall>l\<in>set lines. newline \<notin> set l"
  shows "list_all (\<lambda>(_, d, _). 1 \<le> d \<and> d \<le> length lines) sigs \<Longrightarrow>
    list_all (headed p lines) (signature_chunks h p lines lng sigs [])"
proof (induction sigs)
  case (Cons sg rest)
  obtain a b c where sg: "sg = (a, b, c)" by (cases sg)
  then have "1 \<le> b" "b \<le> length lines" using Cons.prems by auto
  then have "lines ! (b - 1) \<in> set lines" by simp
  then have "newline \<notin> set (trim (lines ! (b - 1)))" using assms(2) trim_set by blast
  then have "list_all (headed p lines)
      (push_bounded_structural_chunks h p lines span lng c (trim (lines ! (b - 1))) None [])" for span
    by (rule push_headed [OF assms(1)])
  then show ?case
    using Cons unfolding sg signature_chunks_Cons by (simp add: Let_def)
qed simp



end
