(* ===== verification/Ordered_Map.thy ===== *)
theory Ordered_Map
  imports Prelude "HOL-Library.Char_ord" "HOL-Library.List_Lexorder"
begin

text \<open>
  Maps that the sources keep. A \<^verbatim>\<open>BTreeMap\<close> is the association list of its entries in the order
  of the keys; strings are ordered by their bytes, as in Rust. The locale \<open>keyed_store\<close> states
  what a client of a map relies on, for the ordered maps here and for the hash maps of the
  prelude, and carries the lemmas on runs of updates.
\<close>

section \<open>Ordered association lists\<close>

definition ordered_keys :: "('k :: linorder \<times> 'v) list \<Rightarrow> bool" where
  "ordered_keys m \<longleftrightarrow> sorted_wrt (<) (map fst m)"

fun btree_insert :: "'k :: linorder \<Rightarrow> 'v \<Rightarrow> ('k \<times> 'v) list \<Rightarrow> ('k \<times> 'v) list" where
  "btree_insert k v [] = [(k, v)]"
| "btree_insert k v ((k', v') # m) =
     (if k < k' then (k, v) # (k', v') # m
      else if k = k' then (k, v) # m
      else (k', v') # btree_insert k v m)"

definition btree_of_list :: "('k :: linorder \<times> 'v) list \<Rightarrow> ('k \<times> 'v) list" where
  "btree_of_list xs = foldl (\<lambda>m (k, v). btree_insert k v m) [] xs"

lemma map_of_btree_insert [simp]: "map_of (btree_insert k v m) = (map_of m)(k \<mapsto> v)"
  by (induction m) auto

lemma keys_btree_insert: "fst ` set (btree_insert k v m) = insert k (fst ` set m)"
  using dom_map_of_conv_image_fst [of "btree_insert k v m"] dom_map_of_conv_image_fst [of m] by simp

lemma ordered_keys_Nil [simp]: "ordered_keys []"
  by (simp add: ordered_keys_def)

lemma ordered_keys_Cons: "ordered_keys ((k, v) # m) \<longleftrightarrow> (\<forall>k'\<in>fst ` set m. k < k') \<and> ordered_keys m"
  by (auto simp: ordered_keys_def)

lemma ordered_keys_insert [simp]: "ordered_keys m \<Longrightarrow> ordered_keys (btree_insert k v m)"
proof (induction m)
  case (Cons p m)
  obtain k' v' where p: "p = (k', v')" by (cases p)
  show ?case
  proof (cases "k < k'")
    case True
    then show ?thesis using Cons.prems p by (auto simp: ordered_keys_Cons)
  next
    case False
    then have "k = k' \<or> k' < k" by auto
    then show ?thesis using Cons p False by (auto simp: ordered_keys_Cons keys_btree_insert simp del: image_insert)
  qed
qed (simp add: ordered_keys_Cons)

lemma ordered_keys_remove [simp]: "ordered_keys m \<Longrightarrow> ordered_keys (alist_remove k m)"
  by (induction m) (auto simp: ordered_keys_Cons alist_remove_def)

lemma ordered_distinct: "ordered_keys m \<Longrightarrow> distinct (map fst m)"
  by (simp add: ordered_keys_def strict_sorted_iff)

lemma ordered_map_of: "ordered_keys m \<Longrightarrow> (k, v) \<in> set m \<longleftrightarrow> map_of m k = Some v"
  by (simp add: ordered_distinct)

text \<open>An ordered list is determined by the map it stands for.\<close>

lemma strictly_sorted_unique:
  fixes xs ys :: "'a :: linorder list"
  assumes "sorted_wrt (<) xs" "sorted_wrt (<) ys" "set xs = set ys"
  shows "xs = ys"
  using assms by (simp add: sorted_distinct_set_unique strict_sorted_iff)

lemma strictly_sorted_keys_unique:
  fixes xs ys :: "('k :: linorder \<times> 'v) list"
  assumes "sorted_wrt (<) (map fst xs)" "sorted_wrt (<) (map fst ys)" "set xs = set ys"
  shows "xs = ys"
proof -
  have "inj_on fst (set xs \<union> set ys)" using assms by (simp add: strict_sorted_iff distinct_map)
  then show ?thesis using assms by (intro map_sorted_distinct_set_unique) (auto simp: strict_sorted_iff)
qed

lemma ordered_ext:
  assumes "ordered_keys m" "ordered_keys n" "map_of m = map_of n"
  shows "m = n"
proof (rule strictly_sorted_keys_unique)
  show "set m = set n" using assms ordered_map_of [of m] ordered_map_of [of n] by auto
qed (use assms in \<open>auto simp: ordered_keys_def\<close>)

lemma btree_of_list_snoc: "btree_of_list (xs @ [(k, v)]) = btree_insert k v (btree_of_list xs)"
  by (simp add: btree_of_list_def)

lemma ordered_btree_of_list [simp]: "ordered_keys (btree_of_list xs)"
  by (induction xs rule: rev_induct) (auto simp: btree_of_list_def)

lemma map_of_btree_of_list: "map_of (btree_of_list xs) = map_of (rev xs)"
proof (induction xs rule: rev_induct)
  case (snoc p xs)
  then show ?case by (cases p) (simp add: btree_of_list_snoc)
qed (simp add: btree_of_list_def)


section \<open>What a client of a map relies on\<close>

locale keyed_store =
  fixes lookup :: "'m \<Rightarrow> 'k \<Rightarrow> 'v option"
    and put :: "'k \<Rightarrow> 'v \<Rightarrow> 'm \<Rightarrow> 'm"
    and remove :: "'k \<Rightarrow> 'm \<Rightarrow> 'm"
    and ok :: "'m \<Rightarrow> bool"
  assumes lookup_put: "ok m \<Longrightarrow> lookup (put k v m) k' = (if k' = k then Some v else lookup m k')"
    and lookup_remove: "ok m \<Longrightarrow> lookup (remove k m) k' = (if k' = k then None else lookup m k')"
    and ok_put: "ok m \<Longrightarrow> ok (put k v m)"
    and ok_remove: "ok m \<Longrightarrow> ok (remove k m)"
begin

definition update :: "'k \<times> 'v option \<Rightarrow> 'm \<Rightarrow> 'm" where
  "update u m = (case u of (k, None) \<Rightarrow> remove k m | (k, Some v) \<Rightarrow> put k v m)"

lemma ok_update: "ok m \<Longrightarrow> ok (update u m)"
  by (auto simp: update_def ok_put ok_remove split: prod.splits option.splits)

lemma lookup_update: "ok m \<Longrightarrow> lookup (update (k, r) m) k' = (if k' = k then r else lookup m k')"
  by (auto simp: update_def lookup_put lookup_remove split: option.splits)

lemma ok_updates: "ok m \<Longrightarrow> ok (fold update us m)"
  by (induction us arbitrary: m) (auto simp: ok_update)

text \<open>A run of updates of different keys: each key has the value of its update.\<close>

lemma lookup_updates:
  assumes "ok m" "distinct (map fst us)"
  shows "lookup (fold update us m) k = (case map_of us k of Some r \<Rightarrow> r | None \<Rightarrow> lookup m k)"
  using assms
proof (induction us arbitrary: m)
  case (Cons u us)
  obtain k1 r where u: "u = (k1, r)" by (cases u)
  have "map_of us k1 = None" using Cons.prems(2) u by (simp add: map_of_eq_None_iff)
  then show ?case using Cons u by (auto simp: ok_update lookup_update split: option.split)
qed simp

end

interpretation btree: keyed_store map_of btree_insert alist_remove ordered_keys
  by unfold_locales auto

interpretation table: keyed_store map_of alist_put alist_remove distinct_keys
  by unfold_locales auto

end
