(* ===== verification/Merkle.thy ===== *)
theory Merkle
  imports Ordered_Map Chunking "HOL-Library.Multiset"
begin

text \<open>
  The snapshot of a workspace (\<^verbatim>\<open>src/src/merkle.rs\<close>): the hash of every indexable file under its
  relative path and a root hash over them. An index run walks the workspace into a new snapshot,
  or refreshes the paths a watcher reported, and indexes the difference to the saved one.

  The hash function is the parameter of the chunker. The file system is a parameter of the
  operations: what \<^verbatim>\<open>symlink_metadata\<close> answers for a path, and the entries that the walkers list,
  with the metadata and contents read for each.
\<close>

section \<open>Line endings\<close>

definition is_crlf :: "char list \<Rightarrow> nat \<Rightarrow> bool" where
  "is_crlf bytes i \<longleftrightarrow> bytes ! i = CHR 0x0D \<and> bytes ! (i + 1) = newline"

definition crlf_step :: "char list \<Rightarrow> char list \<times> nat \<Rightarrow> nat \<Rightarrow> char list \<times> nat" where
  "crlf_step bytes = (\<lambda>(normalized, start) index.
     if is_crlf bytes index then (normalized @ slice_of bytes start index, index + 1) else (normalized, start))"

definition normalized_indexable_content :: "string option \<Rightarrow> char list \<Rightarrow> char list" where
  "normalized_indexable_content filename bytes =
     (if \<not> is_indexable_file filename bytes \<or> \<not> list_ex (is_crlf bytes) [0..<length bytes - 1] then bytes
      else
        let (normalized, start) = foldl (crlf_step bytes) ([], 0) [0..<length bytes - 1]
        in normalized @ drop start bytes)"


section \<open>Metadata\<close>

text \<open>What the code reads of the metadata of a path; \<open>modified\<close> is the time since the epoch when the
  platform gives one and it is not before the epoch.\<close>

datatype file_type = RegularFile | Directory | Symlink | OtherType

record file_meta =
  file_type :: file_type
  meta_len :: nat
  modified :: "nat option"
  meta_inode :: nat
  ctime :: int
  ctime_nsec :: int

datatype io_error = NotFound | NotADirectory | OtherIo string

definition MAX_INDEXABLE_FILE_BYTES :: nat where "MAX_INDEXABLE_FILE_BYTES = 16 * 1024 * 1024"
definition VANISHED_FILE_HASH :: string where "VANISHED_FILE_HASH = ''vanished''"

definition le_bytes :: "nat \<Rightarrow> nat \<Rightarrow> string" where
  "le_bytes width n = map (\<lambda>i. char_of (n div 256 ^ i mod 256)) [0..<width]"

definition i64_le_bytes :: "int \<Rightarrow> string" where
  "i64_le_bytes i = le_bytes 8 (nat (i mod 2 ^ 64))"

definition metadata_file_hash :: "hasher \<Rightarrow> file_meta \<Rightarrow> string" where
  "metadata_file_hash h m =
     hex_encode h (xxh3_128 h
       (le_bytes 8 (meta_len m)
        @ (case modified m of Some nanos \<Rightarrow> le_bytes 16 nanos | None \<Rightarrow> [])
        @ i64_le_bytes (ctime m) @ i64_le_bytes (ctime_nsec m)))"

text \<open>The streaming hash of a sequence of updates is the hash of their concatenation.\<close>

definition root_hash_of :: "hasher \<Rightarrow> (string \<times> string) list \<Rightarrow> string" where
  "root_hash_of h files = hex_encode h (xxh3_128 h (concat (map (\<lambda>(path, hash). path @ hash) files)))"

record MerkleSnapshot =
  root_hash :: string
  files :: "(string \<times> string) list"

record MerkleDiff =
  added_or_modified :: "(string \<times> bool) list"
  deleted :: "string list"

definition no_diff :: MerkleDiff where
  "no_diff = \<lparr>added_or_modified = [], deleted = []\<rparr>"

definition snapshot_empty :: MerkleSnapshot where
  "snapshot_empty = \<lparr>root_hash = [], files = []\<rparr>"

definition path_matches_metadata_snapshot :: "hasher \<Rightarrow> io_error + file_meta \<Rightarrow> string \<Rightarrow> bool" where
  "path_matches_metadata_snapshot h metadata snapshot_hash =
     (case (case strip_suffix snapshot_hash ''-0'' of
              Some e \<Rightarrow> Some e | None \<Rightarrow> strip_suffix snapshot_hash ''-1'') of
        None \<Rightarrow> False
      | Some expected_hash \<Rightarrow>
          (case metadata of
             Inl _ \<Rightarrow> False
           | Inr m \<Rightarrow> meta_len m \<le> MAX_INDEXABLE_FILE_BYTES \<and> metadata_file_hash h m = expected_hash))"


section \<open>The difference of two snapshots\<close>

text \<open>The merge of the two ordered maps and the tails that are left.\<close>

function merge_files ::
    "(string \<times> string) list \<Rightarrow> (string \<times> string) list \<Rightarrow> MerkleDiff \<Rightarrow> MerkleDiff" where
  "merge_files ((old_path, old_hash) # old) ((new_path, new_hash) # new) d =
     (if old_path < new_path
      then merge_files old ((new_path, new_hash) # new) (d\<lparr>deleted := deleted d @ [old_path]\<rparr>)
      else if old_path = new_path
      then merge_files old new
             (if old_hash \<noteq> new_hash
              then d\<lparr>added_or_modified := added_or_modified d @ [(new_path, ends_with new_hash ''-1'')]\<rparr> else d)
      else merge_files ((old_path, old_hash) # old) new
             (d\<lparr>added_or_modified := added_or_modified d @ [(new_path, ends_with new_hash ''-1'')]\<rparr>))"
| "merge_files old [] d = d\<lparr>deleted := deleted d @ map fst old\<rparr>"
| "merge_files [] (p # new) d =
     d\<lparr>added_or_modified := added_or_modified d @ map (\<lambda>(path, hash). (path, ends_with hash ''-1'')) (p # new)\<rparr>"
  by pat_completeness auto
termination by (relation "measure (\<lambda>(old, new, _). length old + length new)") auto

definition diff :: "MerkleSnapshot \<Rightarrow> MerkleSnapshot \<Rightarrow> MerkleDiff" where
  "diff older newer =
     (if root_hash older = root_hash newer then no_diff else merge_files (files older) (files newer) no_diff)"


section \<open>Refreshing reported paths\<close>

datatype merkle_error =
    RootUnreadable io_error
  | RootNotDirectory
  | MetadataUnreadable io_error
  | SourceUnreadable io_error
  | WalkFailed

text \<open>\<open>fs::metadata\<close> of the root follows a symbolic link.\<close>

definition validate_workspace_root :: "io_error + file_meta \<Rightarrow> merkle_error + unit" where
  "validate_workspace_root metadata =
     (case metadata of
        Inl e \<Rightarrow> Inl (RootUnreadable e)
      | Inr m \<Rightarrow> if file_type m = Directory then Inr () else Inl RootNotDirectory)"

text \<open>A path as the operating system gives it: text, or bytes that are not UTF-8. Components as
  \<^verbatim>\<open>Path::components\<close> gives them for a relative path.\<close>

datatype os_path = Utf8Path string | OtherPath "char list"

definition path_components :: "string \<Rightarrow> string list" where
  "path_components p =
     (case split_on (\<lambda>c. c = CHR ''/'') p of
        [] \<Rightarrow> []
      | c # cs \<Rightarrow> (if c = [] then [] else [c]) @ filter (\<lambda>c. c \<noteq> [] \<and> c \<noteq> ''.'') cs)"

definition path_file_name :: "string \<Rightarrow> string option" where
  "path_file_name p =
     (let cs = path_components p
      in if cs = [] \<or> last cs \<in> {''.'', ''..''} then None else Some (last cs))"

datatype refresh_step =
    FullScan
  | RefreshError merkle_error
  | Inspected "file_meta option"

type_synonym file_system = "string list \<Rightarrow> io_error + file_meta"

text \<open>The loop over the components of a path; \<open>path\<close> is the part below the root that was inspected.\<close>

fun inspect_components ::
    "file_system \<Rightarrow> string list \<Rightarrow> string list \<Rightarrow> file_meta option \<Rightarrow> refresh_step" where
  "inspect_components fs path [] metadata = Inspected metadata"
| "inspect_components fs path (c # cs) metadata =
     (case fs (path @ [c]) of
        Inr current \<Rightarrow>
          if file_type current = Symlink then FullScan
          else if cs \<noteq> [] \<and> file_type current \<noteq> Directory then FullScan
          else inspect_components fs (path @ [c]) cs (Some current)
      | Inl NotFound \<Rightarrow> Inspected None
      | Inl e \<Rightarrow> RefreshError (MetadataUnreadable e))"

text \<open>\<open>self.files.range(dir_prefix..).next()\<close>\<close>

definition first_from :: "string \<Rightarrow> (string \<times> string) list \<Rightarrow> string option" where
  "first_from key m = map_option fst (List.find (\<lambda>(k, _). key \<le> k) m)"

datatype path_update =
    SkipPath
  | StopRefresh
  | FailRefresh merkle_error
  | UpdateKey string "string option"

definition refreshed_hash :: "hasher \<Rightarrow> (string \<times> string) list \<Rightarrow> string \<Rightarrow> file_meta \<Rightarrow> string" where
  "refreshed_hash h known key m =
     (let is_ignored = (case map_of known key of Some hash \<Rightarrow> ends_with hash ''-1'' | None \<Rightarrow> False)
      in metadata_file_hash h m @ ''-'' @ (if is_ignored then ''1'' else ''0''))"

definition refresh_path :: "hasher \<Rightarrow> file_system \<Rightarrow> (string \<times> string) list \<Rightarrow> os_path \<Rightarrow> path_update" where
  "refresh_path h fs known rel_path =
     (case rel_path of
        OtherPath _ \<Rightarrow> SkipPath
      | Utf8Path rel \<Rightarrow>
          if rel = [] \<or> path_file_name rel \<in> {Some ''.gitignore'', Some ''.ignore''} then StopRefresh
          else
            case inspect_components fs [] (path_components rel) None of
              FullScan \<Rightarrow> StopRefresh
            | RefreshError e \<Rightarrow> FailRefresh e
            | Inspected metadata \<Rightarrow>
                let key = rel;
                    gone = (if (case first_from (key @ ''/'') known of
                                  Some existing \<Rightarrow> starts_with existing (key @ ''/'') | None \<Rightarrow> False)
                            then StopRefresh else UpdateKey key None)
                in case metadata of
                     Some m \<Rightarrow>
                       if file_type m = RegularFile \<and> meta_len m \<le> MAX_INDEXABLE_FILE_BYTES
                       then if map_of known key = None then StopRefresh
                            else UpdateKey key (Some (refreshed_hash h known key m))
                       else if file_type m = Directory then StopRefresh
                       else gone
                   | None \<Rightarrow> gone)"

text \<open>The loop over the reported paths; \<open>Inr None\<close> asks for a full scan.\<close>

fun collect_updates ::
    "hasher \<Rightarrow> file_system \<Rightarrow> (string \<times> string) list \<Rightarrow> os_path list \<Rightarrow> (string \<times> string option) list
       \<Rightarrow> merkle_error + (string \<times> string option) list option" where
  "collect_updates h fs known [] updates = Inr (Some updates)"
| "collect_updates h fs known (p # ps) updates =
     (case refresh_path h fs known p of
        SkipPath \<Rightarrow> collect_updates h fs known ps updates
      | StopRefresh \<Rightarrow> Inr None
      | FailRefresh e \<Rightarrow> Inl e
      | UpdateKey key next_hash \<Rightarrow> collect_updates h fs known ps (btree_insert key next_hash updates))"

fun apply_updates ::
    "(string \<times> string option) list \<Rightarrow> (string \<times> string) list \<Rightarrow> MerkleDiff \<Rightarrow> (string \<times> string) list \<times> MerkleDiff" where
  "apply_updates [] m d = (m, d)"
| "apply_updates ((key, Some hash) # us) m d =
     (if map_of m key \<noteq> Some hash
      then apply_updates us (btree_insert key hash m)
             (d\<lparr>added_or_modified := added_or_modified d @ [(key, ends_with hash ''-1'')]\<rparr>)
      else apply_updates us m d)"
| "apply_updates ((key, None) # us) m d =
     (if map_of m key \<noteq> None
      then apply_updates us (alist_remove key m) (d\<lparr>deleted := deleted d @ [key]\<rparr>)
      else apply_updates us m d)"

definition refresh_paths_in_place ::
    "hasher \<Rightarrow> io_error + file_meta \<Rightarrow> file_system \<Rightarrow> os_path list \<Rightarrow> bool \<Rightarrow> MerkleSnapshot
       \<Rightarrow> (merkle_error + MerkleDiff option) \<times> MerkleSnapshot" where
  "refresh_paths_in_place h root fs rel_paths skip_gitignore self =
     (if skip_gitignore then (Inr None, self)
      else
        case validate_workspace_root root of
          Inl e \<Rightarrow> (Inl e, self)
        | Inr _ \<Rightarrow>
            (case collect_updates h fs (files self) rel_paths [] of
               Inl e \<Rightarrow> (Inl e, self)
             | Inr None \<Rightarrow> (Inr None, self)
             | Inr (Some updates) \<Rightarrow>
                 let (files', d) = apply_updates updates (files self) no_diff;
                     root' = (if added_or_modified d \<noteq> [] \<or> deleted d \<noteq> []
                              then root_hash_of h files' else root_hash self)
                 in (Inr (Some d), \<lparr>root_hash = root', files = files'\<rparr>)))"

definition refresh_paths ::
    "hasher \<Rightarrow> io_error + file_meta \<Rightarrow> file_system \<Rightarrow> os_path list \<Rightarrow> bool \<Rightarrow> MerkleSnapshot
       \<Rightarrow> merkle_error + (MerkleSnapshot \<times> MerkleDiff) option" where
  "refresh_paths h root fs rel_paths skip_gitignore self =
     (if skip_gitignore then Inr None
      else
        case refresh_paths_in_place h root fs rel_paths skip_gitignore self of
          (Inl e, _) \<Rightarrow> Inl e
        | (Inr None, _) \<Rightarrow> Inr None
        | (Inr (Some d), newer) \<Rightarrow> Inr (Some (newer, d)))"

fun mark_files :: "string list \<Rightarrow> (string \<times> string) list \<Rightarrow> (string \<times> string) list" where
  "mark_files [] m = m"
| "mark_files (p # ps) m =
     mark_files ps (map (\<lambda>(k, hash). if k = p
       then (k, VANISHED_FILE_HASH @ ''-'' @ (if ends_with hash ''-1'' then ''1'' else ''0'')) else (k, hash)) m)"

definition mark_vanished :: "hasher \<Rightarrow> string list \<Rightarrow> MerkleSnapshot \<Rightarrow> MerkleSnapshot" where
  "mark_vanished h rel_paths self =
     (let m = mark_files rel_paths (files self) in \<lparr>root_hash = root_hash_of h m, files = m\<rparr>)"

section \<open>Walking the workspace\<close>

text \<open>The errors of the walker library; \<open>io_error_of\<close> is its \<^verbatim>\<open>io_error\<close> method.\<close>

datatype ignore_error =
    GlobError
  | PartialErrors "ignore_error list"
  | WithLineNumber ignore_error
  | WithPath ignore_error
  | WithDepth ignore_error
  | IgnoreIo io_error
  | OtherIgnoreError

fun is_ignore_pattern_warning :: "ignore_error \<Rightarrow> bool" where
  "is_ignore_pattern_warning GlobError = True"
| "is_ignore_pattern_warning (PartialErrors errors) \<longleftrightarrow> errors \<noteq> [] \<and> list_all is_ignore_pattern_warning errors"
| "is_ignore_pattern_warning (WithLineNumber err) = is_ignore_pattern_warning err"
| "is_ignore_pattern_warning (WithPath err) = is_ignore_pattern_warning err"
| "is_ignore_pattern_warning (WithDepth err) = is_ignore_pattern_warning err"
| "is_ignore_pattern_warning (IgnoreIo _) = False"
| "is_ignore_pattern_warning OtherIgnoreError = False"

definition is_vanished_path :: "(ignore_error \<Rightarrow> io_error option) \<Rightarrow> ignore_error \<Rightarrow> bool" where
  "is_vanished_path io_error_of error \<longleftrightarrow> io_error_of error = Some NotFound"

text \<open>An entry that the walker lists: its type, its path below the root when it has one, and what reading
  its metadata and its contents gives.\<close>

record walk_entry =
  entry_is_file :: bool
  entry_rel :: "os_path option"
  entry_meta :: "io_error + file_meta"
  entry_content :: "io_error + char list"

type_synonym walk_item = "ignore_error + walk_entry"

fun unignored_walk :: "(ignore_error \<Rightarrow> io_error option) \<Rightarrow> walk_item list \<Rightarrow> string list \<Rightarrow> merkle_error + string list" where
  "unignored_walk io [] paths = Inr paths"
| "unignored_walk io (Inl error # items) paths =
     (if is_ignore_pattern_warning error \<or> is_vanished_path io error then unignored_walk io items paths
      else Inl WalkFailed)"
| "unignored_walk io (Inr entry # items) paths =
     (case entry_rel entry of
        Some (Utf8Path rel) \<Rightarrow>
          if entry_is_file entry then unignored_walk io items (List.insert rel paths)
          else unignored_walk io items paths
      | _ \<Rightarrow> unignored_walk io items paths)"

text \<open>One call of the walker's callback: an error, nothing, or the pair for the worker's buffer.\<close>

definition scan_entry ::
    "hasher \<Rightarrow> (ignore_error \<Rightarrow> io_error option) \<Rightarrow> bool \<Rightarrow> bool \<Rightarrow> string list \<Rightarrow> walk_item
       \<Rightarrow> merkle_error + (string \<times> string) option" where
  "scan_entry h io content_based skip_gitignore unignored item =
     (case item of
        Inl error \<Rightarrow>
          if is_ignore_pattern_warning error \<or> is_vanished_path io error then Inr None else Inl WalkFailed
      | Inr entry \<Rightarrow>
          if \<not> entry_is_file entry then Inr None
          else
            case entry_rel entry of
              None \<Rightarrow> Inr None
            | Some (OtherPath _) \<Rightarrow> Inr None
            | Some (Utf8Path rel) \<Rightarrow>
                (case entry_meta entry of
                   Inl NotFound \<Rightarrow> Inr None
                 | Inl e \<Rightarrow> Inl (MetadataUnreadable e)
                 | Inr metadata \<Rightarrow>
                     if MAX_INDEXABLE_FILE_BYTES < meta_len metadata then Inr None
                     else
                       let suffix_of = (if skip_gitignore \<and> rel \<notin> set unignored then ''-1'' else ''-0'')
                       in if content_based
                          then case entry_content entry of
                                 Inl NotFound \<Rightarrow> Inr None
                               | Inl e \<Rightarrow> Inl (SourceUnreadable e)
                               | Inr content \<Rightarrow>
                                   let data = rel @ normalized_indexable_content (path_file_name rel) content
                                   in Inr (Some (rel, hex_encode h (xxh3_128 h data) @ suffix_of))
                          else Inr (Some (rel, metadata_file_hash h metadata @ suffix_of))))"

text \<open>The callbacks in the order they are made, whatever worker makes them. An error makes the walk quit;
  the first one is kept. \<open>scan_files\<close> gives the pairs that the workers' buffers are flushed into.\<close>

fun scan_files ::
    "hasher \<Rightarrow> (ignore_error \<Rightarrow> io_error option) \<Rightarrow> bool \<Rightarrow> bool \<Rightarrow> string list \<Rightarrow> walk_item list
       \<Rightarrow> merkle_error + (string \<times> string) list" where
  "scan_files h io content_based skip unignored [] = Inr []"
| "scan_files h io content_based skip unignored (item # items) =
     (case scan_entry h io content_based skip unignored item of
        Inl e \<Rightarrow> Inl e
      | Inr r \<Rightarrow>
          (case scan_files h io content_based skip unignored items of
             Inl e \<Rightarrow> Inl e
           | Inr pairs \<Rightarrow> Inr ((case r of Some p \<Rightarrow> [p] | None \<Rightarrow> []) @ pairs)))"

text \<open>\<open>root\<close> and \<open>root_after\<close> are the metadata of the root before and after the walk.\<close>

definition build_inner ::
    "hasher \<Rightarrow> (ignore_error \<Rightarrow> io_error option) \<Rightarrow> io_error + file_meta \<Rightarrow> io_error + file_meta
       \<Rightarrow> bool \<Rightarrow> bool \<Rightarrow> walk_item list \<Rightarrow> walk_item list \<Rightarrow> merkle_error + MerkleSnapshot" where
  "build_inner h io root root_after content_based skip_gitignore standard_items items =
     (case validate_workspace_root root of
        Inl e \<Rightarrow> Inl e
      | Inr _ \<Rightarrow>
          (case (if skip_gitignore then unignored_walk io standard_items [] else Inr []) of
             Inl e \<Rightarrow> Inl e
           | Inr unignored \<Rightarrow>
               (case scan_files h io content_based skip_gitignore unignored items of
                  Inl e \<Rightarrow> Inl e
                | Inr all_pairs \<Rightarrow>
                    (case validate_workspace_root root_after of
                       Inl e \<Rightarrow> Inl e
                     | Inr _ \<Rightarrow>
                         let m = btree_of_list all_pairs
                         in Inr \<lparr>root_hash = root_hash_of h m, files = m\<rparr>))))"

definition build where
  "build h io root root_after = build_inner h io root root_after False"

definition build_content_based where
  "build_content_based h io root root_after = build_inner h io root root_after True"


section \<open>The saved snapshot and its verified stamp\<close>

record SnapshotStamp =
  stamp_len :: nat
  modified_nanos :: nat
  stamp_inode :: nat
  changed_nanos :: int

definition snapshot_stamp :: "io_error + file_meta \<Rightarrow> SnapshotStamp option" where
  "snapshot_stamp metadata =
     (case metadata of
        Inl _ \<Rightarrow> None
      | Inr m \<Rightarrow>
          map_option (\<lambda>nanos. \<lparr>stamp_len = meta_len m, modified_nanos = nanos, stamp_inode = meta_inode m,
                                changed_nanos = ctime m * 1000000000 + ctime_nsec m\<rparr>) (modified m))"

definition stamp_payload :: "SnapshotStamp \<Rightarrow> string" where
  "stamp_payload s =
     decimal (stamp_len s) @ '' '' @ decimal (modified_nanos s) @ '' '' @ decimal (stamp_inode s)
     @ '' '' @ show_int (changed_nanos s) @ [newline]"

definition parse_stamp :: "string \<Rightarrow> SnapshotStamp option" where
  "parse_stamp raw =
     (case split_whitespace raw of
        [a, b, c, d] \<Rightarrow>
          Option.bind (parse_unsigned 64 a) (\<lambda>len. Option.bind (parse_unsigned 128 b) (\<lambda>mtime.
          Option.bind (parse_unsigned 64 c) (\<lambda>ino. map_option (\<lambda>changed.
            \<lparr>stamp_len = len, modified_nanos = mtime, stamp_inode = ino, changed_nanos = changed\<rparr>)
            (parse_signed 128 d))))
      | _ \<Rightarrow> None)"

text \<open>The directory of a snapshot: the snapshot file with its metadata, and the sidecar. The faults say which
  calls fail in one operation.\<close>

record snapshot_disk =
  snapshot_file :: "(string \<times> file_meta) option"
  sidecar :: "string option"

record disk_faults =
  stat_fails :: bool
  read_fails :: bool
  write_fails :: bool
  rename_fails :: bool
  sidecar_read_fails :: bool
  sidecar_write_fails :: bool
  sidecar_rename_fails :: bool

record snapshot_codec =
  to_vec :: "MerkleSnapshot \<Rightarrow> string option"
  from_slice :: "string \<Rightarrow> MerkleSnapshot option"

definition disk_stamp :: "disk_faults \<Rightarrow> snapshot_disk \<Rightarrow> SnapshotStamp option" where
  "disk_stamp f disk =
     snapshot_stamp (case snapshot_file disk of
                       Some (_, m) \<Rightarrow> if stat_fails f then Inl (OtherIo ''stat'') else Inr m
                     | None \<Rightarrow> Inl NotFound)"

definition read_verified_stamp :: "disk_faults \<Rightarrow> snapshot_disk \<Rightarrow> SnapshotStamp option" where
  "read_verified_stamp f disk =
     (case sidecar disk of None \<Rightarrow> None | Some raw \<Rightarrow> if sidecar_read_fails f then None else parse_stamp raw)"

definition write_verified_stamp :: "disk_faults \<Rightarrow> SnapshotStamp \<Rightarrow> snapshot_disk \<Rightarrow> snapshot_disk" where
  "write_verified_stamp f stamp disk =
     (if sidecar_write_fails f \<or> sidecar_rename_fails f then disk else disk\<lparr>sidecar := Some (stamp_payload stamp)\<rparr>)"

definition file_is_corrupt :: "snapshot_codec \<Rightarrow> disk_faults \<Rightarrow> snapshot_disk \<Rightarrow> bool \<times> snapshot_disk" where
  "file_is_corrupt codec f disk =
     (case disk_stamp f disk of
        None \<Rightarrow> (False, disk)
      | Some stamp \<Rightarrow>
          if read_verified_stamp f disk = Some stamp then (False, disk)
          else
            case snapshot_file disk of
              None \<Rightarrow> (False, disk)
            | Some (data, _) \<Rightarrow>
                if read_fails f then (False, disk)
                else let corrupt = (from_slice codec data = None)
                     in (corrupt, if \<not> corrupt then write_verified_stamp f stamp disk else disk))"

text \<open>\<^verbatim>\<open>Path::exists\<close> is also false for a path that cannot be inspected.\<close>

definition load :: "snapshot_codec \<Rightarrow> disk_faults \<Rightarrow> snapshot_disk \<Rightarrow> io_error + MerkleSnapshot" where
  "load codec f disk =
     (case snapshot_file disk of
        None \<Rightarrow> Inr snapshot_empty
      | Some (data, _) \<Rightarrow>
          if stat_fails f then Inr snapshot_empty
          else if read_fails f then Inl (OtherIo ''read'')
          else case from_slice codec data of Some s \<Rightarrow> Inr s | None \<Rightarrow> Inr snapshot_empty)"

text \<open>\<open>m\<close> is the metadata that the file system gives the file that was written.\<close>

definition save ::
    "snapshot_codec \<Rightarrow> disk_faults \<Rightarrow> file_meta \<Rightarrow> MerkleSnapshot \<Rightarrow> snapshot_disk \<Rightarrow> (io_error + unit) \<times> snapshot_disk" where
  "save codec f m self disk =
     (case to_vec codec self of
        None \<Rightarrow> (Inl (OtherIo ''serialize''), disk)
      | Some payload \<Rightarrow>
          if write_fails f then (Inl (OtherIo ''write''), disk)
          else if rename_fails f then (Inl (OtherIo ''rename''), disk)
          else
            let disk' = disk\<lparr>snapshot_file := Some (payload, m)\<rparr>
            in (Inr (), case disk_stamp f disk' of
                          Some stamp \<Rightarrow> write_verified_stamp f stamp disk' | None \<Rightarrow> disk'))"

section \<open>Normalizing line endings\<close>

lemma crlf_loop:
  assumes "k \<le> length bytes" and "foldl (crlf_step bytes) ([], 0) [0..<k] = (out, start)"
  shows "start \<le> k \<and> out @ slice_of bytes start k = map (nth bytes) (filter (\<lambda>i. \<not> is_crlf bytes i) [0..<k])"
  using assms
proof (induction k arbitrary: out start)
  case (Suc k)
  obtain out1 start1 where pre: "foldl (crlf_step bytes) ([], 0) [0..<k] = (out1, start1)" by fastforce
  note ih = Suc.IH [OF _ pre]
  show ?case
  proof (cases "is_crlf bytes k")
    case True
    then have "out = out1 @ slice_of bytes start1 k" "start = Suc k" using Suc.prems pre by (simp_all add: crlf_step_def)
    then show ?thesis using Suc.prems(1) ih True by simp
  next
    case False
    then have "out = out1" "start = start1" using Suc.prems pre by (simp_all add: crlf_step_def)
    then show ?thesis using Suc.prems(1) ih False by (simp add: slice_snoc flip: append_assoc)
  qed
qed simp

text \<open>Theorem. Normalizing the contents of an indexable file removes exactly the carriage returns that a line
  feed follows and keeps every other byte in its place; other contents are not changed.\<close>

theorem normalized_content_exact:
  "normalized_indexable_content filename bytes =
     (if is_indexable_file filename bytes
      then map (nth bytes) (filter (\<lambda>i. \<not> (i + 1 < length bytes \<and> bytes ! i = CHR 0x0D \<and> bytes ! (i + 1) = newline))
             [0..<length bytes])
      else bytes)"
proof (cases "is_indexable_file filename bytes \<and> list_ex (is_crlf bytes) [0..<length bytes - 1]")
  case True
  let ?keep = "\<lambda>i. \<not> (i + 1 < length bytes \<and> bytes ! i = CHR 0x0D \<and> bytes ! (i + 1) = newline)"
  obtain n where n: "length bytes = Suc n" using True by (cases "length bytes") auto
  obtain out start where loop: "foldl (crlf_step bytes) ([], 0) [0..<n] = (out, start)" by fastforce
  then have inv: "start \<le> n" "out @ slice_of bytes start n = map (nth bytes) (filter (\<lambda>i. \<not> is_crlf bytes i) [0..<n])"
    using crlf_loop [of n bytes] n by auto
  have "drop start bytes = slice_of bytes start (Suc n)" using n by (simp add: slice_of_def)
  also have "\<dots> = slice_of bytes start n @ [bytes ! n]" using inv(1) n by (simp add: slice_snoc)
  finally have "out @ drop start bytes = map (nth bytes) (filter (\<lambda>i. \<not> is_crlf bytes i) [0..<n] @ [n])"
    using inv(2) by simp
  also have "filter (\<lambda>i. \<not> is_crlf bytes i) [0..<n] @ [n] = filter ?keep [0..<length bytes]"
    using n by (auto simp: is_crlf_def intro!: filter_cong)
  finally show ?thesis using True loop n by (simp add: normalized_indexable_content_def)
next
  case False
  have "filter (\<lambda>i. \<not> (i + 1 < length bytes \<and> bytes ! i = CHR 0x0D \<and> bytes ! (i + 1) = newline)) [0..<length bytes]
      = [0..<length bytes]" if "\<not> list_ex (is_crlf bytes) [0..<length bytes - 1]"
    using that by (auto simp: filter_id_conv list_ex_iff is_crlf_def)
  then show ?thesis using False by (auto simp: normalized_indexable_content_def map_nth)
qed


section \<open>The difference is exact\<close>

definition diff_added :: "(string \<times> string) list \<Rightarrow> (string \<times> string) list \<Rightarrow> (string \<times> bool) list" where
  "diff_added old new =
     map (\<lambda>(p, hash). (p, ends_with hash ''-1'')) (filter (\<lambda>(p, hash). map_of old p \<noteq> Some hash) new)"

definition diff_deleted :: "(string \<times> string) list \<Rightarrow> (string \<times> string) list \<Rightarrow> string list" where
  "diff_deleted old new = map fst (filter (\<lambda>(p, _). map_of new p = None) old)"

lemma key_below: "ordered_keys ((k, v) # m) \<Longrightarrow> k' \<le> k \<Longrightarrow> map_of m k' = None"
  by (auto simp: ordered_keys_Cons map_of_eq_None_iff)

lemma diff_added_cong:
  "(\<And>p h. (p, h) \<in> set new \<Longrightarrow> map_of old p = map_of old' p) \<Longrightarrow> diff_added old new = diff_added old' new"
  unfolding diff_added_def by (rule arg_cong [where f = "map _"], rule filter_cong) auto

lemma diff_deleted_cong:
  "(\<And>p h. (p, h) \<in> set old \<Longrightarrow> map_of new p = map_of new' p) \<Longrightarrow> diff_deleted old new = diff_deleted old new'"
  unfolding diff_deleted_def by (rule arg_cong [where f = "map _"], rule filter_cong) auto

lemma merge_files_eq:
  "ordered_keys old \<Longrightarrow> ordered_keys new \<Longrightarrow>
   merge_files old new d = d\<lparr>added_or_modified := added_or_modified d @ diff_added old new,
                             deleted := deleted d @ diff_deleted old new\<rparr>"
proof (induction old new d rule: merge_files.induct)
  case (1 op oh old np nh new d)
  note ordered = "1.prems" [unfolded ordered_keys_Cons]
  consider "op < np" | "op = np" | "np < op" by fastforce
  then show ?case
  proof cases
    case 1
    then have "map_of ((np, nh) # new) op = None" using "1.prems"(2) key_below [of np nh new op] by auto
    moreover have "diff_added ((op, oh) # old) ((np, nh) # new) = diff_added old ((np, nh) # new)"
      using ordered 1 by (intro diff_added_cong) (fastforce simp: image_iff)
    ultimately show ?thesis using "1.IH"(1) [OF 1] 1 "1.prems" ordered by (simp add: diff_deleted_def)
  next
    case 2
    have "diff_added ((op, oh) # old) new = diff_added old new"
      using ordered 2 by (intro diff_added_cong) (fastforce simp: image_iff)
    moreover have "diff_deleted old ((np, nh) # new) = diff_deleted old new"
      using ordered 2 by (intro diff_deleted_cong) (fastforce simp: image_iff)
    ultimately show ?thesis using "1.IH"(2) 2 ordered by (simp add: diff_deleted_def diff_added_def)
  next
    case 3
    then have "map_of ((op, oh) # old) np = None" using "1.prems"(1) key_below [of op oh old np] by auto
    moreover have "diff_deleted ((op, oh) # old) ((np, nh) # new) = diff_deleted ((op, oh) # old) new"
      using ordered 3 by (intro diff_deleted_cong) (fastforce simp: image_iff)
    ultimately show ?thesis using "1.IH"(3) 3 "1.prems" ordered by (simp add: diff_added_def)
  qed
qed (simp_all add: diff_added_def diff_deleted_def)

lemma sorted_filter_keys: "ordered_keys m \<Longrightarrow> sorted_wrt (<) (map fst (filter P m))"
  unfolding ordered_keys_def by (induction m) auto

lemma diff_added_sorted: "ordered_keys new \<Longrightarrow> sorted_wrt (<) (map fst (diff_added old new))"
  using sorted_filter_keys [of new "\<lambda>(p, hash). map_of old p \<noteq> Some hash"]
  by (simp add: diff_added_def comp_def case_prod_unfold)

lemma diff_deleted_sorted: "ordered_keys old \<Longrightarrow> sorted_wrt (<) (diff_deleted old new)"
  by (simp add: diff_deleted_def sorted_filter_keys)

lemma diff_added_iff:
  "ordered_keys new \<Longrightarrow>
   (p, b) \<in> set (diff_added old new) \<longleftrightarrow> (\<exists>h. map_of new p = Some h \<and> map_of old p \<noteq> Some h \<and> b = ends_with h ''-1'')"
  using distinct_keys_set_map_of [of new] ordered_distinct [of new]
  by (auto simp: diff_added_def distinct_keys_def image_iff split: prod.splits)

lemma diff_deleted_iff:
  "ordered_keys old \<Longrightarrow> p \<in> set (diff_deleted old new) \<longleftrightarrow> map_of old p \<noteq> None \<and> map_of new p = None"
  by (force simp: diff_deleted_def ordered_map_of image_iff dest: map_of_SomeD)





section \<open>Refreshing is an exact update of the map\<close>

text \<open>What the file system shows at a path, as the snapshot records it.\<close>

definition observed :: "hasher \<Rightarrow> file_system \<Rightarrow> (string \<times> string) list \<Rightarrow> string \<Rightarrow> string option" where
  "observed h fs known p =
     (case inspect_components fs [] (path_components p) None of
        Inspected (Some m) \<Rightarrow>
          if file_type m = RegularFile \<and> meta_len m \<le> MAX_INDEXABLE_FILE_BYTES
          then Some (refreshed_hash h known p m) else None
      | _ \<Rightarrow> None)"

lemma refresh_path_update:
  "refresh_path h fs known p = UpdateKey key r \<Longrightarrow> p = Utf8Path key \<and> r = observed h fs known key"
  by (auto simp: refresh_path_def observed_def Let_def split: os_path.splits if_splits refresh_step.splits option.splits)

lemma refresh_path_skip: "refresh_path h fs known p = SkipPath \<Longrightarrow> p \<noteq> Utf8Path key"
  by (auto simp: refresh_path_def Let_def split: os_path.splits if_splits refresh_step.splits option.splits)

lemma collect_updates_spec:
  "collect_updates h fs known ps us = Inr (Some us') \<Longrightarrow> ordered_keys us \<Longrightarrow>
   ordered_keys us' \<and> (\<forall>k. map_of us' k = (if Utf8Path k \<in> set ps then Some (observed h fs known k) else map_of us k))"
proof (induction ps arbitrary: us)
  case (Cons p ps)
  show ?case
  proof (cases "refresh_path h fs known p")
    case SkipPath
    then show ?thesis using Cons refresh_path_skip [OF SkipPath] by auto
  next
    case (UpdateKey key r)
    then show ?thesis
      using Cons.IH [of "btree_insert key r us"] Cons.prems refresh_path_update [OF UpdateKey] by auto
  qed (use Cons.prems in auto)
qed simp

lemma insert_same: "ordered_keys m \<Longrightarrow> map_of m k = Some v \<Longrightarrow> btree_insert k v m = m"
  by (rule ordered_ext) auto

lemma remove_absent: "map_of m k = None \<Longrightarrow> alist_remove k m = m"
  by (rule length_alist_remove_absent) (simp add: map_of_eq_None_iff)

definition update_added :: "(string \<times> string option) list \<Rightarrow> (string \<times> string) list \<Rightarrow> (string \<times> bool) list" where
  "update_added us m =
     List.map_filter (\<lambda>(k, r). case r of Some hash \<Rightarrow> if map_of m k \<noteq> Some hash then Some (k, ends_with hash ''-1'') else None
                                  | None \<Rightarrow> None) us"

definition update_deleted :: "(string \<times> string option) list \<Rightarrow> (string \<times> string) list \<Rightarrow> string list" where
  "update_deleted us m = map fst (filter (\<lambda>(k, r). r = None \<and> map_of m k \<noteq> None) us)"

lemma update_lists_other:
  assumes "\<And>k. k \<in> fst ` set us \<Longrightarrow> map_of m k = map_of m' k"
  shows "update_added us m = update_added us m'" "update_deleted us m = update_deleted us m'"
  using assms
  by (induction us) (auto simp: update_added_def update_deleted_def map_filter_simps split: option.splits)

lemma apply_updates_eq:
  "distinct (map fst us) \<Longrightarrow> ordered_keys m \<Longrightarrow>
   apply_updates us m d = (fold btree.update us m,
     d\<lparr>added_or_modified := added_or_modified d @ update_added us m, deleted := deleted d @ update_deleted us m\<rparr>)"
proof (induction us m d rule: apply_updates.induct)
  case (2 key hash us m d)
  have "map_of (btree_insert key hash m) k = map_of m k" if "k \<in> fst ` set us" for k
    using "2.prems"(1) that by auto
  note other = update_lists_other [OF this]
  show ?case using 2 insert_same [of m key hash] other
    by (auto simp: btree.update_def update_added_def update_deleted_def map_filter_simps)
next
  case (3 key us m d)
  have "map_of (alist_remove key m) k = map_of m k" if "k \<in> fst ` set us" for k
    using "3.prems"(1) that by auto
  note other = update_lists_other [OF this]
  show ?case using 3 remove_absent [of m key] other
    by (auto simp: btree.update_def update_added_def update_deleted_def map_filter_simps)
qed (simp add: update_added_def update_deleted_def map_filter_simps)

lemma update_added_iff:
  assumes "ordered_keys us"
  shows "(k, b) \<in> set (update_added us m) \<longleftrightarrow>
     (\<exists>hash. map_of us k = Some (Some hash) \<and> map_of m k \<noteq> Some hash \<and> b = ends_with hash ''-1'')"
proof
  assume "(k, b) \<in> set (update_added us m)"
  then obtain r where "(k, r) \<in> set us" "\<exists>hash. r = Some hash \<and> map_of m k \<noteq> Some hash \<and> b = ends_with hash ''-1''"
    by (fastforce simp: update_added_def in_map_filter split: option.splits if_splits)
  then show "\<exists>hash. map_of us k = Some (Some hash) \<and> map_of m k \<noteq> Some hash \<and> b = ends_with hash ''-1''"
    using ordered_map_of [OF assms] by auto
next
  assume "\<exists>hash. map_of us k = Some (Some hash) \<and> map_of m k \<noteq> Some hash \<and> b = ends_with hash ''-1''"
  then obtain hash where "(k, Some hash) \<in> set us" "map_of m k \<noteq> Some hash" "b = ends_with hash ''-1''"
    by (auto dest: map_of_SomeD)
  then show "(k, b) \<in> set (update_added us m)"
    unfolding update_added_def in_map_filter by (intro bexI [of _ "(k, Some hash)"]) auto
qed

lemma update_deleted_iff:
  "ordered_keys us \<Longrightarrow> k \<in> set (update_deleted us m) \<longleftrightarrow> map_of us k = Some None \<and> map_of m k \<noteq> None"
  by (force simp: update_deleted_def ordered_map_of image_iff dest: map_of_SomeD)

lemma update_added_sorted:
  assumes "ordered_keys us"
  shows "sorted_wrt (<) (map fst (update_added us m))"
proof -
  have "subseq (map fst (update_added us m)) (map fst us)"
    by (induction us) (auto simp: update_added_def map_filter_simps split: option.splits if_splits)
  then show ?thesis using assms unfolding ordered_keys_def by (auto intro: sorted_wrt_subseq)
qed

lemma update_lists_diff:
  assumes "ordered_keys us" "ordered_keys m"
  shows "update_added us m = diff_added m (fold btree.update us m)
    \<and> update_deleted us m = diff_deleted m (fold btree.update us m)"
proof
  let ?m' = "fold btree.update us m"
  have ok: "ordered_keys ?m'" using btree.ok_updates assms(2) by blast
  have look: "map_of ?m' k = (case map_of us k of Some r \<Rightarrow> r | None \<Rightarrow> map_of m k)" for k
    using btree.lookup_updates [OF assms(2) ordered_distinct [OF assms(1)]] .
  show "update_added us m = diff_added m ?m'"
    using update_added_sorted [OF assms(1)] diff_added_sorted [OF ok]
    by (rule strictly_sorted_keys_unique)
      (auto simp: update_added_iff [OF assms(1)] diff_added_iff [OF ok] look split: option.splits)
  show "update_deleted us m = diff_deleted m ?m'"
  proof (rule strictly_sorted_unique)
    show "sorted_wrt (<) (update_deleted us m)" using assms(1) by (simp add: update_deleted_def sorted_filter_keys)
    show "sorted_wrt (<) (diff_deleted m ?m')" using assms(2) by (rule diff_deleted_sorted)
    show "set (update_deleted us m) = set (diff_deleted m ?m')"
      by (auto simp: update_deleted_iff [OF assms(1)] diff_deleted_iff [OF assms(2)] look split: option.splits)
  qed
qed

text \<open>The invariant of a snapshot: paths in order and once, and the root hash of these files.\<close>

definition snapshot_ok :: "hasher \<Rightarrow> MerkleSnapshot \<Rightarrow> bool" where
  "snapshot_ok h s \<longleftrightarrow> ordered_keys (files s) \<and> root_hash s = root_hash_of h (files s)"

text \<open>Claim C4. Refreshing reported paths refines the update of the map of files by what the file system shows:
  after a successful refresh every reported path has the hash of the regular file observed there or none, every
  other path is unchanged, the invariant holds again and the returned difference is the exact difference of
  the two snapshots. When the refresh fails or asks for a full scan, the snapshot is unchanged.\<close>

theorem refresh_refines_update:
  assumes "snapshot_ok h self"
    and "refresh_paths_in_place h root fs rel_paths skip_gitignore self = (r, self')"
  shows "case r of
      Inr (Some d) \<Rightarrow>
        map_of (files self') = (\<lambda>p. if Utf8Path p \<in> set rel_paths then observed h fs (files self) p else map_of (files self) p)
        \<and> snapshot_ok h self' \<and> d = merge_files (files self) (files self') no_diff
    | _ \<Rightarrow> self' = self"
proof (cases "\<exists>us. \<not> skip_gitignore \<and> validate_workspace_root root = Inr () \<and>
    collect_updates h fs (files self) rel_paths [] = Inr (Some us)")
  case False
  then show ?thesis using assms(2)
    by (auto simp: refresh_paths_in_place_def split: if_splits sum.splits option.splits)
next
  case True
  then obtain us where us: "\<not> skip_gitignore" "validate_workspace_root root = Inr ()"
    "collect_updates h fs (files self) rel_paths [] = Inr (Some us)" by blast
  have ok: "ordered_keys (files self)" "root_hash self = root_hash_of h (files self)"
    using assms(1) by (auto simp: snapshot_ok_def)
  have upd: "ordered_keys us"
    "map_of us k = (if Utf8Path k \<in> set rel_paths then Some (observed h fs (files self) k) else None)" for k
    using collect_updates_spec [OF us(3)] by auto
  let ?m' = "fold btree.update us (files self)"
  define d where "d = \<lparr>added_or_modified = update_added us (files self), deleted = update_deleted us (files self)\<rparr>"
  have "apply_updates us (files self) no_diff = (?m', d)"
    using apply_updates_eq [OF ordered_distinct [OF upd(1)] ok(1), of no_diff] by (simp add: d_def no_diff_def)
  then have res: "r = Inr (Some d)" "files self' = ?m'"
    "root_hash self' = (if added_or_modified d \<noteq> [] \<or> deleted d \<noteq> [] then root_hash_of h ?m' else root_hash self)"
    using assms(2) us by (auto simp: refresh_paths_in_place_def)
  have ok': "ordered_keys ?m'" using btree.ok_updates ok(1) by blast
  have look: "map_of ?m' k = (case map_of us k of Some r \<Rightarrow> r | None \<Rightarrow> map_of (files self) k)" for k
    using btree.lookup_updates [OF ok(1) ordered_distinct [OF upd(1)]] .
  have d: "d = merge_files (files self) ?m' no_diff"
    using update_lists_diff [OF upd(1) ok(1)] merge_files_eq [OF ok(1) ok'] by (simp add: d_def no_diff_def)
  have "?m' = files self" if "added_or_modified d = []" "deleted d = []"
  proof (rule ordered_ext [OF ok' ok(1)], rule ext)
    fix k
    have none: "\<not> (k, b) \<in> set (diff_added (files self) ?m')" "k \<notin> set (diff_deleted (files self) ?m')" for b
      using that update_lists_diff [OF upd(1) ok(1)] by (auto simp: d_def)
    show "map_of ?m' k = map_of (files self) k"
    proof (cases "map_of ?m' k")
      case None
      then show ?thesis using none(2) by (simp add: diff_deleted_iff [OF ok(1)])
    next
      case (Some a)
      then show ?thesis using none(1) [of "ends_with a ''-1''"] by (auto simp: diff_added_iff [OF ok'])
    qed
  qed
  then have "snapshot_ok h self'" using res ok ok' by (auto simp: snapshot_ok_def)
  moreover have "map_of ?m' = (\<lambda>p. if Utf8Path p \<in> set rel_paths then observed h fs (files self) p else map_of (files self) p)"
    by (rule ext) (simp add: look upd(2))
  ultimately show ?thesis using res d by simp
qed

abbreviation demo_hasher :: hasher where
  "demo_hasher \<equiv> \<lparr>xxh3_128 = (\<lambda>s. s), hex_encode = (\<lambda>s. s)\<rparr>"

definition demo_root :: file_meta where
  "demo_root = \<lparr>file_type = Directory, meta_len = 0, modified = None, meta_inode = 0, ctime = 0, ctime_nsec = 0\<rparr>"

definition demo_snapshot :: MerkleSnapshot where
  "demo_snapshot = \<lparr>root_hash = root_hash_of demo_hasher [(''a'', ''x-0''), (''b'', ''y-0'')],
                    files = [(''a'', ''x-0''), (''b'', ''y-0'')]\<rparr>"

definition demo_refresh :: "(merkle_error + MerkleDiff option) \<times> MerkleSnapshot" where
  "demo_refresh =
     refresh_paths_in_place demo_hasher (Inr demo_root) (\<lambda>_. Inl NotFound) [Utf8Path ''a''] False demo_snapshot"

theorem refresh_refines_update_witness:
  "case demo_refresh of (Inr (Some d), self') \<Rightarrow>
       d = merge_files (files demo_snapshot) (files self') no_diff \<and> map_of (files self') ''b'' = Some ''y-0''
   | _ \<Rightarrow> False"
proof -
  have ok: "snapshot_ok demo_hasher demo_snapshot" by (simp add: snapshot_ok_def demo_snapshot_def ordered_keys_Cons)
  obtain r s' where rs: "demo_refresh = (r, s')" by fastforce
  have "fst demo_refresh = Inr (Some \<lparr>added_or_modified = [], deleted = [''a'']\<rparr>)" by code_simp
  then have r: "r = Inr (Some \<lparr>added_or_modified = [], deleted = [''a'']\<rparr>)" by (simp only: rs fst_conv)
  from refresh_refines_update [OF ok rs [unfolded demo_refresh_def]]
  show ?thesis unfolding rs r by (simp add: demo_snapshot_def)
qed


section \<open>A walk gives the files it lists\<close>

lemma accepted_iff: "(case x of Inr r \<Rightarrow> r | Inl _ \<Rightarrow> None) = Some y \<longleftrightarrow> x = Inr (Some y)"
  by (cases x) auto

lemma scan_files_accepts:
  "list_all (\<lambda>i. \<exists>r. scan_entry h io cb skip un i = Inr r) items \<Longrightarrow>
   scan_files h io cb skip un items =
     Inr (List.map_filter (\<lambda>i. case scan_entry h io cb skip un i of Inr r \<Rightarrow> r | Inl _ \<Rightarrow> None) items)"
  by (induction items) (auto simp: map_filter_simps split: option.split)

lemma scan_files_ok:
  "scan_files h io cb skip un items = Inr pairs \<longleftrightarrow>
     list_all (\<lambda>i. \<exists>r. scan_entry h io cb skip un i = Inr r) items
     \<and> pairs = List.map_filter (\<lambda>i. case scan_entry h io cb skip un i of Inr r \<Rightarrow> r | Inl _ \<Rightarrow> None) items"
proof -
  have "list_all (\<lambda>i. \<exists>r. scan_entry h io cb skip un i = Inr r) items" if "scan_files h io cb skip un items = Inr pairs" for pairs
    using that by (induction items arbitrary: pairs) (auto split: sum.splits)
  then show ?thesis using scan_files_accepts by fastforce
qed

text \<open>The path under which an item would be recorded.\<close>

definition item_key :: "walk_item \<Rightarrow> string option" where
  "item_key item = (case item of Inr entry \<Rightarrow> (case entry_rel entry of Some (Utf8Path rel) \<Rightarrow> Some rel | _ \<Rightarrow> None)
                               | Inl _ \<Rightarrow> None)"

lemma scan_entry_key: "scan_entry h io cb skip un item = Inr (Some (p, hash)) \<Longrightarrow> item_key item = Some p"
  by (auto simp: scan_entry_def item_key_def Let_def split: sum.splits if_splits option.splits os_path.splits io_error.splits)

lemma scan_keys_distinct:
  assumes "distinct (List.map_filter item_key items)"
  shows "distinct (map fst (List.map_filter (\<lambda>i. case scan_entry h io cb skip un i of Inr r \<Rightarrow> r | Inl _ \<Rightarrow> None) items))"
proof -
  let ?f = "\<lambda>i. case scan_entry h io cb skip un i of Inr r \<Rightarrow> r | Inl _ \<Rightarrow> None"
  have "subseq (map fst (List.map_filter ?f items)) (List.map_filter item_key items)"
  proof (induction items)
    case (Cons i items)
    show ?case
    proof (cases "?f i")
      case None
      then show ?thesis using Cons by (cases "item_key i") (auto simp: map_filter_simps)
    next
      case (Some p)
      then have "item_key i = Some (fst p)"
        using scan_entry_key [of h io cb skip un i "fst p" "snd p"] by (simp add: accepted_iff)
      then show ?thesis using Cons Some by (simp add: map_filter_simps)
    qed
  qed (simp add: map_filter_simps)
  then show ?thesis using assms subseq_distinct by blast
qed

lemma map_of_distinct_set:
  assumes "distinct (map fst xs)" "distinct (map fst ys)" "set xs = set ys"
  shows "map_of xs = map_of ys"
  using assms by (rule map_of_inject_set [THEN iffD2])

text \<open>Theorem. A walk that lists every path once yields an ordered snapshot with the right root hash that has
  exactly the files its callbacks accepted; the order in which the parallel workers make the callbacks does
  not matter; and an error of any callback, of the walk for the visible files or of the root before or after
  the walk makes the whole build fail.\<close>

theorem walk_snapshot_exact:
  assumes "distinct (List.map_filter item_key items)" and "mset items' = mset items"
    and "build_inner h io root root_after cb skip std_items items = Inr s"
  shows "snapshot_ok h s
     \<and> build_inner h io root root_after cb skip std_items items' = Inr s
     \<and> (\<exists>unignored. (if skip then unignored_walk io std_items [] else Inr []) = Inr unignored
         \<and> (\<forall>item\<in>set items. \<exists>r. scan_entry h io cb skip unignored item = Inr r)
         \<and> (\<forall>p hash. map_of (files s) p = Some hash \<longleftrightarrow>
              (\<exists>item\<in>set items. scan_entry h io cb skip unignored item = Inr (Some (p, hash)))))"
proof -
  obtain un pairs where walk: "validate_workspace_root root = Inr ()" "validate_workspace_root root_after = Inr ()"
      "(if skip then unignored_walk io std_items [] else Inr []) = Inr un"
      "scan_files h io cb skip un items = Inr pairs"
    and s: "s = \<lparr>root_hash = root_hash_of h (btree_of_list pairs), files = btree_of_list pairs\<rparr>"
    using assms(3) by (auto simp: build_inner_def Let_def split: sum.splits)
  let ?f = "\<lambda>i. case scan_entry h io cb skip un i of Inr r \<Rightarrow> r | Inl _ \<Rightarrow> None"
  define pairs' where "pairs' = List.map_filter ?f items'"
  have sets: "set items' = set items" using assms(2) by (metis set_mset_mset)
  have all: "list_all (\<lambda>i. \<exists>r. scan_entry h io cb skip un i = Inr r) items" and pairs: "pairs = List.map_filter ?f items"
    using walk(4) by (auto simp: scan_files_ok)
  then have scan': "scan_files h io cb skip un items' = Inr pairs'"
    using sets by (simp add: scan_files_ok pairs'_def list_all_iff)
  have "mset (List.map_filter item_key items') = mset (List.map_filter item_key items)"
    using assms(2) by (simp add: map_filter_def mset_filter)
  then have dist': "distinct (List.map_filter item_key items')" using assms(1) mset_eq_imp_distinct_iff by blast
  have dist: "distinct (map fst pairs)" "distinct (map fst pairs')"
    using scan_keys_distinct [OF assms(1)] scan_keys_distinct [OF dist'] by (simp_all add: pairs pairs'_def)
  have "set pairs' = set pairs" using sets by (auto simp: pairs pairs'_def in_map_filter)
  then have "map_of (rev pairs') = map_of (rev pairs)"
    using dist by (intro map_of_distinct_set) (simp_all flip: rev_map)
  then have same: "btree_of_list pairs' = btree_of_list pairs" by (intro ordered_ext) (simp_all add: map_of_btree_of_list)
  have "map_of (files s) p = Some hash \<longleftrightarrow> (p, hash) \<in> set pairs" for p hash
    using dist(1) by (simp add: s map_of_btree_of_list map_of_eq_Some_iff flip: rev_map)
  then have "map_of (files s) p = Some hash \<longleftrightarrow>
      (\<exists>item\<in>set items. scan_entry h io cb skip un item = Inr (Some (p, hash)))" for p hash
    by (simp add: pairs in_map_filter accepted_iff)
  moreover have "build_inner h io root root_after cb skip std_items items' = Inr s"
    using walk(1-3) scan' same s by (simp add: build_inner_def Let_def)
  ultimately show ?thesis using s walk(3) all by (auto simp: snapshot_ok_def list_all_iff)
qed

definition demo_item :: "string \<Rightarrow> walk_item" where
  "demo_item p = Inr \<lparr>entry_is_file = True, entry_rel = Some (Utf8Path p),
     entry_meta = Inr (demo_root\<lparr>file_type := RegularFile\<rparr>), entry_content = Inl NotFound\<rparr>"

theorem walk_snapshot_exact_witness:
  "build_inner demo_hasher (\<lambda>_. None) (Inr demo_root) (Inr demo_root) False False [] [demo_item ''b'', demo_item ''a'']
   = build_inner demo_hasher (\<lambda>_. None) (Inr demo_root) (Inr demo_root) False False [] [demo_item ''a'', demo_item ''b'']"
proof -
  let ?b = "build_inner demo_hasher (\<lambda>_. None) (Inr demo_root) (Inr demo_root) False False []"
  have keys: "distinct (List.map_filter item_key [demo_item ''a'', demo_item ''b''])"
    by (simp add: map_filter_simps item_key_def demo_item_def)
  have "\<exists>s. ?b [demo_item ''a'', demo_item ''b''] = Inr s"
    by (simp add: build_inner_def validate_workspace_root_def scan_entry_def demo_root_def demo_item_def Let_def
        MAX_INDEXABLE_FILE_BYTES_def)
  then obtain s where s: "?b [demo_item ''a'', demo_item ''b''] = Inr s" ..
  have "mset [demo_item ''b'', demo_item ''a''] = mset [demo_item ''a'', demo_item ''b'']" by simp
  from walk_snapshot_exact [OF keys this s] show ?thesis using s by simp
qed


section \<open>The verified stamp\<close>

definition stamp_in_range :: "SnapshotStamp \<Rightarrow> bool" where
  "stamp_in_range s \<longleftrightarrow> stamp_len s < 2 ^ 64 \<and> modified_nanos s < 2 ^ 128 \<and> stamp_inode s < 2 ^ 64
     \<and> - (2 ^ 127) \<le> changed_nanos s \<and> changed_nanos s < 2 ^ 127"

lemma parse_stamp_payload:
  assumes "stamp_in_range s"
  shows "parse_stamp (stamp_payload s) = Some s"
proof -
  let ?ws = "[decimal (stamp_len s), decimal (modified_nanos s), decimal (stamp_inode s), show_int (changed_nanos s)]"
  have "list_all plain_word ?ws" by (simp add: decimal_plain show_int_plain)
  then have "split_whitespace (spaced ?ws @ [newline]) = ?ws" by (rule split_whitespace_line)
  moreover have "stamp_payload s = spaced ?ws @ [newline]" by (simp add: stamp_payload_def)
  ultimately have "split_whitespace (stamp_payload s) = ?ws" by simp
  then show ?thesis
    using assms parse_unsigned_decimal parse_signed_show [of 128 "changed_nanos s"]
    by (simp add: parse_stamp_def stamp_in_range_def)
qed

text \<open>Theorem. The stamp that a successful check writes beside a snapshot is read back unchanged, for every
  stamp that fits the integer types of its fields.\<close>

theorem stamp_roundtrip:
  assumes "stamp_in_range s" and "\<not> sidecar_write_fails f" "\<not> sidecar_rename_fails f" "\<not> sidecar_read_fails g"
  shows "read_verified_stamp g (write_verified_stamp f s disk) = Some s"
  using assms parse_stamp_payload by (simp add: read_verified_stamp_def write_verified_stamp_def)

definition no_faults :: disk_faults where
  "no_faults = \<lparr>stat_fails = False, read_fails = False, write_fails = False, rename_fails = False,
     sidecar_read_fails = False, sidecar_write_fails = False, sidecar_rename_fails = False\<rparr>"

theorem stamp_roundtrip_witness:
  "read_verified_stamp no_faults (write_verified_stamp no_faults
      \<lparr>stamp_len = 7, modified_nanos = 9, stamp_inode = 3, changed_nanos = -5\<rparr> \<lparr>snapshot_file = None, sidecar = None\<rparr>)
   = Some \<lparr>stamp_len = 7, modified_nanos = 9, stamp_inode = 3, changed_nanos = -5\<rparr>"
  by (rule stamp_roundtrip) (simp_all add: stamp_in_range_def no_faults_def)

text \<open>What happens to the directory of a snapshot: this program saves or checks it, or someone else replaces
  the file (a crash in the middle of a write, a restored backup) or removes it. A replacement never has the
  size, times and inode that the sidecar records, because the change time moves with every write.\<close>

inductive disk_step :: "snapshot_codec \<Rightarrow> snapshot_disk \<Rightarrow> snapshot_disk \<Rightarrow> bool" for codec where
  step_save: "(\<And>payload. to_vec codec s = Some payload \<Longrightarrow> from_slice codec payload \<noteq> None) \<Longrightarrow>
    save codec f m s disk = (r, disk') \<Longrightarrow> disk_step codec disk disk'"
| step_check: "file_is_corrupt codec f disk = (c, disk') \<Longrightarrow> disk_step codec disk disk'"
| step_replace: "(\<And>raw stamp. sidecar disk = Some raw \<Longrightarrow> parse_stamp raw = Some stamp \<Longrightarrow> snapshot_stamp (Inr m) \<noteq> Some stamp) \<Longrightarrow>
    disk_step codec disk (disk\<lparr>snapshot_file := Some (data, m)\<rparr>)"
| step_remove: "disk_step codec disk (disk\<lparr>snapshot_file := None\<rparr>)"

definition stamp_inv :: "snapshot_codec \<Rightarrow> snapshot_disk \<Rightarrow> bool" where
  "stamp_inv codec disk \<longleftrightarrow>
     (\<forall>data m raw stamp. snapshot_file disk = Some (data, m) \<and> sidecar disk = Some raw
        \<and> parse_stamp raw = Some stamp \<and> snapshot_stamp (Inr m) = Some stamp \<longrightarrow> from_slice codec data \<noteq> None)"

lemma stamp_inv_known_good:
  "snapshot_file disk = Some (data, m) \<Longrightarrow> from_slice codec data \<noteq> None \<Longrightarrow> stamp_inv codec (write_verified_stamp f stamp disk)"
  by (auto simp: stamp_inv_def write_verified_stamp_def)

lemma disk_step_inv: "disk_step codec disk disk' \<Longrightarrow> stamp_inv codec disk \<Longrightarrow> stamp_inv codec disk'"
proof (induction rule: disk_step.induct)
  case (step_save s f m disk r disk')
  show ?case
  proof (cases "to_vec codec s")
    case None
    then show ?thesis using step_save by (simp add: save_def)
  next
    case (Some payload)
    have good: "from_slice codec payload \<noteq> None" using step_save(1) [OF Some] .
    let ?disk = "disk\<lparr>snapshot_file := Some (payload, m)\<rparr>"
    have "stamp_inv codec ?disk" using good by (auto simp: stamp_inv_def)
    moreover have "stamp_inv codec (write_verified_stamp f stamp ?disk)" for stamp
      using good by (intro stamp_inv_known_good [of _ payload m]) auto
    ultimately show ?thesis using step_save(2,3) Some by (auto simp: save_def Let_def split: if_splits option.splits)
  qed
next
  case (step_check f disk c disk')
  show ?case
  proof (cases "disk' = disk")
    case True
    then show ?thesis using step_check(2) by simp
  next
    case False
    then obtain data m stamp where "snapshot_file disk = Some (data, m)" "from_slice codec data \<noteq> None"
        "disk' = write_verified_stamp f stamp disk"
      using step_check(1) by (auto simp: file_is_corrupt_def Let_def split: option.splits if_splits)
    then show ?thesis using stamp_inv_known_good by blast
  qed
next
  case (step_replace disk m data)
  then show ?case by (auto simp: stamp_inv_def)
qed (auto simp: stamp_inv_def)

interpretation snapshot_check: component "\<lambda>disk. sidecar disk = None" "disk_step codec" "stamp_inv codec" for codec
  by unfold_locales (simp add: stamp_inv_def, rule disk_step_inv)




section \<open>Files that vanished are indexed again\<close>

lemma keys_mark_files: "map fst (mark_files ps m) = map fst m"
  by (induction ps m rule: mark_files.induct) (simp_all add: comp_def case_prod_unfold if_distrib)

lemma map_of_mark_one:
  "map_of (map (\<lambda>(k, hash). if k = p then (k, f hash) else (k, hash)) m) q =
     (if q = p then map_option f (map_of m p) else map_of m q)"
  by (induction m) auto

lemma mark_files_hash:
  "map_of m p = Some hash \<Longrightarrow> \<exists>hash'. map_of (mark_files ps m) p = Some hash'
     \<and> (if p \<in> set ps then starts_with hash' VANISHED_FILE_HASH else hash' = hash)
     \<and> (starts_with hash VANISHED_FILE_HASH \<longrightarrow> starts_with hash' VANISHED_FILE_HASH)"
proof (induction ps arbitrary: m hash)
  case (Cons q ps)
  let ?f = "\<lambda>hash. VANISHED_FILE_HASH @ ''-'' @ (if ends_with hash ''-1'' then ''1'' else ''0'')"
  let ?m = "map (\<lambda>(k, hash). if k = q then (k, ?f hash) else (k, hash)) m"
  have m: "map_of ?m p = Some (if p = q then ?f hash else hash)" using Cons.prems by (cases "p = q") (simp_all add: map_of_mark_one)
  from Cons.IH [OF m] show ?case by (cases "p = q") auto
qed simp

text \<open>Theorem. A file that vanished while it was indexed is not lost: when a later snapshot has it again with
  any hash of file metadata or contents and another root hash, then the difference to the marked snapshot
  reports it.\<close>

theorem vanished_paths_return:
  assumes "snapshot_ok h self" "ordered_keys (files newer)"
    and "p \<in> set rel_paths" "map_of (files self) p \<noteq> None"
    and "map_of (files newer) p = Some hash" "\<not> starts_with hash VANISHED_FILE_HASH"
    and "root_hash (mark_vanished h rel_paths self) \<noteq> root_hash newer"
  shows "(p, ends_with hash ''-1'') \<in> set (added_or_modified (diff (mark_vanished h rel_paths self) newer))"
proof -
  let ?old = "files (mark_vanished h rel_paths self)"
  have ord: "ordered_keys ?old"
    using assms(1) by (simp add: mark_vanished_def Let_def snapshot_ok_def ordered_keys_def keys_mark_files)
  obtain hash0 where "map_of (files self) p = Some hash0" using assms(4) by blast
  from mark_files_hash [OF this, of rel_paths] have "map_of ?old p \<noteq> Some hash"
    using assms(3,6) by (auto simp: mark_vanished_def Let_def)
  then have "(p, ends_with hash ''-1'') \<in> set (diff_added ?old (files newer))"
    using assms(5) by (auto simp: diff_added_iff [OF assms(2)])
  then show ?thesis using assms(7) merge_files_eq [OF ord assms(2)] by (simp add: diff_def no_diff_def)
qed

theorem vanished_paths_return_witness:
  "(''a'', False) \<in> set (added_or_modified (diff (mark_vanished demo_hasher [''a''] demo_snapshot) demo_snapshot))"
proof -
  have ok: "snapshot_ok demo_hasher demo_snapshot" by (simp add: snapshot_ok_def demo_snapshot_def ordered_keys_Cons)
  have "root_hash (mark_vanished demo_hasher [''a''] demo_snapshot) \<noteq> root_hash demo_snapshot"
    by (simp add: mark_vanished_def demo_snapshot_def root_hash_of_def VANISHED_FILE_HASH_def)
  from vanished_paths_return [OF ok _ _ _ _ _ this, of "''a''" "''x-0''"] show ?thesis
    using ok by (simp add: snapshot_ok_def demo_snapshot_def VANISHED_FILE_HASH_def suffix_def)
qed

end
