(* ===== verification/Index_GC.thy ===== *)
theory Index_GC
  imports Job_Ledger Merkle
begin

text \<open>
  Removal of indexes whose workspace root is gone (\<^verbatim>\<open>src/src/index_gc.rs\<close>). A pass lists the
  indexes, marks those whose root is missing with the time, and removes those that have been
  missing for the grace period, that no live overlay reads as its base, that no job uses and
  whose root is still missing once the locks of the index are held.

  The disk is the map from index directories to the files in them. What the pass observes of
  the rest of the world is a record of functions: the file system at the roots, the output of
  git, the job ledgers and which locks other processes hold. The stage that some of them take
  tells when the question is asked: 0 while the live bases are listed, 1 in the loop over the
  indexes and 2 under the locks; the answers may differ.
\<close>

section \<open>State\<close>

type_synonym gc_disk = "(string \<times> (string \<times> string) list) list"

record job_view =
  view_os :: process_os
  view_clock :: nat
  view_verified :: VerifiedProcesses
  view_ledger :: JobLedger
  view_time :: nat

record gc_world =
  root_stat :: "nat \<Rightarrow> string \<Rightarrow> io_error + file_meta"
  base_is_dir :: "string \<Rightarrow> bool"
  git_output :: "nat \<Rightarrow> string \<Rightarrow> string option"
  canonicalize :: "string list \<Rightarrow> string list option"
  json_string :: "string \<Rightarrow> string \<Rightarrow> string option"
  job_state :: "string \<Rightarrow> job_view"
  lock_open_fails :: "string \<Rightarrow> string \<Rightarrow> bool"
  lock_held :: "string \<Rightarrow> string \<Rightarrow> bool"
  marker_write_fails :: "string \<Rightarrow> bool"
  marker_remove_fails :: "string \<Rightarrow> bool"
  read_dir_fails :: "string \<Rightarrow> bool"
  entry_remove_fails :: "string \<Rightarrow> string \<Rightarrow> bool"
  dir_remove_error :: "string \<Rightarrow> io_error option"

definition MISSING_SINCE_FILE :: string where "MISSING_SINCE_FILE = ''.root_missing_since''"
definition DELETED_WORKTREE_GRACE :: nat where "DELETED_WORKTREE_GRACE = 10 * 60"
definition MIN_PASS_INTERVAL :: nat where "MIN_PASS_INTERVAL = 5"
definition MAX_PASS_INTERVAL :: nat where "MAX_PASS_INTERVAL = 10 * 60"
definition DEFAULT_INDEX_GC_GRACE_SECS :: nat where "DEFAULT_INDEX_GC_GRACE_SECS = 7 * 24 * 60 * 60"

record CollectedIndex =
  collected_root :: string
  collected_dir :: string

record WaitingIndex =
  waiting_root :: string
  collect_after_unix :: nat

record GcReport =
  collected :: "CollectedIndex list"
  waiting :: "WaitingIndex list"
  in_use :: "string list"

definition empty_report :: GcReport where
  "empty_report = \<lparr>collected = [], waiting = [], in_use = []\<rparr>"

text \<open>The value of the environment variable, where it is set.\<close>

definition index_gc_grace :: "string option \<Rightarrow> nat option" where
  "index_gc_grace var =
     (let secs = (case Option.bind var (\<lambda>value. parse_unsigned 64 (trim value)) of
                    Some n \<Rightarrow> n | None \<Rightarrow> DEFAULT_INDEX_GC_GRACE_SECS)
      in if 0 < secs then Some secs else None)"

text \<open>In quarters of a second: \<^verbatim>\<open>grace / 4\<close> divides a duration, not whole seconds.\<close>

definition pass_interval_quarters :: "string option \<Rightarrow> nat option" where
  "pass_interval_quarters var =
     map_option (\<lambda>grace. max (4 * MIN_PASS_INTERVAL) (min (4 * MAX_PASS_INTERVAL) grace)) (index_gc_grace var)"


section \<open>What a pass asks\<close>

definition root_is_gone :: "gc_world \<Rightarrow> nat \<Rightarrow> string \<Rightarrow> bool" where
  "root_is_gone w stage root =
     (case root_stat w stage root of
        Inr m \<Rightarrow> file_type m \<noteq> Directory
      | Inl e \<Rightarrow> e \<in> {NotFound, NotADirectory})"

definition read_missing_since :: "string option \<Rightarrow> nat option" where
  "read_missing_since marker = Option.bind marker (\<lambda>raw. parse_unsigned 64 (trim raw))"

record BaseRef =
  base_index_dir :: string
  base_workspace_root :: string

definition read_base_ref :: "gc_world \<Rightarrow> (string \<times> string) list \<Rightarrow> BaseRef option" where
  "read_base_ref w fs =
     Option.bind (map_of fs ''base_ref.json'') (\<lambda>raw.
     Option.bind (json_string w raw ''base_index_dir'') (\<lambda>dir.
     map_option (\<lambda>root. \<lparr>base_index_dir = dir, base_workspace_root = root\<rparr>)
       (json_string w raw ''base_workspace_root'')))"

text \<open>An absolute path is the list of its components. The loop moves components from the end of the path to
  \<open>missing\<close> until the rest can be resolved; at the root of the file system it gives up with the whole path.\<close>

function comparable_loop :: "(string list \<Rightarrow> string list option) \<Rightarrow> string list \<Rightarrow> string list \<Rightarrow> string list \<Rightarrow> string list" where
  "comparable_loop canon path existing missing =
     (case canon existing of
        Some resolved \<Rightarrow> resolved @ missing
      | None \<Rightarrow>
          if existing = [] then path @ missing
          else comparable_loop canon path (butlast existing) (last existing # missing))"
  by pat_completeness auto
termination by (relation "measure (\<lambda>(_, _, existing, _). length existing)") auto

declare comparable_loop.simps [simp del]

definition absolute_components :: "string \<Rightarrow> string list" where
  "absolute_components p = filter (\<lambda>c. c \<noteq> [] \<and> c \<noteq> ''.'') (split_on (\<lambda>c. c = CHR ''/'') p)"

definition comparable_path :: "gc_world \<Rightarrow> string \<Rightarrow> string" where
  "comparable_path w p =
     (let cs = absolute_components p;
          resolved = comparable_loop (canonicalize w) cs cs [];
          txt = map (\<lambda>c. if c = CHR 0x5C then CHR ''/'' else c) (concat (map (\<lambda>c. ''/'' @ c) resolved))
      in case strip_prefix txt ''//?/'' of Some t \<Rightarrow> t | None \<Rightarrow> txt)"

definition registered_worktrees :: "gc_world \<Rightarrow> nat \<Rightarrow> string \<Rightarrow> string list option" where
  "registered_worktrees w stage base_root =
     (if \<not> base_is_dir w base_root then None
      else map_option (\<lambda>stdout. map (comparable_path w)
             (List.map_filter (\<lambda>field. strip_prefix field ''worktree '') (split_on (\<lambda>b. b = CHR 0x00) stdout)))
             (git_output w stage base_root))"

type_synonym worktree_cache = "(string \<times> string list option) list"

definition worktree_is_unregistered ::
    "gc_world \<Rightarrow> nat \<Rightarrow> (string \<times> string) list \<Rightarrow> string \<Rightarrow> worktree_cache \<Rightarrow> bool \<times> worktree_cache" where
  "worktree_is_unregistered w stage fs root registered =
     (case read_base_ref w fs of
        None \<Rightarrow> (False, registered)
      | Some base_ref \<Rightarrow>
          let base = base_workspace_root base_ref;
              (known, registered') =
                (case map_of registered base of
                   Some k \<Rightarrow> (k, registered)
                 | None \<Rightarrow> let k = registered_worktrees w stage base in (k, alist_put base k registered))
          in (case known of Some worktrees \<Rightarrow> comparable_path w root \<notin> set worktrees | None \<Rightarrow> False, registered'))"

definition job_is_active :: "gc_world \<Rightarrow> string \<Rightarrow> JobKind \<Rightarrow> nat \<Rightarrow> bool" where
  "job_is_active w dir kind ttl =
     (let v = job_state w dir
      in status_active (fst (job_status_at (view_os v) (view_clock v) (view_verified v) (view_ledger v)
                               kind ttl (view_time v))))"


section \<open>Removing one index\<close>

datatype removal = Removed | InUse | RootReturned

datatype gc_error = LockUnopenable | ListFailed | RemoveFailed

text \<open>What the holder of the process is asked: to keep others out, and to let go of the stores.\<close>

datatype holder_call = Reserve string | Release string

record gc_state =
  gc_files :: gc_disk
  holder_calls :: "holder_call list"

definition lock_names :: "string list" where
  "lock_names = [''index.lock'', ''enhancement.lock'']"

text \<open>\<open>None\<close>: all the locks that exist are held now; otherwise the outcome.\<close>

fun take_locks :: "gc_world \<Rightarrow> string \<Rightarrow> (string \<times> string) list \<Rightarrow> string list \<Rightarrow> (gc_error + removal) option" where
  "take_locks w dir fs [] = None"
| "take_locks w dir fs (name # names) =
     (if map_of fs name = None then take_locks w dir fs names
      else if lock_open_fails w dir name then Some (Inl LockUnopenable)
      else if lock_held w dir name then Some (Inr InUse)
      else take_locks w dir fs names)"

text \<open>The loop over the entries of the directory: what is left of the files, and whether a removal failed.\<close>

fun remove_entries :: "gc_world \<Rightarrow> string \<Rightarrow> (string \<times> string) list \<Rightarrow> bool \<times> (string \<times> string) list" where
  "remove_entries w dir [] = (True, [])"
| "remove_entries w dir ((name, content) # fs) =
     (if name \<in> set lock_names
      then let (ok, rest) = remove_entries w dir fs in (ok, (name, content) # rest)
      else if entry_remove_fails w dir name then (False, (name, content) # fs)
      else remove_entries w dir fs)"

definition dir_files :: "gc_disk \<Rightarrow> string \<Rightarrow> (string \<times> string) list" where
  "dir_files disk dir = (case map_of disk dir of Some fs \<Rightarrow> fs | None \<Rightarrow> [])"

definition remove_unused_index ::
    "gc_world \<Rightarrow> string \<Rightarrow> bool \<Rightarrow> gc_state \<Rightarrow> (gc_error + removal) \<times> gc_state" where
  "remove_unused_index w dir still_gone st =
     (let st1 = st\<lparr>holder_calls := holder_calls st @ [Reserve dir]\<rparr>;
          fs = dir_files (gc_files st) dir
      in if job_is_active w dir Indexing INDEXING_HEARTBEAT_TTL_SECS
            \<or> job_is_active w dir Enhancement ENHANCEMENT_HEARTBEAT_TTL_SECS
         then (Inr InUse, st1)
         else
           case take_locks w dir fs lock_names of
             Some outcome \<Rightarrow> (outcome, st1)
           | None \<Rightarrow>
               if \<not> still_gone then (Inr RootReturned, st1)
               else
                 let st2 = st1\<lparr>holder_calls := holder_calls st1 @ [Release dir]\<rparr>
                 in if read_dir_fails w dir \<or> map_of (gc_files st2) dir = None then (Inl ListFailed, st2)
                    else
                      let (ok, rest) = remove_entries w dir fs;
                          st3 = st2\<lparr>gc_files := alist_put dir rest (gc_files st2)\<rparr>;
                          st4 = st2\<lparr>gc_files := alist_remove dir (gc_files st2)\<rparr>
                      in if \<not> ok then (Inl RemoveFailed, st3)
                         else case dir_remove_error w dir of
                                None \<Rightarrow> (Inr Removed, st4)
                              | Some NotFound \<Rightarrow> (Inr Removed, st4)
                              | Some _ \<Rightarrow> (Inl RemoveFailed, st3))"


section \<open>One pass\<close>

definition U64_MAX :: nat where "U64_MAX = 2 ^ 64 - 1"

definition saturating_add :: "nat \<Rightarrow> nat \<Rightarrow> nat" where
  "saturating_add a b = min (a + b) U64_MAX"

definition live_bases :: "gc_world \<Rightarrow> gc_disk \<Rightarrow> (string \<times> string) list \<Rightarrow> string list" where
  "live_bases w disk entries =
     List.map_filter (\<lambda>(dir, root). map_option base_index_dir (read_base_ref w (dir_files disk dir)))
       (filter (\<lambda>(dir, root). \<not> root_is_gone w 0 root) entries)"

definition set_marker :: "gc_world \<Rightarrow> string \<Rightarrow> nat \<Rightarrow> gc_state \<Rightarrow> gc_state" where
  "set_marker w dir now st =
     (if marker_write_fails w dir \<or> map_of (gc_files st) dir = None then st
      else st\<lparr>gc_files := alist_put dir (alist_put MISSING_SINCE_FILE (decimal now) (dir_files (gc_files st) dir)) (gc_files st)\<rparr>)"

definition clear_marker :: "gc_world \<Rightarrow> string \<Rightarrow> gc_state \<Rightarrow> gc_state" where
  "clear_marker w dir st =
     (if marker_remove_fails w dir \<or> map_of (gc_files st) dir = None then st
      else st\<lparr>gc_files := alist_put dir (alist_remove MISSING_SINCE_FILE (dir_files (gc_files st) dir)) (gc_files st)\<rparr>)"

definition missing_since_of :: "nat \<Rightarrow> (string \<times> string) list \<Rightarrow> nat" where
  "missing_since_of now fs =
     (case read_missing_since (map_of fs MISSING_SINCE_FILE) of Some since \<Rightarrow> min since now | None \<Rightarrow> now)"

definition record_removal ::
    "string \<Rightarrow> string \<Rightarrow> worktree_cache \<Rightarrow> GcReport \<Rightarrow> (gc_error + removal) \<times> gc_state
       \<Rightarrow> (gc_error + worktree_cache \<times> GcReport) \<times> gc_state" where
  "record_removal dir root registered report = (\<lambda>(outcome, st).
     (case outcome of
        Inl e \<Rightarrow> Inl e
      | Inr Removed \<Rightarrow>
          Inr (registered, report\<lparr>collected := collected report @ [\<lparr>collected_root = root, collected_dir = dir\<rparr>]\<rparr>)
      | Inr InUse \<Rightarrow> Inr (registered, report\<lparr>in_use := in_use report @ [dir]\<rparr>)
      | Inr RootReturned \<Rightarrow> Inr (registered, report), st))"

lemma snd_record_removal [simp]: "snd (record_removal dir root registered report res) = snd res"
  by (cases res) (simp add: record_removal_def)

definition gc_entry ::
    "gc_world \<Rightarrow> nat \<Rightarrow> nat \<Rightarrow> string list \<Rightarrow> string \<times> string \<Rightarrow> worktree_cache \<Rightarrow> GcReport \<Rightarrow> gc_state
       \<Rightarrow> (gc_error + worktree_cache \<times> GcReport) \<times> gc_state" where
  "gc_entry w now grace live entry registered report st =
     (let (dir, root) = entry
      in if \<not> root_is_gone w 1 root then (Inr (registered, report), clear_marker w dir st)
         else
           let fs = dir_files (gc_files st) dir;
               missing_since = missing_since_of now fs;
               st1 = (if read_missing_since (map_of fs MISSING_SINCE_FILE) = None then set_marker w dir now st else st);
               (unregistered, registered') = worktree_is_unregistered w 1 (dir_files (gc_files st1) dir) root registered;
               effective_grace = (if unregistered then min grace DELETED_WORKTREE_GRACE else grace);
               collect_after = saturating_add missing_since effective_grace
           in if now < collect_after
              then (Inr (registered', report\<lparr>waiting := waiting report @ [\<lparr>waiting_root = root, collect_after_unix = collect_after\<rparr>]\<rparr>), st1)
              else if dir \<in> set live then (Inr (registered', report\<lparr>in_use := in_use report @ [dir]\<rparr>), st1)
              else
                let due_as_unregistered = (now < saturating_add missing_since grace);
                    still_gone = (root_is_gone w 2 root
                      \<and> \<not> (due_as_unregistered \<and> \<not> fst (worktree_is_unregistered w 2 (dir_files (gc_files st1) dir) root [])))
                in record_removal dir root registered' report (remove_unused_index w dir still_gone st1))"

fun gc_loop ::
    "gc_world \<Rightarrow> nat \<Rightarrow> nat \<Rightarrow> string list \<Rightarrow> (string \<times> string) list \<Rightarrow> worktree_cache \<Rightarrow> GcReport \<Rightarrow> gc_state
       \<Rightarrow> (gc_error + GcReport) \<times> gc_state" where
  "gc_loop w now grace live [] registered report st = (Inr report, st)"
| "gc_loop w now grace live (entry # entries) registered report st =
     (case gc_entry w now grace live entry registered report st of
        (Inl e, st') \<Rightarrow> (Inl e, st')
      | (Inr (registered', report'), st') \<Rightarrow> gc_loop w now grace live entries registered' report' st')"

text \<open>\<open>entries\<close> is the registry: the index directories with the roots of their workspaces.\<close>

definition collect_orphaned_indexes_at ::
    "gc_world \<Rightarrow> nat \<Rightarrow> nat \<Rightarrow> (string \<times> string) list \<Rightarrow> gc_state \<Rightarrow> (gc_error + GcReport) \<times> gc_state" where
  "collect_orphaned_indexes_at w now grace entries st =
     gc_loop w now grace (live_bases w (gc_files st) entries) entries [] empty_report st"

definition collect_orphaned_indexes ::
    "gc_world \<Rightarrow> nat \<Rightarrow> string option \<Rightarrow> (string \<times> string) list \<Rightarrow> gc_state \<Rightarrow> (gc_error + GcReport) \<times> gc_state" where
  "collect_orphaned_indexes w now var entries st =
     (case index_gc_grace var of
        None \<Rightarrow> (Inr empty_report, st)
      | Some grace \<Rightarrow> collect_orphaned_indexes_at w now grace entries st)"

section \<open>Only orphaned indexes are removed\<close>

definition same_but_marker :: "(string \<times> string) list \<Rightarrow> (string \<times> string) list \<Rightarrow> bool" where
  "same_but_marker fs fs' \<longleftrightarrow> (\<forall>name. name \<noteq> MISSING_SINCE_FILE \<longrightarrow> map_of fs' name = map_of fs name)"

text \<open>The conditions under which an index may go, over the files it had before the pass.\<close>

definition orphaned :: "gc_world \<Rightarrow> nat \<Rightarrow> nat \<Rightarrow> string list \<Rightarrow> string \<Rightarrow> string \<Rightarrow> (string \<times> string) list \<Rightarrow> bool" where
  "orphaned w now grace live dir root fs \<longleftrightarrow>
     root_is_gone w 1 root \<and> root_is_gone w 2 root \<and> dir \<notin> set live
     \<and> \<not> job_is_active w dir Indexing INDEXING_HEARTBEAT_TTL_SECS
     \<and> \<not> job_is_active w dir Enhancement ENHANCEMENT_HEARTBEAT_TTL_SECS
     \<and> (\<forall>name\<in>set lock_names. map_of fs name \<noteq> None \<longrightarrow> \<not> lock_held w dir name)
     \<and> (saturating_add (missing_since_of now fs) grace \<le> now
        \<or> saturating_add (missing_since_of now fs) (min grace DELETED_WORKTREE_GRACE) \<le> now
          \<and> fst (worktree_is_unregistered w 2 fs root []))"

lemma marker_not_lock: "MISSING_SINCE_FILE \<notin> set lock_names" and marker_not_base: "MISSING_SINCE_FILE \<noteq> ''base_ref.json''"
  by (simp_all add: MISSING_SINCE_FILE_def lock_names_def)

lemma same_but_marker_base:
  "same_but_marker fs fs' \<Longrightarrow> worktree_is_unregistered w stage fs' root cache = worktree_is_unregistered w stage fs root cache"
  using marker_not_base by (auto simp: worktree_is_unregistered_def read_base_ref_def same_but_marker_def)

lemma take_locks_None:
  "take_locks w dir fs names = None \<Longrightarrow> name \<in> set names \<Longrightarrow> map_of fs name \<noteq> None \<Longrightarrow> \<not> lock_held w dir name"
  by (induction names) (auto split: if_splits)

lemma take_locks_outcome: "take_locks w dir fs names \<noteq> Some (Inr Removed)"
  by (induction names) auto

lemma set_marker_dirs:
  assumes "map_of (gc_files st) dir = Some fs"
  shows "map_of (gc_files (set_marker w dir now st)) d =
      (if d = dir then Some (if marker_write_fails w dir then fs else alist_put MISSING_SINCE_FILE (decimal now) fs)
       else map_of (gc_files st) d)"
  using assms by (simp add: set_marker_def dir_files_def)

lemma clear_marker_dirs:
  assumes "map_of (gc_files st) dir = Some fs"
  shows "map_of (gc_files (clear_marker w dir st)) d =
      (if d = dir then Some (if marker_remove_fails w dir then fs else alist_remove MISSING_SINCE_FILE fs)
       else map_of (gc_files st) d)"
  using assms by (simp add: clear_marker_def dir_files_def)

text \<open>What removing an index does: it changes no other directory, and changes this one only when every check
  passed; files are only removed from it.\<close>

lemma remove_entries_subset: "remove_entries w dir fs = (ok, rest) \<Longrightarrow> set rest \<subseteq> set fs"
  by (induction w dir fs arbitrary: ok rest rule: remove_entries.induct) (auto split: if_splits prod.splits)

lemma remove_unused_spec:
  assumes "remove_unused_index w dir gone st = (r, st')" and "map_of (gc_files st) dir = Some fs"
  shows "(\<forall>d. d \<noteq> dir \<longrightarrow> map_of (gc_files st') d = map_of (gc_files st) d)
    \<and> (gc_files st' = gc_files st \<or>
       gone \<and> \<not> job_is_active w dir Indexing INDEXING_HEARTBEAT_TTL_SECS
       \<and> \<not> job_is_active w dir Enhancement ENHANCEMENT_HEARTBEAT_TTL_SECS \<and> take_locks w dir fs lock_names = None)
    \<and> (\<forall>fs'. map_of (gc_files st') dir = Some fs' \<longrightarrow> set fs' \<subseteq> set fs)
    \<and> (r = Inr Removed \<longrightarrow> map_of (gc_files st') dir = None)"
proof -
  obtain ok rest where rest: "remove_entries w dir fs = (ok, rest)" by fastforce
  have fs: "dir_files (gc_files st) dir = fs" using assms(2) by (simp add: dir_files_def)
  show ?thesis
    using assms(1) assms(2) rest remove_entries_subset [OF rest] take_locks_outcome [of w dir fs lock_names]
    by (auto simp: remove_unused_index_def fs Let_def split: if_splits option.splits io_error.splits)
qed

definition markers :: "(string \<times> string) list \<Rightarrow> string set" where
  "markers fs = {v. (MISSING_SINCE_FILE, v) \<in> set fs}"

lemma markers_put: "markers (alist_put MISSING_SINCE_FILE v fs) = {v}"
  and markers_remove: "markers (alist_remove MISSING_SINCE_FILE fs) = {}"
  by (auto simp: markers_def alist_put_def set_alist_remove)

lemma gc_entry_spec:
  assumes "gc_entry w now grace live (dir, root) cache report st = (r, st')" and "map_of (gc_files st) dir = Some fs"
  shows "(\<forall>d. d \<noteq> dir \<longrightarrow> map_of (gc_files st') d = map_of (gc_files st) d)
    \<and> ((\<exists>fs'. map_of (gc_files st') dir = Some fs' \<and> same_but_marker fs fs') \<or> orphaned w now grace live dir root fs)
    \<and> (\<forall>fs'. map_of (gc_files st') dir = Some fs' \<longrightarrow>
         markers fs' \<subseteq> (if root_is_gone w 1 root then markers fs \<union> {decimal now}
                         else if marker_remove_fails w dir then markers fs else {}))"
proof (cases "root_is_gone w 1 root")
  case False
  then show ?thesis using assms clear_marker_dirs [OF assms(2), of w]
    by (auto simp: gc_entry_def same_but_marker_def markers_remove)
next
  case gone: True
  define st1 where "st1 = (if read_missing_since (map_of fs MISSING_SINCE_FILE) = None then set_marker w dir now st else st)"
  define fs1 where "fs1 = dir_files (gc_files st1) dir"
  have st1: "map_of (gc_files st1) dir = Some fs1" "same_but_marker fs fs1"
      "\<forall>d. d \<noteq> dir \<longrightarrow> map_of (gc_files st1) d = map_of (gc_files st) d" "markers fs1 \<subseteq> markers fs \<union> {decimal now}"
    using set_marker_dirs [OF assms(2), of w now] assms(2)
    by (auto simp: st1_def fs1_def dir_files_def same_but_marker_def markers_put)
  have fs: "dir_files (gc_files st) dir = fs" using assms(2) by (simp add: dir_files_def)
  obtain unreg cache' where un: "worktree_is_unregistered w 1 fs1 root cache = (unreg, cache')" by fastforce
  let ?ms = "missing_since_of now fs"
  let ?after = "saturating_add ?ms (if unreg then min grace DELETED_WORKTREE_GRACE else grace)"
  let ?due = "now < saturating_add ?ms grace"
  let ?still = "root_is_gone w 2 root \<and> \<not> (?due \<and> \<not> fst (worktree_is_unregistered w 2 fs1 root []))"
  show ?thesis
  proof (cases "now < ?after \<or> dir \<in> set live")
    case True
    then have "st' = st1" using assms(1) gone un
      by (auto simp: gc_entry_def fs Let_def st1_def [symmetric] fs1_def [symmetric] split: if_splits)
    then show ?thesis using st1 gone by auto
  next
    case False
    obtain r2 st2 where rem: "remove_unused_index w dir ?still st1 = (r2, st2)" by fastforce
    then have st2: "st' = st2"
      using assms(1) [THEN arg_cong, of snd] gone un False
      by (simp add: gc_entry_def fs Let_def st1_def [symmetric] fs1_def [symmetric])
    note spec = remove_unused_spec [OF rem st1(1)]
    have orph: "orphaned w now grace live dir root fs" if "gc_files st2 \<noteq> gc_files st1"
    proof -
      have chk: "?still" "\<not> job_is_active w dir Indexing INDEXING_HEARTBEAT_TTL_SECS"
        "\<not> job_is_active w dir Enhancement ENHANCEMENT_HEARTBEAT_TTL_SECS" "take_locks w dir fs1 lock_names = None"
        using spec that by auto
      have locks: "\<not> lock_held w dir name" if "name \<in> set lock_names" "map_of fs name \<noteq> None" for name
      proof -
        have "name \<noteq> MISSING_SINCE_FILE" using that(1) marker_not_lock by blast
        then have "map_of fs1 name \<noteq> None" using st1(2) that(2) by (simp add: same_but_marker_def)
        then show ?thesis using take_locks_None [OF chk(4) that(1)] by blast
      qed
      have "saturating_add ?ms (min grace DELETED_WORKTREE_GRACE) \<le> now"
        using False by (auto simp: saturating_add_def split: if_splits)
      then show ?thesis
        using gone chk locks False same_but_marker_base [OF st1(2)] by (auto simp: orphaned_def)
    qed
    have mk: "markers fs' \<subseteq> markers fs1" if "map_of (gc_files st2) dir = Some fs'" for fs'
      using spec that by (auto simp: markers_def)
    show ?thesis
    proof (cases "gc_files st2 = gc_files st1")
      case True
      then show ?thesis using st1 gone st2 by auto
    next
      case False
      then have "\<forall>d. d \<noteq> dir \<longrightarrow> map_of (gc_files st2) d = map_of (gc_files st) d" using spec st1(3) by simp
      moreover have "\<forall>fs'. map_of (gc_files st2) dir = Some fs' \<longrightarrow> markers fs' \<subseteq> markers fs \<union> {decimal now}"
        using mk st1(4) by blast
      ultimately show ?thesis using orph [OF False] gone st2 by simp
    qed
  qed
qed

text \<open>An entry of the registry leaves the directories of all others alone.\<close>

lemma remove_unused_frame:
  "d \<noteq> dir \<Longrightarrow> map_of (gc_files (snd (remove_unused_index w dir gone st))) d = map_of (gc_files st) d"
  by (auto simp: remove_unused_index_def Let_def split: prod.splits option.splits io_error.splits)

lemma marker_frame:
  "d \<noteq> dir \<Longrightarrow> map_of (gc_files (set_marker w dir now st)) d = map_of (gc_files st) d"
  "d \<noteq> dir \<Longrightarrow> map_of (gc_files (clear_marker w dir st)) d = map_of (gc_files st) d"
  by (simp_all add: set_marker_def clear_marker_def)

lemma gc_entry_frame:
  assumes "d \<noteq> dir"
  shows "map_of (gc_files (snd (gc_entry w now grace live (dir, root) cache report st))) d = map_of (gc_files st) d"
proof -
  show ?thesis
    by (simp add: gc_entry_def Let_def case_prod_unfold remove_unused_frame [OF assms] marker_frame [OF assms])
qed

lemma gc_loop_untouched:
  "dir \<notin> fst ` set entries \<Longrightarrow> map_of (gc_files (snd (gc_loop w now grace live entries cache report st))) dir = map_of (gc_files st) dir"
proof (induction entries arbitrary: cache report st)
  case (Cons e entries)
  obtain d root where e: "e = (d, root)" by (cases e)
  obtain r st1 where st1: "gc_entry w now grace live (d, root) cache report st = (r, st1)" by fastforce
  have "map_of (gc_files st1) dir = map_of (gc_files st) dir"
    using gc_entry_frame [of dir d w now grace live root cache report st] Cons.prems e st1 by simp
  then show ?case using Cons e st1 by (auto split: sum.splits)
qed simp

text \<open>A pass that completes treats each registered index once, in a state where its files are those of the start.\<close>

lemma gc_loop_visits:
  assumes "distinct (map fst entries)" "(dir, root) \<in> set entries" "map_of (gc_files st) dir = Some fs"
    and "gc_loop w now grace live entries cache report st = (r, st')"
  shows "map_of (gc_files st') dir = Some fs \<and> r \<notin> range Inr
    \<or> (\<exists>cache1 report1 st1 r1 st2. map_of (gc_files st1) dir = Some fs
         \<and> gc_entry w now grace live (dir, root) cache1 report1 st1 = (r1, st2)
         \<and> map_of (gc_files st') dir = map_of (gc_files st2) dir)"
  using assms
proof (induction entries arbitrary: cache report st)
  case (Cons e entries)
  obtain d rt where e: "e = (d, rt)" by (cases e)
  obtain r1 st1 where st1: "gc_entry w now grace live (d, rt) cache report st = (r1, st1)" by fastforce
  show ?case
  proof (cases "d = dir")
    case True
    then have "rt = root" using Cons.prems(1,2) e by (auto simp: image_iff)
    moreover have "map_of (gc_files st') dir = map_of (gc_files st1) dir"
    proof (cases r1)
      case (Inl er)
      then show ?thesis using Cons.prems(4) e st1 by simp
    next
      case (Inr cr)
      have "dir \<notin> fst ` set entries" using Cons.prems(1) e True by simp
      then show ?thesis using Cons.prems(4) e st1 Inr gc_loop_untouched [of dir entries w now grace live _ _ st1]
        by (cases cr) (metis (no_types, lifting) case_prod_conv gc_loop.simps(2) snd_conv sum.simps(6))
    qed
    ultimately show ?thesis using st1 True Cons.prems(3) by blast
  next
    case False
    have keep: "map_of (gc_files st1) dir = Some fs"
      using gc_entry_frame [of dir d w now grace live rt cache report st] False st1 Cons.prems(3) by simp
    show ?thesis
    proof (cases r1)
      case (Inl er)
      then show ?thesis using Cons.prems(4) e st1 keep by auto
    next
      case (Inr cr)
      obtain c1 rp1 where cr: "cr = (c1, rp1)" by (cases cr)
      have "gc_loop w now grace live entries c1 rp1 st1 = (r, st')" using Cons.prems(4) e st1 Inr cr by simp
      then show ?thesis using Cons.IH [OF _ _ keep] Cons.prems(1,2) e False by auto
    qed
  qed
qed simp

text \<open>Claim C3. A pass removes or changes the files of an index, its marker apart, only when the index is
  orphaned: its root is missing in the pass and again under the locks, it has been missing for the grace
  period since the recorded time, or for the shorter one while git, asked again under the locks, no longer
  lists the worktree; no overlay with a live root has it as its base; no indexing or enhancement job is
  active; and nobody holds its locks. This holds for passes that fail in the middle too.\<close>

theorem gc_removes_only_orphans:
  assumes "distinct (map fst entries)" and "map_of (gc_files st) dir = Some fs"
    and "collect_orphaned_indexes_at w now grace entries st = (r, st')"
    and "\<not> (\<exists>fs'. map_of (gc_files st') dir = Some fs'
          \<and> (\<forall>name. name \<noteq> MISSING_SINCE_FILE \<longrightarrow> map_of fs' name = map_of fs name))"
  shows "\<exists>root. (dir, root) \<in> set entries \<and> root_is_gone w 1 root \<and> root_is_gone w 2 root
     \<and> dir \<notin> set (live_bases w (gc_files st) entries)
     \<and> \<not> job_is_active w dir Indexing INDEXING_HEARTBEAT_TTL_SECS
     \<and> \<not> job_is_active w dir Enhancement ENHANCEMENT_HEARTBEAT_TTL_SECS
     \<and> (\<forall>name\<in>set lock_names. map_of fs name \<noteq> None \<longrightarrow> \<not> lock_held w dir name)
     \<and> (saturating_add (missing_since_of now fs) grace \<le> now
        \<or> saturating_add (missing_since_of now fs) (min grace DELETED_WORKTREE_GRACE) \<le> now
          \<and> fst (worktree_is_unregistered w 2 fs root []))"
proof -
  let ?live = "live_bases w (gc_files st) entries"
  have loop: "gc_loop w now grace ?live entries [] empty_report st = (r, st')"
    using assms(3) by (simp add: collect_orphaned_indexes_at_def)
  have changed: "\<not> (\<exists>fs'. map_of (gc_files st') dir = Some fs' \<and> same_but_marker fs fs')"
    using assms(4) by (simp add: same_but_marker_def)
  then have "map_of (gc_files st') dir \<noteq> map_of (gc_files st) dir" using assms(2) by (auto simp: same_but_marker_def)
  then obtain root where root: "(dir, root) \<in> set entries"
    using gc_loop_untouched [of dir entries w now grace ?live "[]" empty_report st] loop by force
  have "orphaned w now grace ?live dir root fs"
    using gc_loop_visits [OF assms(1) root assms(2) loop]
  proof
    assume "map_of (gc_files st') dir = Some fs \<and> r \<notin> range Inr"
    then show ?thesis using changed by (auto simp: same_but_marker_def)
  next
    assume "\<exists>cache1 report1 st1 r1 st2. map_of (gc_files st1) dir = Some fs
         \<and> gc_entry w now grace ?live (dir, root) cache1 report1 st1 = (r1, st2)
         \<and> map_of (gc_files st') dir = map_of (gc_files st2) dir"
    then show ?thesis using gc_entry_spec changed by metis
  qed
  then show ?thesis using root unfolding orphaned_def by blast
qed

lemma read_decimal: "n < 2 ^ 64 \<Longrightarrow> read_missing_since (Some (decimal n)) = Some n"
  by (simp add: read_missing_since_def trim_digits decimal_digits parse_unsigned_decimal)

definition demo_world :: gc_world where
  "demo_world = \<lparr>root_stat = (\<lambda>_ _. Inl NotFound), base_is_dir = (\<lambda>_. False), git_output = (\<lambda>_ _. None),
     canonicalize = (\<lambda>_. None), json_string = (\<lambda>_ _. None),
     job_state = (\<lambda>_. \<lparr>view_os = demo_os, view_clock = 0, view_verified = [], view_ledger = ledger_default, view_time = 0\<rparr>),
     lock_open_fails = (\<lambda>_ _. False), lock_held = (\<lambda>_ _. False), marker_write_fails = (\<lambda>_. False),
     marker_remove_fails = (\<lambda>_. False), read_dir_fails = (\<lambda>_. False), entry_remove_fails = (\<lambda>_ _. False),
     dir_remove_error = (\<lambda>_. None)\<rparr>"

definition demo_disk :: "(string \<times> string) list \<Rightarrow> gc_state" where
  "demo_disk fs = \<lparr>gc_files = [(''i'', fs)], holder_calls = []\<rparr>"

lemma demo_jobs: "\<not> job_is_active demo_world dir kind ttl"
  by (simp add: job_is_active_def demo_world_def job_status_at_def ledger_default_def ledger_get_def status_active_def)

lemma demo_gone: "root_is_gone demo_world stage root"
  by (simp add: root_is_gone_def demo_world_def)

lemma demo_registered: "worktree_is_unregistered demo_world stage fs root cache = (False, cache)"
  by (auto simp: worktree_is_unregistered_def read_base_ref_def demo_world_def split: option.splits)

lemma demo_live: "live_bases demo_world disk entries = []"
  by (simp add: live_bases_def demo_gone map_filter_simps)

lemma demo_second_pass:
  "map_of (gc_files (snd (collect_orphaned_indexes_at demo_world 100 10 [(''i'', ''r'')]
     (demo_disk [(MISSING_SINCE_FILE, decimal 0), (''f'', ''x'')])))) ''i'' = None"
proof -
  let ?fs = "[(MISSING_SINCE_FILE, decimal 0), (''f'', ''x'')]"
  have since: "read_missing_since (Some (decimal 0)) = Some 0" by (rule read_decimal) simp
  have locks: "take_locks demo_world ''i'' ?fs lock_names = None"
    by (simp add: lock_names_def MISSING_SINCE_FILE_def)
  have entries: "remove_entries demo_world ''i'' ?fs = (True, [])"
    by (simp add: lock_names_def MISSING_SINCE_FILE_def demo_world_def)
  show ?thesis
    by (simp add: collect_orphaned_indexes_at_def demo_live gc_entry_def demo_gone demo_registered demo_disk_def
        dir_files_def since missing_since_of_def saturating_add_def U64_MAX_def remove_unused_index_def demo_jobs locks
        entries Let_def case_prod_unfold record_removal_def)
      (simp add: demo_world_def)
qed

theorem gc_removes_only_orphans_witness:
  "root_is_gone demo_world 2 ''r'' \<and> saturating_add 0 10 \<le> 100
   \<and> map_of (gc_files (snd (collect_orphaned_indexes_at demo_world 100 10 [(''i'', ''r'')]
        (demo_disk [(MISSING_SINCE_FILE, decimal 0), (''f'', ''x'')])))) ''i'' = None"
proof -
  let ?fs = "[(MISSING_SINCE_FILE, decimal 0), (''f'', ''x'')]"
  obtain r st' where run: "collect_orphaned_indexes_at demo_world 100 10 [(''i'', ''r'')] (demo_disk ?fs) = (r, st')" by fastforce
  have gone: "map_of (gc_files st') ''i'' = None" using demo_second_pass run by simp
  have "read_missing_since (Some (decimal 0)) = Some 0" by (rule read_decimal) simp
  then have "missing_since_of 100 ?fs = 0" by (simp add: missing_since_of_def)
  moreover have "map_of (gc_files (demo_disk ?fs)) ''i'' = Some ?fs" by (simp add: demo_disk_def)
  ultimately show ?thesis
    using gc_removes_only_orphans [OF _ _ run, of "''i''" ?fs] gone demo_second_pass
    by (auto simp: demo_registered saturating_add_def)
qed


section \<open>The grace period spans passes\<close>

record gc_pass =
  pass_world :: gc_world
  pass_now :: nat
  pass_entries :: "(string \<times> string) list"

text \<open>Passes one after the other, all of which complete.\<close>

fun gc_run :: "nat \<Rightarrow> gc_pass list \<Rightarrow> gc_state \<Rightarrow> gc_state option" where
  "gc_run grace [] st = Some st"
| "gc_run grace (p # ps) st =
     (case collect_orphaned_indexes_at (pass_world p) (pass_now p) grace (pass_entries p) st of
        (Inr _, st') \<Rightarrow> gc_run grace ps st'
      | (Inl _, _) \<Rightarrow> None)"

lemma gc_run_snoc:
  "gc_run grace (ps @ [p]) st = Option.bind (gc_run grace ps st) (\<lambda>st1.
     case collect_orphaned_indexes_at (pass_world p) (pass_now p) grace (pass_entries p) st1 of
        (Inr _, st') \<Rightarrow> Some st' | (Inl _, _) \<Rightarrow> None)"
  by (induction ps arbitrary: st) (auto split: prod.splits sum.splits)

lemma remove_unused_absent:
  "map_of (gc_files st) dir = None \<Longrightarrow> map_of (gc_files (snd (remove_unused_index w dir gone st))) dir = None"
  by (auto simp: remove_unused_index_def Let_def split: prod.splits option.splits io_error.splits)

lemma gc_entry_absent:
  assumes "map_of (gc_files st) dir = None"
  shows "map_of (gc_files (snd (gc_entry w now grace live e cache report st))) dir = None"
proof -
  obtain d root where e: "e = (d, root)" by (cases e)
  show ?thesis
  proof (cases "d = dir")
    case True
    have mk: "set_marker w d now st = st" "clear_marker w d st = st" using assms True by (simp_all add: set_marker_def clear_marker_def)
    show ?thesis using assms True
      by (simp add: e gc_entry_def Let_def case_prod_unfold remove_unused_absent mk [unfolded True])
  next
    case False
    then show ?thesis using assms gc_entry_frame [of dir d] e by simp
  qed
qed

lemma gc_loop_absent:
  "map_of (gc_files st) dir = None \<Longrightarrow>
   map_of (gc_files (snd (gc_loop w now grace live entries cache report st))) dir = None"
proof (induction entries arbitrary: cache report st)
  case (Cons e entries)
  obtain r1 st1 where st1: "gc_entry w now grace live e cache report st = (r1, st1)" by fastforce
  have "map_of (gc_files st1) dir = None" using gc_entry_absent [OF Cons.prems, of w now grace live e cache report] st1 by simp
  then show ?case using Cons.IH st1 by (auto split: sum.splits)
qed simp

text \<open>A pass that regularly visits the index of a root.\<close>

definition visits :: "string \<Rightarrow> string \<Rightarrow> gc_pass \<Rightarrow> bool" where
  "visits dir root p \<longleftrightarrow> distinct (map fst (pass_entries p)) \<and> (dir, root) \<in> set (pass_entries p)
     \<and> \<not> marker_remove_fails (pass_world p) dir \<and> pass_now p < 2 ^ 64"

text \<open>A marker is the time of a pass since which every pass found the root missing.\<close>

definition marker_history :: "string \<Rightarrow> gc_pass list \<Rightarrow> (string \<times> string) list \<Rightarrow> bool" where
  "marker_history root ps fs \<longleftrightarrow>
     (\<forall>v\<in>markers fs. \<exists>k<length ps. v = decimal (pass_now (ps ! k))
        \<and> (\<forall>j. k \<le> j \<and> j < length ps \<longrightarrow> root_is_gone (pass_world (ps ! j)) 1 root))"

lemma marker_history_step:
  assumes "marker_history root ps fs"
    and "markers fs' \<subseteq> (if root_is_gone (pass_world p) 1 root then markers fs \<union> {decimal (pass_now p)} else {})"
  shows "marker_history root (ps @ [p]) fs'"
  unfolding marker_history_def
proof
  fix v assume v: "v \<in> markers fs'"
  then have gone: "root_is_gone (pass_world p) 1 root" and "v \<in> markers fs \<or> v = decimal (pass_now p)"
    using assms(2) by (auto split: if_splits)
  then consider k where "k < length ps" "v = decimal (pass_now (ps ! k))"
      "\<forall>j. k \<le> j \<and> j < length ps \<longrightarrow> root_is_gone (pass_world (ps ! j)) 1 root"
    | "v = decimal (pass_now p)" using assms(1) unfolding marker_history_def by blast
  then show "\<exists>k<length (ps @ [p]). v = decimal (pass_now ((ps @ [p]) ! k))
        \<and> (\<forall>j. k \<le> j \<and> j < length (ps @ [p]) \<longrightarrow> root_is_gone (pass_world ((ps @ [p]) ! j)) 1 root)"
  proof cases
    case 1
    then show ?thesis using gone by (intro exI [of _ k]) (auto simp: nth_append less_Suc_eq)
  next
    case 2
    then show ?thesis using gone by (intro exI [of _ "length ps"]) (auto simp: nth_append less_Suc_eq)
  qed
qed

lemma gc_run_markers:
  assumes "list_all (visits dir root) ps" "gc_run grace ps st = Some st'"
    and "map_of (gc_files st) dir = Some fs0" "markers fs0 = {}"
    and "map_of (gc_files st') dir = Some fs"
  shows "marker_history root ps fs"
  using assms(1,2,5)
proof (induction ps arbitrary: st' fs rule: rev_induct)
  case Nil
  then show ?case using assms(3,4) by (simp add: marker_history_def)
next
  case (snoc p ps)
  let ?live = "\<lambda>s. live_bases (pass_world p) (gc_files s) (pass_entries p)"
  obtain st1 where run: "gc_run grace ps st = Some st1" using snoc.prems(2) by (auto simp: gc_run_snoc bind_eq_Some_conv)
  obtain res st2 where "gc_loop (pass_world p) (pass_now p) grace (?live st1) (pass_entries p) [] empty_report st1 = (res, st2)"
    by fastforce
  then obtain r where st1: "gc_run grace ps st = Some st1"
      "gc_loop (pass_world p) (pass_now p) grace (?live st1) (pass_entries p) [] empty_report st1 = (Inr r, st')"
    using snoc.prems(2) run by (cases res) (auto simp: gc_run_snoc collect_orphaned_indexes_at_def)
  have "map_of (gc_files st1) dir \<noteq> None"
    using gc_loop_absent [of st1 dir] st1(2) snoc.prems(3) by (metis option.discI snd_conv)
  then obtain fs1 where fs1: "map_of (gc_files st1) dir = Some fs1" by blast
  have vis: "distinct (map fst (pass_entries p))" "(dir, root) \<in> set (pass_entries p)" "\<not> marker_remove_fails (pass_world p) dir"
    using snoc.prems(1) by (auto simp: visits_def)
  obtain c rp s1 r1 s2 where visit: "map_of (gc_files s1) dir = Some fs1"
      "gc_entry (pass_world p) (pass_now p) grace (?live st1) (dir, root) c rp s1 = (r1, s2)"
      "map_of (gc_files st') dir = map_of (gc_files s2) dir"
    using gc_loop_visits [OF vis(1,2) fs1 st1(2)] by auto
  have "markers fs \<subseteq> (if root_is_gone (pass_world p) 1 root then markers fs1 \<union> {decimal (pass_now p)} else {})"
    using gc_entry_spec [OF visit(2,1), THEN conjunct2, THEN conjunct2, rule_format, of fs] visit(3) snoc.prems(3) vis(3)
    by (auto split: if_splits)
  moreover have "marker_history root ps fs1" using snoc.IH [OF _ st1(1) fs1] snoc.prems(1) by simp
  ultimately show ?case by (rule marker_history_step [rotated])
qed


lemma demo_first_pass:
  "collect_orphaned_indexes_at demo_world 0 10 [(''i'', ''r'')] (demo_disk [(''f'', ''x'')]) =
     (Inr (empty_report\<lparr>waiting := [\<lparr>waiting_root = ''r'', collect_after_unix = 10\<rparr>]\<rparr>),
      demo_disk [(MISSING_SINCE_FILE, decimal 0), (''f'', ''x'')])"
  by (simp add: collect_orphaned_indexes_at_def demo_live gc_entry_def demo_gone demo_registered demo_disk_def
      dir_files_def read_missing_since_def missing_since_of_def set_marker_def saturating_add_def U64_MAX_def
      alist_put_def alist_remove_def MISSING_SINCE_FILE_def empty_report_def Let_def)
    (simp add: demo_world_def)


end
