(* ===== verification/Stable_Merge.thy ===== *)
theory Stable_Merge
  imports Prelude "HOL-Library.Multiset"
begin

text \<open>
  The stable merge of two sorted lists: sorting a list that was put together is merging the sorted parts, and truncating
  the parts first does not change the beginning of the result. \<open>Search_Batches\<close> uses it for results that arrive in
  batches, \<open>Top_Selection\<close> for work that is divided among threads.
\<close>

fun merge_by :: "('a \<Rightarrow> 'k :: linorder) \<Rightarrow> 'a list \<Rightarrow> 'a list \<Rightarrow> 'a list" where
  "merge_by f [] bs = bs"
| "merge_by f as [] = as"
| "merge_by f (a # as) (b # bs) = (if f a \<le> f b then a # merge_by f as (b # bs) else b # merge_by f (a # as) bs)"

lemma merge_by_Nil [simp]: "merge_by f as [] = as"
  by (cases as) auto

lemma mset_merge_by: "mset (merge_by f as bs) = mset as + mset bs"
  by (induction f as bs rule: merge_by.induct) auto

lemma set_merge_by: "set (merge_by f as bs) = set as \<union> set bs"
  using mset_merge_by [of f as bs] by (metis set_mset_mset set_mset_union)

lemma sorted_merge_by: "sorted (map f as) \<Longrightarrow> sorted (map f bs) \<Longrightarrow> sorted (map f (merge_by f as bs))"
  by (induction f as bs rule: merge_by.induct) (auto simp: set_merge_by intro: order_trans)

lemma filter_above: "sorted (map f (a # as)) \<Longrightarrow> k < f a \<Longrightarrow> filter (\<lambda>x. f x = k) (a # as) = []"
  by (auto simp: filter_empty_conv)

lemma filter_merge_by:
  "sorted (map f as) \<Longrightarrow> filter (\<lambda>x. f x = k) (merge_by f as bs) = filter (\<lambda>x. f x = k) as @ filter (\<lambda>x. f x = k) bs"
proof (induction f as bs rule: merge_by.induct)
  case (3 f a as b bs)
  show ?case
  proof (cases "f a \<le> f b")
    case True
    then show ?thesis using 3 by auto
  next
    case False
    then show ?thesis using 3 filter_above [of f a as k] by (cases "f b = k") auto
  qed
qed simp_all

lemma sort_append_merge:
  "sort_key f (as @ bs) = merge_by f (sort_key f as) (sort_key f bs)"
proof (rule properties_for_sort_key)
  show "mset (merge_by f (sort_key f as) (sort_key f bs)) = mset (as @ bs)" by (simp add: mset_merge_by)
  show "sorted (map f (merge_by f (sort_key f as) (sort_key f bs)))" by (rule sorted_merge_by) simp_all
  show "filter (\<lambda>x. f k = f x) (merge_by f (sort_key f as) (sort_key f bs)) = filter (\<lambda>x. f k = f x) (as @ bs)"
    if "k \<in> set (merge_by f (sort_key f as) (sort_key f bs))" for k
    by (simp add: filter_merge_by sort_key_stable eq_commute [of "f k"])
qed

lemma sort_sorted: "sorted (map f as) \<Longrightarrow> sort_key f as = as"
  by (rule sort_key_id_if_sorted)

lemma take_merge_le:
  "n \<le> a \<Longrightarrow> n \<le> b \<Longrightarrow> take n (merge_by f (take a xs) (take b ys)) = take n (merge_by f xs ys)"
proof (induction f xs ys arbitrary: n a b rule: merge_by.induct)
  case (3 f x xs y ys)
  show ?case
  proof (cases n)
    case (Suc m)
    then obtain a' b' where ab: "a = Suc a'" "b = Suc b'" using 3(3,4) by (metis Suc_le_D)
    show ?thesis
    proof (cases "f x \<le> f y")
      case True
      then show ?thesis using 3(1) [of m a' "Suc b'"] 3(3,4) Suc ab by simp
    next
      case False
      then show ?thesis using 3(2) [of m "Suc a'" b'] 3(3,4) Suc ab by simp
    qed
  qed simp
qed (simp_all add: min_def)

lemma take_merge_by: "take n (merge_by f (take n xs) (take n ys)) = take n (merge_by f xs ys)"
  by (rule take_merge_le) simp_all

text \<open>Truncating both parts first does not change the first \<open>n\<close> of the whole.\<close>

lemma take_sort_append:
  "take n (sort_key f (take n (sort_key f xs) @ take n (sort_key f ys))) = take n (sort_key f (xs @ ys))"
proof -
  have "sort_key f (take n (sort_key f zs)) = take n (sort_key f zs)" for zs :: "'a list"
    by (rule sort_key_id_if_sorted) (simp add: take_map [symmetric] sorted_wrt_take)
  then show ?thesis by (simp add: sort_append_merge take_merge_by)
qed

end
