(* ===== verification/Search_Batches.thy ===== *)
theory Search_Batches
  imports Stable_Merge "HOL-Library.Char_ord" "HOL-Library.List_Lexorder" "HOL-Library.Product_Lexorder"
    "HOL-Library.Multiset"
begin

unbundle bit_operations_syntax

text \<open>
  Collecting the results of a search over one or more workspaces (\<^verbatim>\<open>src/src/search_service.rs\<close>)
  and grouping hits by file (\<^verbatim>\<open>group_hits_by_file\<close> of \<^verbatim>\<open>src/src/protocol.rs\<close>): hits of files
  that no longer exist are dropped, results are ordered by score or by the number of hits, an
  overlapping workspace must not list a file twice, and limits are applied.

  A score is the bit pattern of an \<^verbatim>\<open>f32\<close>, ordered by \<^verbatim>\<open>total_cmp\<close>; the addition of scores is a
  parameter, on which no property depends. A sort with a comparator is the stable sort by the key
  that the comparator compares.
\<close>

section \<open>Paths and scores\<close>

text \<open>\<^verbatim>\<open>PathBuf\<close> as its components, with the order of \<^verbatim>\<open>std::path::Component\<close>.\<close>

datatype path_part = RootDir | CurDir | ParentDir | Normal string

type_synonym pathbuf = "path_part list"

fun part_key :: "path_part \<Rightarrow> nat \<times> string" where
  "part_key RootDir = (0, [])"
| "part_key CurDir = (1, [])"
| "part_key ParentDir = (2, [])"
| "part_key (Normal s) = (3, s)"

lemma part_key_inj: "part_key a = part_key b \<longleftrightarrow> a = b"
  by (cases a; cases b) auto

instantiation path_part :: linorder
begin

definition less_eq_path_part :: "path_part \<Rightarrow> path_part \<Rightarrow> bool" where
  "a \<le> b \<longleftrightarrow> part_key a \<le> part_key b"

definition less_path_part :: "path_part \<Rightarrow> path_part \<Rightarrow> bool" where
  "a < b \<longleftrightarrow> part_key a < part_key b"

instance
  by standard (auto simp: less_eq_path_part_def less_path_part_def part_key_inj dest: antisym simp flip: part_key_inj)

end

definition is_absolute :: "pathbuf \<Rightarrow> bool" where
  "is_absolute p \<longleftrightarrow> p \<noteq> [] \<and> hd p = RootDir"

definition path_join :: "pathbuf \<Rightarrow> pathbuf \<Rightarrow> pathbuf" where
  "path_join root p = (if is_absolute p then p else root @ p)"

type_synonym f32 = "32 word"

definition total_key :: "f32 \<Rightarrow> int" where
  "total_key w = sint (if sint w < 0 then w XOR 0x7FFFFFFF else w)"

section \<open>Hits and workspaces\<close>

record SearchHit =
  hit_path :: pathbuf
  hit_start :: nat
  hit_end :: nat
  preview :: string
  reason :: string
  score :: f32
  sources :: "string list"
  neural_requested :: bool
  neural_executed :: bool

record FileSearchResult =
  fr_path :: pathbuf
  total_score :: f32
  hit_count :: nat
  more_hits_in_file :: nat
  hit_count_is_lower_bound :: bool
  fr_hits :: "SearchHit list"

record 'w SearchWorkspaceSet =
  set_workspaces :: "'w list"
  set_warnings :: "string list"

fun path_text :: "pathbuf \<Rightarrow> string" where
  "path_text [] = []"
| "path_text (RootDir # ps) = ''/'' @ path_text ps"
| "path_text (p # ps) =
     (case p of Normal s \<Rightarrow> s | ParentDir \<Rightarrow> ''..'' | _ \<Rightarrow> ''.'')
     @ (if ps = [] then [] else ''/'' @ path_text ps)"

text \<open>\<open>resolve\<close> opens the workspace of a root, or says why it cannot.\<close>

fun resolve_workspace_roots :: "(pathbuf \<Rightarrow> string + 'w) \<Rightarrow> pathbuf list \<Rightarrow> 'w SearchWorkspaceSet" where
  "resolve_workspace_roots resolve [] = \<lparr>set_workspaces = [], set_warnings = []\<rparr>"
| "resolve_workspace_roots resolve (root # roots) =
     (let rest = resolve_workspace_roots resolve roots
      in case resolve root of
           Inr w \<Rightarrow> rest\<lparr>set_workspaces := w # set_workspaces rest\<rparr>
         | Inl err \<Rightarrow> rest\<lparr>set_warnings :=
             (''could not open indexed workspace '' @ path_text root @ '': '' @ err) # set_warnings rest\<rparr>)"

text \<open>\<open>registry\<close> is the list of indexed roots with its warnings; \<open>unsafe_root\<close> is why a root is not a safe
  directory, if it is not.\<close>

definition select_all_indexed_workspaces ::
    "string + pathbuf list \<times> string list \<Rightarrow> (pathbuf \<Rightarrow> string option) \<Rightarrow> ('w \<Rightarrow> pathbuf) \<Rightarrow> (pathbuf \<Rightarrow> string + 'w)
       \<Rightarrow> string + 'w SearchWorkspaceSet" where
  "select_all_indexed_workspaces registry unsafe_root ws_root resolve =
     (case registry of
        Inl e \<Rightarrow> Inl e
      | Inr (roots, warnings) \<Rightarrow>
          let selected = resolve_workspace_roots (\<lambda>root.
                case unsafe_root root of
                  Some cause \<Rightarrow> Inl (''registered workspace root is no longer a safe directory: '' @ cause)
                | None \<Rightarrow>
                    (case resolve root of
                       Inl e \<Rightarrow> Inl e
                     | Inr w \<Rightarrow> if ws_root w = root then Inr w else Inl ''registered workspace root changed'')) roots
          in Inr (selected\<lparr>set_warnings := warnings @ set_warnings selected\<rparr>))"

definition select_search_workspaces where
  "select_search_workspaces registry unsafe_root ws_root resolve current all_indices =
     (if \<not> all_indices then Inr \<lparr>set_workspaces = [current], set_warnings = []\<rparr>
      else select_all_indexed_workspaces registry unsafe_root ws_root resolve)"


section \<open>Hits of files that are gone\<close>

text \<open>\<open>missing root path\<close>: whether the path is missing below the root.\<close>

definition hit_root :: "pathbuf list \<Rightarrow> pathbuf \<Rightarrow> pathbuf option" where
  "hit_root roots p =
     (if is_absolute p then List.find (\<lambda>root. prefix root p) roots
      else case roots of [] \<Rightarrow> None | root # _ \<Rightarrow> Some root)"

fun keep_flags :: "(pathbuf \<Rightarrow> pathbuf \<Rightarrow> bool) \<Rightarrow> pathbuf list \<Rightarrow> (pathbuf \<times> bool) list \<Rightarrow> SearchHit list \<Rightarrow> bool list" where
  "keep_flags missing roots cache [] = []"
| "keep_flags missing roots cache (hit # hits) =
     (case hit_root roots (hit_path hit) of
        None \<Rightarrow> True # keep_flags missing roots cache hits
      | Some root \<Rightarrow>
          (case map_of cache (hit_path hit) of
             Some gone \<Rightarrow> (\<not> gone) # keep_flags missing roots cache hits
           | None \<Rightarrow>
               let gone = missing root (hit_path hit)
               in (\<not> gone) # keep_flags missing roots (alist_put (hit_path hit) gone cache) hits))"

definition retain_live_hits_with_roots :: "(pathbuf \<Rightarrow> pathbuf \<Rightarrow> bool) \<Rightarrow> SearchHit list \<Rightarrow> pathbuf list \<Rightarrow> SearchHit list" where
  "retain_live_hits_with_roots missing hits roots = map fst (filter snd (zip hits (keep_flags missing roots [] hits)))"

definition retain_live_hits :: "(pathbuf \<Rightarrow> pathbuf \<Rightarrow> bool) \<Rightarrow> SearchHit list \<Rightarrow> pathbuf list \<Rightarrow> SearchHit list" where
  "retain_live_hits missing hits roots =
     (if hits = [] \<or> roots = [] then hits
      else if length roots = 1 then retain_live_hits_with_roots missing hits roots
      else retain_live_hits_with_roots missing hits (sort_key (\<lambda>root. - int (length root)) roots))"


section \<open>Batches of hits\<close>

datatype HitOrdering = ScoreOrder | PreserveOrder

record SearchOutcome =
  out_hits :: "SearchHit list"
  out_warnings :: "string list"

record SearchBatch =
  batch_hits :: "SearchHit list"
  batch_warnings :: "string list"
  batch_successes :: nat

definition search_batch_new :: "string list \<Rightarrow> SearchBatch" where
  "search_batch_new warnings = \<lparr>batch_hits = [], batch_warnings = warnings, batch_successes = 0\<rparr>"

definition search_failed :: "pathbuf \<Rightarrow> string \<Rightarrow> string" where
  "search_failed root err = ''search failed for '' @ path_text root @ '': '' @ err"

definition search_batch_record :: "pathbuf \<Rightarrow> bool \<Rightarrow> string + SearchHit list \<Rightarrow> SearchBatch \<Rightarrow> SearchBatch" where
  "search_batch_record root absolute_paths result b =
     (case result of
        Inr hits \<Rightarrow>
          let hits' = (if absolute_paths then map (\<lambda>h. h\<lparr>hit_path := path_join root (hit_path h)\<rparr>) hits else hits)
          in b\<lparr>batch_successes := batch_successes b + 1, batch_hits := batch_hits b @ hits'\<rparr>
      | Inl err \<Rightarrow> b\<lparr>batch_warnings := batch_warnings b @ [search_failed root err]\<rparr>)"

definition search_batch_warn :: "string list \<Rightarrow> SearchBatch \<Rightarrow> SearchBatch" where
  "search_batch_warn warnings b =
     foldl (\<lambda>b w. if w \<in> set (batch_warnings b) then b else b\<lparr>batch_warnings := batch_warnings b @ [w]\<rparr>) b warnings"

fun join_warnings :: "string list \<Rightarrow> string" where
  "join_warnings [] = []"
| "join_warnings [w] = w"
| "join_warnings (w # ws) = w @ ''; '' @ join_warnings ws"

definition truncate_to :: "nat option \<Rightarrow> 'a list \<Rightarrow> 'a list" where
  "truncate_to limit xs = (case limit of None \<Rightarrow> xs | Some n \<Rightarrow> take n xs)"

definition hit_key :: "SearchHit \<Rightarrow> int \<times> pathbuf \<times> nat" where
  "hit_key h = (- total_key (score h), hit_path h, hit_start h)"

definition search_batch_finish :: "nat option \<Rightarrow> HitOrdering \<Rightarrow> SearchBatch \<Rightarrow> string + SearchOutcome" where
  "search_batch_finish limit order_by b =
     (if batch_successes b = 0 \<and> batch_warnings b \<noteq> []
      then Inl (''search failed: '' @ join_warnings (batch_warnings b))
      else
        let hits = (if order_by = ScoreOrder then sort_key hit_key (batch_hits b) else batch_hits b)
        in Inr \<lparr>out_hits = truncate_to limit hits, out_warnings = batch_warnings b\<rparr>)"

definition search_batch_finish_partial :: "nat option \<Rightarrow> SearchBatch \<Rightarrow> SearchOutcome" where
  "search_batch_finish_partial limit b =
     \<lparr>out_hits = truncate_to limit (batch_hits b), out_warnings = batch_warnings b\<rparr>"


section \<open>Batches of files\<close>

record FileSearchOutcome =
  out_files :: "FileSearchResult list"
  out_file_warnings :: "string list"

record FileSearchBatch =
  fb_files :: "FileSearchResult list"
  fb_warnings :: "string list"
  fb_successes :: nat
  fb_limit :: "nat option"

definition file_batch_new :: "string list \<Rightarrow> nat option \<Rightarrow> FileSearchBatch" where
  "file_batch_new warnings limit = \<lparr>fb_files = [], fb_warnings = warnings, fb_successes = 0, fb_limit = limit\<rparr>"

definition file_key :: "FileSearchResult \<Rightarrow> int \<times> pathbuf" where
  "file_key f = (- int (hit_count f), fr_path f)"

text \<open>\<open>retain\<close> with a set of the paths seen so far.\<close>

fun retain_new :: "pathbuf set \<Rightarrow> FileSearchResult list \<Rightarrow> FileSearchResult list" where
  "retain_new seen [] = []"
| "retain_new seen (f # fs) =
     (if fr_path f \<in> seen then retain_new seen fs else f # retain_new (insert (fr_path f) seen) fs)"

definition absolute_file :: "pathbuf \<Rightarrow> FileSearchResult \<Rightarrow> FileSearchResult" where
  "absolute_file root f =
     f\<lparr>fr_path := path_join root (fr_path f),
       fr_hits := map (\<lambda>h. h\<lparr>hit_path := path_join root (hit_path h)\<rparr>) (fr_hits f)\<rparr>"

definition file_batch_record ::
    "pathbuf \<Rightarrow> bool \<Rightarrow> string + FileSearchResult list \<Rightarrow> FileSearchBatch \<Rightarrow> FileSearchBatch" where
  "file_batch_record root absolute_paths result b =
     (case result of
        Inr files \<Rightarrow>
          let files' = (if absolute_paths then map (absolute_file root) files else files);
              sorted_files = sort_key file_key (fb_files b @ files');
              unique_files = (if absolute_paths then retain_new {} sorted_files else sorted_files)
          in b\<lparr>fb_successes := fb_successes b + 1, fb_files := truncate_to (fb_limit b) unique_files\<rparr>
      | Inl err \<Rightarrow> b\<lparr>fb_warnings := fb_warnings b @ [search_failed root err]\<rparr>)"

definition file_batch_finish_partial :: "FileSearchBatch \<Rightarrow> FileSearchOutcome" where
  "file_batch_finish_partial b = \<lparr>out_files = fb_files b, out_file_warnings = fb_warnings b\<rparr>"

definition file_batch_finish :: "FileSearchBatch \<Rightarrow> string + FileSearchOutcome" where
  "file_batch_finish b =
     (if fb_successes b = 0 \<and> fb_warnings b \<noteq> []
      then Inl (''search failed: '' @ join_warnings (fb_warnings b)) else Inr (file_batch_finish_partial b))"


section \<open>Grouping hits by file\<close>

text \<open>\<open>add\<close> is the addition of scores. The map is enumerated in the order of first insertion; the sort that
  follows has a key that no two files share, so that the order does not matter.\<close>

definition group_step :: "(f32 \<Rightarrow> f32 \<Rightarrow> f32) \<Rightarrow> (pathbuf \<times> FileSearchResult) list \<Rightarrow> SearchHit \<Rightarrow> (pathbuf \<times> FileSearchResult) list" where
  "group_step add grouped hit =
     (let entry = (case map_of grouped (hit_path hit) of
                     Some e \<Rightarrow> e
                   | None \<Rightarrow> \<lparr>fr_path = hit_path hit, total_score = 0, hit_count = 0, more_hits_in_file = 0,
                              hit_count_is_lower_bound = False, fr_hits = []\<rparr>)
      in alist_put (hit_path hit)
           (entry\<lparr>total_score := add (total_score entry) (score hit), hit_count := hit_count entry + 1,
                  fr_hits := fr_hits entry @ [hit]\<rparr>) grouped)"

definition sort_file_hits :: "FileSearchResult \<Rightarrow> FileSearchResult" where
  "sort_file_hits f = f\<lparr>fr_hits := sort_key (\<lambda>h. (- total_key (score h), hit_start h)) (fr_hits f)\<rparr>"

definition group_key :: "FileSearchResult \<Rightarrow> int \<times> pathbuf" where
  "group_key f = (- total_key (total_score f), fr_path f)"

definition group_hits_by_file :: "(f32 \<Rightarrow> f32 \<Rightarrow> f32) \<Rightarrow> SearchHit list \<Rightarrow> nat option \<Rightarrow> FileSearchResult list" where
  "group_hits_by_file add hits limit =
     truncate_to limit (sort_key group_key (map sort_file_hits (map snd (foldl (group_step add) [] hits))))"

section \<open>Merging and dropping\<close>

text \<open>Dropping the tail of the left list changes the result only behind everything that is kept of it.\<close>

lemma merge_common_prefix:
  "\<exists>p q q'. merge_by f (t @ d) bs = p @ q \<and> merge_by f t bs = p @ q' \<and> subseq t p"
proof (induction f t bs rule: merge_by.induct)
  case (1 f bs)
  show ?case by (rule exI [of _ "[]"]) simp
next
  case (2 f v va)
  show ?case by (rule exI [of _ "v # va"]) simp
next
  case (3 f a as b bs)
  show ?case
  proof (cases "f a \<le> f b")
    case True
    from "3.IH"(1) [OF True] obtain p q q' where
      "merge_by f (as @ d) (b # bs) = p @ q \<and> merge_by f as (b # bs) = p @ q' \<and> subseq as p" by blast
    then show ?thesis using True by (intro exI [of _ "a # p"] exI [of _ q] exI [of _ q']) simp
  next
    case False
    from "3.IH"(2) [OF False] obtain p q q' where
      "merge_by f ((a # as) @ d) bs = p @ q \<and> merge_by f (a # as) bs = p @ q' \<and> subseq (a # as) p" by blast
    then show ?thesis using False by (intro exI [of _ "b # p"] exI [of _ q] exI [of _ q']) (auto simp: subseq_Cons2_neq)
  qed
qed

section \<open>Collecting files one workspace at a time\<close>

lemma retain_new_append: "retain_new s (p @ q) = retain_new s p @ retain_new (s \<union> fr_path ` set p) q"
  by (induction s p rule: retain_new.induct) (auto simp: insert_absorb)

lemma retain_new_paths:
  "distinct (map fr_path (retain_new s fs)) \<and> fr_path ` set (retain_new s fs) = fr_path ` set fs - s"
  by (induction s fs rule: retain_new.induct) auto

lemma retain_new_subseq: "subseq (retain_new s fs) fs"
  by (induction s fs rule: retain_new.induct) auto

lemma length_retain_new: "length (retain_new {} fs) = card (fr_path ` set fs)"
  using retain_new_paths [of "{}" fs] by (metis Diff_empty distinct_card length_map list.set_map)

lemma retain_new_skip:
  "sorted (map f (a # as)) \<Longrightarrow> fr_path a \<in> s \<Longrightarrow> retain_new s (merge_by f (a # as) bs) = retain_new s (merge_by f as bs)"
proof (induction bs arbitrary: s)
  case (Cons b bs)
  show ?case
  proof (cases "f a \<le> f b")
    case True
    then show ?thesis using Cons.prems by simp
  next
    case False
    then have "merge_by f as (b # bs) = b # merge_by f as bs"
      using Cons.prems(1) by (cases as) auto
    then show ?thesis using Cons False by simp
  qed
qed simp

text \<open>Duplicates that are removed from the left list early would be removed at the end as well.\<close>

lemma retain_new_early:
  "sorted (map f as) \<Longrightarrow> s' \<subseteq> s \<Longrightarrow> retain_new s (merge_by f (retain_new s' as) bs) = retain_new s (merge_by f as bs)"
proof (induction "length as + length bs" arbitrary: as bs s s' rule: less_induct)
  case less
  show ?case
  proof (cases as)
    case Nil
    then show ?thesis by simp
  next
    case a: (Cons a as')
    have srt: "sorted (map f as')" using less.prems(1) a by simp
    show ?thesis
    proof (cases "fr_path a \<in> s'")
      case True
      then have "retain_new s (merge_by f (retain_new s' as) bs) = retain_new s (merge_by f (retain_new s' as') bs)" by (simp add: a)
      also have "\<dots> = retain_new s (merge_by f as' bs)" using less.hyps [OF _ srt less.prems(2), of bs] a by simp
      also have "\<dots> = retain_new s (merge_by f as bs)"
        using retain_new_skip [of f a as' s bs] less.prems True a by auto
      finally show ?thesis .
    next
      case False
      show ?thesis
      proof (cases bs)
        case Nil
        have "retain_new s (retain_new s' as) = retain_new s as" if "s' \<subseteq> s" for s s' as
          using that
        proof (induction s' as arbitrary: s rule: retain_new.induct)
          case (2 seen g fs)
          show ?case
          proof (cases "fr_path g \<in> seen")
            case True
            then show ?thesis using 2 by auto
          next
            case False
            then show ?thesis using "2.IH"(2) [OF False, of s] "2.IH"(2) [OF False, of "insert (fr_path g) s"] "2.prems"
              by (auto simp: insert_absorb)
          qed
        qed simp
        then show ?thesis using Nil less.prems(2) by simp
      next
        case b: (Cons b bs')
        show ?thesis
        proof (cases "f a \<le> f b")
          case True
          have ih: "retain_new t (merge_by f (retain_new (insert (fr_path a) s') as') bs) = retain_new t (merge_by f as' bs)"
            if "insert (fr_path a) s' \<subseteq> t" for t
            using less.hyps [OF _ srt that, of bs] a by simp
          show ?thesis
          proof (cases "fr_path a \<in> s")
            case True2: True
            then show ?thesis using True False a b ih [of s] less.prems(2) by simp
          next
            case False2: False
            then show ?thesis using True False a b ih [of "insert (fr_path a) s"] less.prems(2) by auto
          qed
        next
          case gt: False
          have ih: "retain_new t (merge_by f (retain_new s' as) bs') = retain_new t (merge_by f as bs')" if "s' \<subseteq> t" for t
            using less.hyps [OF _ less.prems(1) that, of bs'] b by simp
          have r: "retain_new s' as = a # retain_new (insert (fr_path a) s') as'" using False a by simp
          have "merge_by f (retain_new s' as) bs = b # merge_by f (retain_new s' as) bs'"
            unfolding r b using gt by simp
          moreover have "merge_by f as bs = b # merge_by f as bs'" using gt a b by simp
          ultimately show ?thesis using ih [of s] ih [of "insert (fr_path b) s"] less.prems(2) by auto
        qed
      qed
    qed
  qed
qed

definition unique_files :: "bool \<Rightarrow> FileSearchResult list \<Rightarrow> FileSearchResult list" where
  "unique_files absolute fs = (if absolute then retain_new {} fs else fs)"

lemma unique_files_subseq: "subseq (unique_files absolute fs) fs"
  by (simp add: unique_files_def retain_new_subseq)

lemma unique_files_prefix: "\<exists>r. unique_files absolute (p @ q) = unique_files absolute p @ r"
  by (auto simp: unique_files_def retain_new_append)

lemma truncate_subseq: "subseq (truncate_to limit xs) xs"
  by (cases limit) (auto simp: truncate_to_def take_is_prefix prefix_imp_subseq)

lemma sorted_subseq: "subseq xs ys \<Longrightarrow> sorted (map f ys) \<Longrightarrow> sorted (map f xs)"
  by (metis sorted_wrt_subseq subseq_map)

text \<open>The files kept so far are enough for what is kept of the merge.\<close>

lemma unique_files_long:
  assumes "subseq (take n (unique_files absolute as)) p" "n \<le> length (unique_files absolute as)"
  shows "n \<le> length (unique_files absolute p)"
proof (cases absolute)
  case True
  let ?t = "take n (retain_new {} as)"
  have "distinct (map fr_path ?t)" using retain_new_paths [of "{}" as] by (simp add: take_map [symmetric])
  then have "card (fr_path ` set ?t) = length ?t" by (metis distinct_card length_map list.set_map)
  moreover have "set ?t \<subseteq> set p" using assms(1) True by (auto simp: unique_files_def dest: list_emb_set)
  then have "card (fr_path ` set ?t) \<le> card (fr_path ` set p)" by (intro card_mono) auto
  ultimately show ?thesis using assms(2) True by (simp add: unique_files_def length_retain_new)
next
  case False
  then have "length (take n as) \<le> length p" using assms(1) by (auto simp: unique_files_def dest: list_emb_length)
  then show ?thesis using assms(2) False by (simp add: unique_files_def)
qed

lemma unique_files_early:
  assumes "sorted (map f as)"
  shows "unique_files absolute (merge_by f (unique_files absolute as) bs) = unique_files absolute (merge_by f as bs)"
  using retain_new_early [OF assms, of "{}" "{}"] by (simp add: unique_files_def)

lemma truncated_merge:
  assumes "sorted (map f as)"
  shows "truncate_to limit (unique_files absolute (merge_by f (truncate_to limit (unique_files absolute as)) bs))
    = truncate_to limit (unique_files absolute (merge_by f as bs))"
proof (cases limit)
  case None
  then show ?thesis using unique_files_early [OF assms] by (simp add: truncate_to_def)
next
  case (Some n)
  let ?u = "unique_files absolute as"
  show ?thesis
  proof (cases "n \<le> length ?u")
    case False
    then show ?thesis using Some unique_files_early [OF assms] by (simp add: truncate_to_def)
  next
    case True
    obtain p q q' where p: "merge_by f (take n ?u @ drop n ?u) bs = p @ q" "merge_by f (take n ?u) bs = p @ q'"
        "subseq (take n ?u) p"
      using merge_common_prefix by blast
    have "n \<le> length (unique_files absolute p)" using unique_files_long [OF p(3) True] .
    then have "take n (unique_files absolute (p @ r)) = take n (unique_files absolute p)" for r
      using unique_files_prefix [of absolute p r] by auto
    then have "take n (unique_files absolute (merge_by f (take n ?u) bs)) = take n (unique_files absolute (merge_by f ?u bs))"
      using p(1,2) by simp
    then show ?thesis using Some unique_files_early [OF assms] by (simp add: truncate_to_def)
  qed
qed

text \<open>All files of the searches that succeeded, in the order of the searches.\<close>

definition found_files :: "bool \<Rightarrow> (pathbuf \<times> (string + FileSearchResult list)) list \<Rightarrow> FileSearchResult list" where
  "found_files absolute results =
     concat (map (\<lambda>(root, r). case r of Inr fs \<Rightarrow> (if absolute then map (absolute_file root) fs else fs) | Inl _ \<Rightarrow> []) results)"

definition record_all :: "bool \<Rightarrow> (pathbuf \<times> (string + FileSearchResult list)) list \<Rightarrow> FileSearchBatch \<Rightarrow> FileSearchBatch" where
  "record_all absolute results b = foldl (\<lambda>b (root, r). file_batch_record root absolute r b) b results"

lemma record_all_files:
  "fb_limit (record_all absolute results (file_batch_new warnings limit)) = limit
   \<and> fb_files (record_all absolute results (file_batch_new warnings limit)) =
       truncate_to limit (unique_files absolute (sort_key file_key (found_files absolute results)))
   \<and> fb_successes (record_all absolute results (file_batch_new warnings limit)) = length (filter (\<lambda>(_, r). \<not> isl r) results)
   \<and> fb_warnings (record_all absolute results (file_batch_new warnings limit)) =
       warnings @ List.map_filter (\<lambda>(root, r). case r of Inl e \<Rightarrow> Some (search_failed root e) | Inr _ \<Rightarrow> None) results"
proof (induction results rule: rev_induct)
  case Nil
  then show ?case by (cases limit) (simp_all add: record_all_def file_batch_new_def found_files_def unique_files_def truncate_to_def map_filter_simps)
next
  case (snoc x results)
  obtain root r where x: "x = (root, r)" by (cases x)
  let ?b = "record_all absolute results (file_batch_new warnings limit)"
  let ?all = "found_files absolute results"
  have step: "record_all absolute (results @ [x]) (file_batch_new warnings limit) = file_batch_record root absolute r ?b"
    by (simp add: record_all_def x)
  show ?case
  proof (cases r)
    case (Inl e)
    then show ?thesis using snoc step
      by (simp add: file_batch_record_def x found_files_def map_filter_def)
  next
    case (Inr fs)
    let ?new = "if absolute then map (absolute_file root) fs else fs"
    let ?s = "sort_key file_key ?all"
    let ?kept = "truncate_to limit (unique_files absolute ?s)"
    have all': "found_files a (results @ [(root, Inr fs)]) =
        found_files a results @ (if a then map (absolute_file root) fs else fs)" for a
      by (simp add: found_files_def)
    have "sorted (map file_key ?kept)"
      using sorted_subseq [OF subseq_order.order_trans [OF truncate_subseq unique_files_subseq]] sorted_sort_key by blast
    then have "sort_key file_key (?kept @ ?new) = merge_by file_key ?kept (sort_key file_key ?new)"
      by (simp add: sort_append_merge sort_sorted)
    then have "truncate_to limit (unique_files absolute (sort_key file_key (?kept @ ?new)))
        = truncate_to limit (unique_files absolute (sort_key file_key (?all @ ?new)))"
      by (simp add: sort_append_merge truncated_merge)
    then show ?thesis using snoc step Inr
      by (simp add: file_batch_record_def x all' unique_files_def map_filter_def Let_def)
  qed
qed

text \<open>Claim C13. Collecting the files of several workspaces one at a time, with sorting, removal of duplicates
  and truncation after each, gives what one sort, one removal and one truncation of all files would give; the
  search fails exactly when there are warnings and no workspace succeeded.\<close>

theorem file_batch_incremental:
  "file_batch_finish (record_all absolute results (file_batch_new warnings limit)) =
     (let ws = warnings @ List.map_filter (\<lambda>(root, r). case r of Inl e \<Rightarrow> Some (search_failed root e) | Inr _ \<Rightarrow> None) results;
          fs = sort_key file_key (found_files absolute results)
      in if list_all (\<lambda>(_, r). isl r) results \<and> ws \<noteq> [] then Inl (''search failed: '' @ join_warnings ws)
         else Inr \<lparr>out_files = truncate_to limit (if absolute then retain_new {} fs else fs), out_file_warnings = ws\<rparr>)"
proof -
  have "length (filter (\<lambda>(_, r). \<not> isl r) results) = 0 \<longleftrightarrow> list_all (\<lambda>(_, r). isl r) results"
    by (auto simp: filter_empty_conv list_all_iff)
  then show ?thesis
    using record_all_files [of absolute results warnings limit]
    by (simp add: file_batch_finish_def file_batch_finish_partial_def unique_files_def Let_def)
qed

section \<open>Dropping the hits of missing files\<close>

definition hit_lives :: "(pathbuf \<Rightarrow> pathbuf \<Rightarrow> bool) \<Rightarrow> pathbuf list \<Rightarrow> SearchHit \<Rightarrow> bool" where
  "hit_lives missing roots h =
     (case hit_root roots (hit_path h) of None \<Rightarrow> True | Some root \<Rightarrow> \<not> missing root (hit_path h))"

text \<open>The cache of answers changes nothing.\<close>

lemma keep_flags_eq:
  "(\<forall>p g. map_of cache p = Some g \<longrightarrow> (\<exists>root. hit_root roots p = Some root \<and> g = missing root p)) \<Longrightarrow>
   keep_flags missing roots cache hits = map (hit_lives missing roots) hits"
proof (induction missing roots cache hits rule: keep_flags.induct)
  case (2 missing roots cache hit hits)
  show ?case
  proof (cases "hit_root roots (hit_path hit)")
    case None
    then show ?thesis using "2.IH"(1) [OF None] "2.prems" by (simp add: hit_lives_def)
  next
    case (Some root)
    show ?thesis
    proof (cases "map_of cache (hit_path hit)")
      case None
      have "keep_flags missing roots (alist_put (hit_path hit) (missing root (hit_path hit)) cache) hits
          = map (hit_lives missing roots) hits"
        using "2.prems" Some by (intro "2.IH"(2) [OF Some None refl]) (auto split: if_splits)
      then show ?thesis using Some None by (simp add: hit_lives_def Let_def)
    next
      case g: (Some g)
      then have "g = missing root (hit_path hit)" using "2.prems" Some by fastforce
      then show ?thesis using "2.IH"(3) [OF Some g] "2.prems" Some g by (simp add: hit_lives_def)
    qed
  qed
qed simp

lemma filter_zip_map: "map fst (filter snd (zip xs (map P xs))) = filter P xs"
  by (induction xs) auto

lemma retain_with_roots_eq: "retain_live_hits_with_roots missing hits roots = filter (hit_lives missing roots) hits"
  by (simp add: retain_live_hits_with_roots_def keep_flags_eq filter_zip_map)

lemma find_deepest:
  assumes "sorted (map (\<lambda>r. - int (length r)) rs)"
  shows "List.find (\<lambda>r. prefix r p) rs = (if \<exists>r\<in>set rs. prefix r p
     then Some (take (Max (length ` {r \<in> set rs. prefix r p})) p) else None)"
  using assms
proof (induction rs)
  case (Cons r rs)
  show ?case
  proof (cases "prefix r p")
    case True
    have "Max (length ` {r' \<in> set (r # rs). prefix r' p}) = length r"
      using Cons.prems True by (intro Max_eqI) auto
    moreover have "take (length r) p = r" using True by (auto simp: prefix_def)
    ultimately show ?thesis using True by auto
  next
    case False
    then have "{r' \<in> set (r # rs). prefix r' p} = {r' \<in> set rs. prefix r' p}" by auto
    then show ?thesis using Cons False by simp
  qed
qed simp

text \<open>Theorem. With absolute paths, a hit is dropped exactly when its file is missing below the deepest of the
  searched roots that contain it; all other hits stay, in their order.\<close>

theorem live_hits_exact:
  assumes "roots \<noteq> []" and "\<forall>h\<in>set hits. is_absolute (hit_path h)"
  shows "retain_live_hits missing hits roots =
     filter (\<lambda>h. \<forall>root\<in>set roots. prefix root (hit_path h)
        \<and> (\<forall>r\<in>set roots. prefix r (hit_path h) \<longrightarrow> length r \<le> length root) \<longrightarrow> \<not> missing root (hit_path h)) hits"
proof -
  let ?rs = "sort_key (\<lambda>root. - int (length root)) roots"
  have rs: "retain_live_hits missing hits roots = filter (hit_lives missing ?rs) hits"
  proof (cases "length roots = 1")
    case True
    then obtain r where "roots = [r]" by (auto simp: length_Suc_conv)
    then show ?thesis by (auto simp: retain_live_hits_def retain_with_roots_eq)
  qed (use assms(1) in \<open>auto simp: retain_live_hits_def retain_with_roots_eq\<close>)
  have "hit_lives missing ?rs h \<longleftrightarrow> (\<forall>root\<in>set roots. prefix root (hit_path h)
        \<and> (\<forall>r\<in>set roots. prefix r (hit_path h) \<longrightarrow> length r \<le> length root) \<longrightarrow> \<not> missing root (hit_path h))"
    if "h \<in> set hits" for h
  proof (cases "\<exists>r\<in>set roots. prefix r (hit_path h)")
    case True
    let ?in = "{r \<in> set roots. prefix r (hit_path h)}"
    let ?n = "Max (length ` ?in)"
    have "?n \<in> length ` ?in" using True by (intro Max_in) auto
    then obtain d where d: "d \<in> set roots" "prefix d (hit_path h)" "length d = ?n" by auto
    have max: "length r \<le> length d" if "r \<in> set roots" "prefix r (hit_path h)" for r
      unfolding d(3) using that by (intro Max_ge) auto
    have take_prefix: "take (length r) p = r" if "prefix r p" for r p :: pathbuf using that by (auto simp: prefix_def)
    have take_d: "take ?n (hit_path h) = d" using take_prefix [OF d(2)] unfolding d(3) .
    have unique: "r = d" if "r \<in> set roots" "prefix r (hit_path h)" "\<forall>r'\<in>set roots. prefix r' (hit_path h) \<longrightarrow> length r' \<le> length r" for r
    proof -
      have "length r = length d" using that(3) d(1,2) max [OF that(1,2)] by (simp add: order_antisym)
      then show ?thesis using take_prefix [OF that(2)] take_prefix [OF d(2)] by metis
    qed
    have "hit_root ?rs (hit_path h) = Some d"
      using assms(2) that True take_d find_deepest [of ?rs "hit_path h"]
      by (simp only: hit_root_def sorted_sort_key set_sort if_True simp_thms)
    then have lives: "hit_lives missing ?rs h \<longleftrightarrow> \<not> missing d (hit_path h)" by (simp add: hit_lives_def)
    show ?thesis
    proof
      assume "hit_lives missing ?rs h"
      then show "\<forall>root\<in>set roots. prefix root (hit_path h)
        \<and> (\<forall>r\<in>set roots. prefix r (hit_path h) \<longrightarrow> length r \<le> length root) \<longrightarrow> \<not> missing root (hit_path h)"
        using unique lives by metis
    next
      assume "\<forall>root\<in>set roots. prefix root (hit_path h)
        \<and> (\<forall>r\<in>set roots. prefix r (hit_path h) \<longrightarrow> length r \<le> length root) \<longrightarrow> \<not> missing root (hit_path h)"
      then show "hit_lives missing ?rs h" using d(1,2) max lives by simp
    qed
  next
    case False
    then have "hit_root ?rs (hit_path h) = None"
      using assms(2) that find_deepest [of ?rs "hit_path h"] by (simp add: hit_root_def)
    then show ?thesis using False by (auto simp: hit_lives_def)
  qed
  then show ?thesis unfolding rs by (rule filter_cong [OF refl])
qed

definition demo_hit :: "pathbuf \<Rightarrow> SearchHit" where
  "demo_hit p = \<lparr>hit_path = p, hit_start = 1, hit_end = 1, preview = [], reason = [], score = 0, sources = [],
     neural_requested = False, neural_executed = False\<rparr>"

theorem live_hits_exact_witness:
  "retain_live_hits (\<lambda>root p. length root = 2) [demo_hit [RootDir, Normal ''w'', Normal ''f'']]
     [[RootDir], [RootDir, Normal ''w'']] = []"
  by (subst live_hits_exact) (auto simp: demo_hit_def is_absolute_def)

section \<open>Grouping is a partition\<close>

definition group_entry :: "(f32 \<Rightarrow> f32 \<Rightarrow> f32) \<Rightarrow> pathbuf \<Rightarrow> SearchHit list \<Rightarrow> FileSearchResult" where
  "group_entry add p hs = \<lparr>fr_path = p, total_score = foldl add 0 (map score hs), hit_count = length hs,
     more_hits_in_file = 0, hit_count_is_lower_bound = False, fr_hits = hs\<rparr>"

lemma group_fold:
  "distinct_keys (foldl (group_step add) [] hits)
   \<and> (\<forall>p. map_of (foldl (group_step add) [] hits) p =
        (if p \<in> hit_path ` set hits then Some (group_entry add p (filter (\<lambda>h. hit_path h = p) hits)) else None))"
proof (induction hits rule: rev_induct)
  case (snoc h hits)
  let ?g = "foldl (group_step add) [] hits"
  let ?p = "hit_path h"
  have keys: "distinct_keys ?g" and look: "map_of ?g p =
      (if p \<in> hit_path ` set hits then Some (group_entry add p (filter (\<lambda>h. hit_path h = p) hits)) else None)" for p
    using snoc by auto
  have none: "filter (\<lambda>h. hit_path h = ?p) hits = []" if "?p \<notin> hit_path ` set hits"
    unfolding filter_empty_conv using that by (metis imageI)
  have step: "group_step add ?g h = alist_put ?p (group_entry add ?p (filter (\<lambda>h. hit_path h = ?p) hits @ [h])) ?g"
    using none by (auto simp: group_step_def look group_entry_def Let_def)
  show ?case using keys step look by (auto simp: fun_upd_def)
qed simp

lemma grouped_files:
  "set (map snd (foldl (group_step add) [] hits)) = (\<lambda>p. group_entry add p (filter (\<lambda>h. hit_path h = p) hits)) ` hit_path ` set hits
   \<and> distinct (map fr_path (map snd (foldl (group_step add) [] hits)))"
proof -
  let ?g = "foldl (group_step add) [] hits"
  let ?e = "\<lambda>p. group_entry add p (filter (\<lambda>h. hit_path h = p) hits)"
  have keys: "distinct_keys ?g" using group_fold by blast
  have mem: "(p, f) \<in> set ?g \<longleftrightarrow> p \<in> hit_path ` set hits \<and> f = ?e p" for p f
    using group_fold [of add hits] distinct_keys_set_map_of [OF keys, of p f] by auto
  have "map fr_path (map snd ?g) = map fst ?g" using mem by (auto simp: group_entry_def)
  then have "distinct (map fr_path (map snd ?g))" using keys by (simp only: distinct_keys_def)
  moreover have "set (map snd ?g) = ?e ` hit_path ` set hits" using mem by (auto simp: image_iff) force+
  ultimately show ?thesis by blast
qed

text \<open>Theorem. Grouping hits by file gives one result for every file that has a hit, with exactly the hits of
  that file, their number and the sum of their scores in order, the hits by falling score and then by line, the
  files by falling total and then by path, cut at the limit.\<close>

theorem group_hits_exact:
  "group_hits_by_file add hits limit = truncate_to limit (group_hits_by_file add hits None)
   \<and> sorted (map group_key (group_hits_by_file add hits None))
   \<and> distinct (map fr_path (group_hits_by_file add hits None))
   \<and> set (group_hits_by_file add hits None) =
       (\<lambda>p. let hs = filter (\<lambda>h. hit_path h = p) hits
             in \<lparr>fr_path = p, total_score = foldl add 0 (map score hs), hit_count = length hs, more_hits_in_file = 0,
                 hit_count_is_lower_bound = False,
                 fr_hits = sort_key (\<lambda>h. (- total_key (score h), hit_start h)) hs\<rparr>) ` hit_path ` set hits"
proof -
  let ?fs = "map snd (foldl (group_step add) [] hits)"
  have eq: "group_hits_by_file add hits None = sort_key group_key (map sort_file_hits ?fs)"
    by (simp add: group_hits_by_file_def truncate_to_def)
  have "map fr_path (map sort_file_hits ?fs) = map fr_path ?fs" by (simp add: sort_file_hits_def)
  then have "distinct (map fr_path (map sort_file_hits ?fs))" using grouped_files by metis
  then have "distinct (map fr_path (sort_key group_key (map sort_file_hits ?fs)))"
    by (metis mset_map mset_eq_imp_distinct_iff mset_sort)
  moreover have "set (sort_key group_key (map sort_file_hits ?fs)) =
      (\<lambda>p. sort_file_hits (group_entry add p (filter (\<lambda>h. hit_path h = p) hits))) ` hit_path ` set hits"
  proof -
    have "set (sort_key group_key (map sort_file_hits ?fs)) = sort_file_hits ` set ?fs" by (simp only: set_sort set_map)
    also have "\<dots> = sort_file_hits ` (\<lambda>p. group_entry add p (filter (\<lambda>h. hit_path h = p) hits)) ` hit_path ` set hits"
      using grouped_files [of add hits] by simp
    finally show ?thesis by (simp only: image_image)
  qed
  ultimately show ?thesis unfolding eq
    by (simp add: group_hits_by_file_def truncate_to_def sort_file_hits_def group_entry_def Let_def)
qed



end
