(* ===== verification/Mode_Coordinator.thy ===== *)
theory Mode_Coordinator
  imports Prelude "HOL-Library.Word" "HOL-Library.Multiset"
begin

text \<open>
  The coordinator of workspace leases in the daemon (\<^verbatim>\<open>WorkspaceModeCoordinator\<close> of \<^verbatim>\<open>src/src/daemon.rs\<close>).
  Searches hold shared leases that agree on one mode (whether ignored files are part of the index), a request
  for the other mode reserves the next turn, and index runs hold the workspace exclusively. The mutex makes one
  pass through each loop atomic, so the program is a transition system of threads that ask, sleep on the
  condition variable, are notified, time out, are cancelled, and drop their leases.

  The theorems show that leases never conflict, that no counter leaves its range, that no thread sleeps while it
  could go on, and that the attempt without waiting grants exactly what the first pass of the loop would grant.
\<close>

section \<open>The state and one pass of each loop\<close>

record WorkspaceModeCoordinatorState =
  active_mode :: "bool option"
  active_leases :: nat
  next_mode :: "bool option"
  next_mode_generation :: "64 word"
  next_mode_waiters :: nat
  exclusive_active :: bool
  exclusive_waiters :: nat

definition coordinator_default :: WorkspaceModeCoordinatorState where
  "coordinator_default = \<lparr>active_mode = None, active_leases = 0, next_mode = None, next_mode_generation = 0,
     next_mode_waiters = 0, exclusive_active = False, exclusive_waiters = 0\<rparr>"

text \<open>What a pass does: it returns a lease, returns without one (and may notify the others), or goes to sleep
  with the generation of its reservation.\<close>

datatype shared_result =
  SharedGranted WorkspaceModeCoordinatorState
| SharedAbandoned WorkspaceModeCoordinatorState bool
| SharedSleeps WorkspaceModeCoordinatorState "64 word option"

text \<open>The two conditions under which a lease is granted.\<close>

definition opens_mode :: "bool \<Rightarrow> WorkspaceModeCoordinatorState \<Rightarrow> bool" where
  "opens_mode requested_mode st \<longleftrightarrow>
     \<not> exclusive_active st \<and> exclusive_waiters st = 0 \<and> active_leases st = 0
     \<and> (case next_mode st of None \<Rightarrow> True | Some nxt \<Rightarrow> nxt = requested_mode)"

definition joins_mode :: "bool \<Rightarrow> WorkspaceModeCoordinatorState \<Rightarrow> bool" where
  "joins_mode requested_mode st \<longleftrightarrow>
     \<not> exclusive_active st \<and> exclusive_waiters st = 0 \<and> active_mode st = Some requested_mode \<and> next_mode st = None"

definition open_mode :: "bool \<Rightarrow> WorkspaceModeCoordinatorState \<Rightarrow> WorkspaceModeCoordinatorState" where
  "open_mode requested_mode st =
     st\<lparr>active_mode := Some requested_mode, active_leases := 1, next_mode := None, next_mode_waiters := 0\<rparr>"

text \<open>The cancelled thread gives up its reservation; \<open>nat\<close> subtraction saturates, as in the code.\<close>

definition abandon_reservation ::
    "bool \<Rightarrow> 64 word option \<Rightarrow> WorkspaceModeCoordinatorState \<Rightarrow> WorkspaceModeCoordinatorState \<times> bool" where
  "abandon_reservation requested_mode reserved st =
     (if next_mode st = Some requested_mode \<and> reserved = Some (next_mode_generation st) then
        (let st1 = st\<lparr>next_mode_waiters := next_mode_waiters st - 1\<rparr>
         in (if next_mode_waiters st1 = 0 then st1\<lparr>next_mode := None\<rparr> else st1, True))
      else (st, False))"

definition reserve_next_mode ::
    "bool \<Rightarrow> 64 word option \<Rightarrow> WorkspaceModeCoordinatorState \<Rightarrow> WorkspaceModeCoordinatorState \<times> 64 word option" where
  "reserve_next_mode requested_mode reserved st =
     (if \<not> exclusive_active st \<and> exclusive_waiters st = 0 \<and> active_mode st \<noteq> Some requested_mode then
        (if next_mode st = None then
           (st\<lparr>next_mode := Some requested_mode, next_mode_generation := next_mode_generation st + 1,
               next_mode_waiters := 1\<rparr>, Some (next_mode_generation st + 1))
         else if next_mode st = Some requested_mode \<and> reserved \<noteq> Some (next_mode_generation st) then
           (st\<lparr>next_mode_waiters := next_mode_waiters st + 1\<rparr>, Some (next_mode_generation st))
         else (st, reserved))
      else (st, reserved))"

text \<open>\<open>cancelled\<close> is what the thread reads from its cancellation flag.\<close>

definition shared_pass ::
    "bool \<Rightarrow> bool \<Rightarrow> 64 word option \<Rightarrow> WorkspaceModeCoordinatorState \<Rightarrow> shared_result" where
  "shared_pass requested_mode cancelled reserved st =
     (if cancelled then
        (case abandon_reservation requested_mode reserved st of (st', notify) \<Rightarrow> SharedAbandoned st' notify)
      else if opens_mode requested_mode st then SharedGranted (open_mode requested_mode st)
      else if joins_mode requested_mode st then SharedGranted (st\<lparr>active_leases := active_leases st + 1\<rparr>)
      else case reserve_next_mode requested_mode reserved st of (st', reserved') \<Rightarrow> SharedSleeps st' reserved')"

definition try_acquire_shared ::
    "bool \<Rightarrow> WorkspaceModeCoordinatorState \<Rightarrow> WorkspaceModeCoordinatorState option" where
  "try_acquire_shared requested_mode st =
     (if exclusive_active st \<or> 0 < exclusive_waiters st then None
      else if active_leases st = 0 \<and> (case next_mode st of None \<Rightarrow> True | Some nxt \<Rightarrow> nxt = requested_mode) then
        Some (st\<lparr>active_mode := Some requested_mode, active_leases := 1, next_mode := None, next_mode_waiters := 0\<rparr>)
      else if active_mode st = Some requested_mode \<and> next_mode st = None then
        Some (st\<lparr>active_leases := active_leases st + 1\<rparr>)
      else None)"

text \<open>The count of exclusive waiters is decremented with a check for its range: \<open>None\<close> is the panic.\<close>

datatype exclusive_result =
  ExclusiveGranted WorkspaceModeCoordinatorState
| ExclusiveAbandoned WorkspaceModeCoordinatorState bool
| ExclusiveSleeps WorkspaceModeCoordinatorState

definition leave_exclusive_queue :: "WorkspaceModeCoordinatorState \<Rightarrow> WorkspaceModeCoordinatorState option" where
  "leave_exclusive_queue st =
     (if exclusive_waiters st = 0 then None else Some (st\<lparr>exclusive_waiters := exclusive_waiters st - 1\<rparr>))"

definition exclusive_pass :: "bool \<Rightarrow> WorkspaceModeCoordinatorState \<Rightarrow> exclusive_result option" where
  "exclusive_pass cancelled st =
     (if cancelled then map_option (\<lambda>st'. ExclusiveAbandoned st' True) (leave_exclusive_queue st)
      else if exclusive_active st \<or> 0 < active_leases st then Some (ExclusiveSleeps st)
      else map_option (\<lambda>st'. ExclusiveGranted (st'\<lparr>exclusive_active := True\<rparr>)) (leave_exclusive_queue st))"

definition acquire_exclusive :: "bool \<Rightarrow> bool \<Rightarrow> WorkspaceModeCoordinatorState \<Rightarrow> exclusive_result option" where
  "acquire_exclusive cancelled cancelled_then st =
     (if cancelled then Some (ExclusiveAbandoned st False)
      else exclusive_pass cancelled_then (st\<lparr>exclusive_waiters := exclusive_waiters st + 1\<rparr>))"

text \<open>A lease; a shared one remembers here the mode it was granted for.\<close>

datatype WorkspaceModeLease = SharedLease bool | ExclusiveLease

definition drop_lease :: "WorkspaceModeLease \<Rightarrow> WorkspaceModeCoordinatorState \<Rightarrow> WorkspaceModeCoordinatorState \<times> bool" where
  "drop_lease lease st =
     (if lease = ExclusiveLease then (st\<lparr>exclusive_active := False\<rparr>, True)
      else (let st' = st\<lparr>active_leases := active_leases st - 1\<rparr> in (st', active_leases st' = 0)))"

section \<open>Threads that share a coordinator\<close>

record shared_wait =
  wait_mode :: bool
  wait_reserved :: "64 word option"
  wait_cancellable :: bool

text \<open>The live leases; the threads that wait for a shared lease, asleep or notified; and those that wait for the
  exclusive lease, by whether they can be cancelled.\<close>

record mode_system =
  coordinator :: WorkspaceModeCoordinatorState
  live_leases :: "WorkspaceModeLease multiset"
  shared_asleep :: "shared_wait multiset"
  shared_woken :: "shared_wait multiset"
  exclusive_asleep :: "bool multiset"
  exclusive_woken :: "bool multiset"

definition mode_start :: mode_system where
  "mode_start = \<lparr>coordinator = coordinator_default, live_leases = {#}, shared_asleep = {#}, shared_woken = {#},
     exclusive_asleep = {#}, exclusive_woken = {#}\<rparr>"

definition mode_notify :: "bool \<Rightarrow> mode_system \<Rightarrow> mode_system" where
  "mode_notify notify s =
     (if notify then s\<lparr>shared_asleep := {#}, shared_woken := shared_asleep s + shared_woken s,
                      exclusive_asleep := {#}, exclusive_woken := exclusive_asleep s + exclusive_woken s\<rparr>
      else s)"

definition run_shared :: "bool \<Rightarrow> shared_wait \<Rightarrow> mode_system \<Rightarrow> mode_system" where
  "run_shared cancelled w s =
     (case shared_pass (wait_mode w) cancelled (wait_reserved w) (coordinator s) of
        SharedGranted st \<Rightarrow> s\<lparr>coordinator := st, live_leases := add_mset (SharedLease (wait_mode w)) (live_leases s)\<rparr>
      | SharedAbandoned st notify \<Rightarrow> mode_notify notify (s\<lparr>coordinator := st\<rparr>)
      | SharedSleeps st reserved \<Rightarrow>
          s\<lparr>coordinator := st, shared_asleep := add_mset (w\<lparr>wait_reserved := reserved\<rparr>) (shared_asleep s)\<rparr>)"

definition run_try :: "bool \<Rightarrow> mode_system \<Rightarrow> mode_system" where
  "run_try m s =
     (case try_acquire_shared m (coordinator s) of
        None \<Rightarrow> s
      | Some st \<Rightarrow> s\<lparr>coordinator := st, live_leases := add_mset (SharedLease m) (live_leases s)\<rparr>)"

definition finish_exclusive :: "bool \<Rightarrow> exclusive_result option \<Rightarrow> mode_system \<Rightarrow> mode_system option" where
  "finish_exclusive cancellable result s =
     map_option (\<lambda>r. case r of
        ExclusiveGranted st \<Rightarrow> s\<lparr>coordinator := st, live_leases := add_mset ExclusiveLease (live_leases s)\<rparr>
      | ExclusiveAbandoned st notify \<Rightarrow> mode_notify notify (s\<lparr>coordinator := st\<rparr>)
      | ExclusiveSleeps st \<Rightarrow> s\<lparr>coordinator := st, exclusive_asleep := add_mset cancellable (exclusive_asleep s)\<rparr>) result"

definition run_drop :: "WorkspaceModeLease \<Rightarrow> mode_system \<Rightarrow> mode_system" where
  "run_drop lease s =
     (case drop_lease lease (coordinator s) of
        (st, notify) \<Rightarrow> mode_notify notify (s\<lparr>coordinator := st, live_leases := live_leases s - {#lease#}\<rparr>))"

text \<open>The scheduler's choices. A sleeping thread may also run without a notification, because its timeout
  expired or for no reason; a thread reads a set cancellation flag only if it has one.\<close>

datatype mode_event =
  EnterShared bool bool bool
| RunShared shared_wait bool
| TimeoutShared shared_wait bool
| TryShared bool
| EnterExclusive bool bool bool
| RunExclusive bool bool
| TimeoutExclusive bool bool
| DropLease WorkspaceModeLease

fun mode_enabled :: "mode_system \<Rightarrow> mode_event \<Rightarrow> bool" where
  "mode_enabled s (EnterShared m cancellable cancelled) = (cancelled \<longrightarrow> cancellable)"
| "mode_enabled s (RunShared w cancelled) = (w \<in># shared_woken s \<and> (cancelled \<longrightarrow> wait_cancellable w))"
| "mode_enabled s (TimeoutShared w cancelled) = (w \<in># shared_asleep s \<and> (cancelled \<longrightarrow> wait_cancellable w))"
| "mode_enabled s (TryShared m) = True"
| "mode_enabled s (EnterExclusive cancellable cancelled cancelled_then) = (cancelled \<or> cancelled_then \<longrightarrow> cancellable)"
| "mode_enabled s (RunExclusive cancellable cancelled) = (cancellable \<in># exclusive_woken s \<and> (cancelled \<longrightarrow> cancellable))"
| "mode_enabled s (TimeoutExclusive cancellable cancelled) = (cancellable \<in># exclusive_asleep s \<and> (cancelled \<longrightarrow> cancellable))"
| "mode_enabled s (DropLease lease) = (lease \<in># live_leases s)"

fun mode_event_step :: "mode_event \<Rightarrow> mode_system \<Rightarrow> mode_system option" where
  "mode_event_step (EnterShared m cancellable cancelled) s =
     Some (run_shared cancelled \<lparr>wait_mode = m, wait_reserved = None, wait_cancellable = cancellable\<rparr> s)"
| "mode_event_step (RunShared w cancelled) s =
     Some (run_shared cancelled w (s\<lparr>shared_woken := shared_woken s - {#w#}\<rparr>))"
| "mode_event_step (TimeoutShared w cancelled) s =
     Some (run_shared cancelled w (s\<lparr>shared_asleep := shared_asleep s - {#w#}\<rparr>))"
| "mode_event_step (TryShared m) s = Some (run_try m s)"
| "mode_event_step (EnterExclusive cancellable cancelled cancelled_then) s =
     finish_exclusive cancellable (acquire_exclusive cancelled cancelled_then (coordinator s)) s"
| "mode_event_step (RunExclusive cancellable cancelled) s =
     finish_exclusive cancellable (exclusive_pass cancelled (coordinator s))
       (s\<lparr>exclusive_woken := exclusive_woken s - {#cancellable#}\<rparr>)"
| "mode_event_step (TimeoutExclusive cancellable cancelled) s =
     finish_exclusive cancellable (exclusive_pass cancelled (coordinator s))
       (s\<lparr>exclusive_asleep := exclusive_asleep s - {#cancellable#}\<rparr>)"
| "mode_event_step (DropLease lease) s = Some (run_drop lease s)"

inductive mode_step :: "mode_system \<Rightarrow> mode_system \<Rightarrow> bool" where
  mode_event: "mode_enabled s e \<Longrightarrow> mode_event_step e s = Some s' \<Longrightarrow> mode_step s s'"

inductive_cases mode_stepE: "mode_step s s'"

section \<open>The invariant\<close>

definition can_share :: "bool \<Rightarrow> WorkspaceModeCoordinatorState \<Rightarrow> bool" where
  "can_share m st \<longleftrightarrow> opens_mode m st \<or> joins_mode m st"

text \<open>The threads that hold the current reservation of the next mode.\<close>

definition holds_turn :: "WorkspaceModeCoordinatorState \<Rightarrow> shared_wait \<Rightarrow> bool" where
  "holds_turn st w \<longleftrightarrow> next_mode st = Some (wait_mode w) \<and> wait_reserved w = Some (next_mode_generation st)"

definition leases_ok :: "WorkspaceModeCoordinatorState \<Rightarrow> WorkspaceModeLease multiset \<Rightarrow> bool" where
  "leases_ok st leases \<longleftrightarrow>
     (if exclusive_active st then leases = {#ExclusiveLease#} \<and> active_leases st = 0
      else \<exists>n m. leases = replicate_mset n (SharedLease m) \<and> active_leases st = n
        \<and> (0 < n \<longrightarrow> active_mode st = Some m))"

definition turn_ok :: "WorkspaceModeCoordinatorState \<Rightarrow> shared_wait multiset \<Rightarrow> bool" where
  "turn_ok st waits \<longleftrightarrow>
     (next_mode st \<noteq> None \<longrightarrow>
        1 \<le> next_mode_waiters st \<and> next_mode_waiters st \<le> size (filter_mset (holds_turn st) waits))"

definition sleepers_ok :: "WorkspaceModeCoordinatorState \<Rightarrow> shared_wait multiset \<Rightarrow> bool multiset \<Rightarrow> bool" where
  "sleepers_ok st waits exclusives \<longleftrightarrow>
     (\<forall>w\<in>#waits. \<not> can_share (wait_mode w) st)
     \<and> (exclusives \<noteq> {#} \<longrightarrow> exclusive_active st \<or> 0 < active_leases st)"

text \<open>\<open>ws\<close> and \<open>n\<close> are the shared and exclusive waiters that are about to run.\<close>

definition mode_inv_with :: "shared_wait multiset \<Rightarrow> nat \<Rightarrow> mode_system \<Rightarrow> bool" where
  "mode_inv_with ws n s \<longleftrightarrow>
     leases_ok (coordinator s) (live_leases s)
     \<and> turn_ok (coordinator s) (ws + shared_asleep s + shared_woken s)
     \<and> exclusive_waiters (coordinator s) = n + size (exclusive_asleep s) + size (exclusive_woken s)
     \<and> sleepers_ok (coordinator s) (shared_asleep s) (exclusive_asleep s)"

definition mode_inv :: "mode_system \<Rightarrow> bool" where
  "mode_inv s \<longleftrightarrow> mode_inv_with {#} 0 s"

lemmas pass_defs = opens_mode_def joins_mode_def open_mode_def can_share_def

lemma leases_ok_same:
  "leases_ok st leases \<Longrightarrow> active_mode st' = active_mode st \<Longrightarrow> active_leases st' = active_leases st \<Longrightarrow>
   exclusive_active st' = exclusive_active st \<Longrightarrow> leases_ok st' leases"
  by (simp add: leases_ok_def)

lemma leases_ok_free: "leases_ok st leases \<Longrightarrow> \<not> exclusive_active st \<Longrightarrow> active_leases st = 0 \<Longrightarrow> leases = {#}"
  by (auto simp: leases_ok_def)

lemma leases_ok_shared:
  assumes "leases_ok st leases" and "\<not> exclusive_active st" and "0 < active_leases st" and "active_mode st = Some m"
  shows "leases = replicate_mset (active_leases st) (SharedLease m)"
  using assms by (auto simp: leases_ok_def)

lemma open_mode_leases:
  "leases_ok st leases \<Longrightarrow> opens_mode m st \<Longrightarrow> leases_ok (open_mode m st) (add_mset (SharedLease m) leases)"
  using leases_ok_free [of st leases]
  by (auto simp: pass_defs leases_ok_def intro!: exI [of _ 1] exI [of _ m])

lemma join_mode_leases:
  assumes "leases_ok st leases" and "joins_mode m st"
  shows "leases_ok (st\<lparr>active_leases := active_leases st + 1\<rparr>) (add_mset (SharedLease m) leases)"
proof (cases "active_leases st = 0")
  case True
  then show ?thesis using assms leases_ok_free [of st leases]
    by (auto simp: pass_defs leases_ok_def intro!: exI [of _ 1] exI [of _ m])
next
  case False
  then show ?thesis using assms leases_ok_shared [of st leases m]
    by (auto simp: pass_defs leases_ok_def intro!: exI [of _ "Suc (active_leases st)"] exI [of _ m])
qed

lemma open_mode_sleepers: "sleepers_ok st ws es \<Longrightarrow> opens_mode m st \<Longrightarrow> sleepers_ok (open_mode m st) ws es"
  by (auto simp: sleepers_ok_def pass_defs split: option.splits)

lemma join_mode_sleepers:
  "sleepers_ok st ws es \<Longrightarrow> sleepers_ok (st\<lparr>active_leases := active_leases st + 1\<rparr>) ws es"
  by (auto simp: sleepers_ok_def pass_defs)

lemma turn_ok_open: "turn_ok (open_mode m st) ws"
  by (simp add: turn_ok_def open_mode_def)

lemma turn_ok_mono:
  "turn_ok st ws \<Longrightarrow> next_mode st' = next_mode st \<Longrightarrow> next_mode_generation st' = next_mode_generation st \<Longrightarrow>
   next_mode_waiters st' = next_mode_waiters st \<Longrightarrow> ws \<subseteq># vs \<Longrightarrow> turn_ok st' vs"
proof -
  assume same: "turn_ok st ws" "next_mode st' = next_mode st" "next_mode_generation st' = next_mode_generation st"
    "next_mode_waiters st' = next_mode_waiters st" and sub: "ws \<subseteq># vs"
  have "holds_turn st' = holds_turn st" using same by (auto simp: holds_turn_def)
  moreover have "size (filter_mset (holds_turn st) ws) \<le> size (filter_mset (holds_turn st) vs)"
    by (rule size_mset_mono [OF multiset_filter_mono [OF sub]])
  ultimately show ?thesis using same by (auto simp: turn_ok_def)
qed

lemma turn_ok_none: "next_mode st = None \<Longrightarrow> turn_ok st ws"
  by (simp add: turn_ok_def)

lemma turn_holder:
  assumes "turn_ok st ws" and "next_mode st \<noteq> None"
  shows "\<exists>w\<in>#ws. holds_turn st w"
proof -
  have "0 < size (filter_mset (holds_turn st) ws)" using assms by (auto simp: turn_ok_def)
  then obtain w where "w \<in># filter_mset (holds_turn st) ws" by (metis nonempty_has_size multiset_nonemptyE)
  then show ?thesis by auto
qed

text \<open>Every other field of the state is left alone by reservations.\<close>

lemma reserve_frame:
  "reserve_next_mode m reserved st = (st', reserved') \<Longrightarrow>
     active_mode st' = active_mode st \<and> active_leases st' = active_leases st \<and> exclusive_active st' = exclusive_active st
     \<and> exclusive_waiters st' = exclusive_waiters st"
  by (auto simp: reserve_next_mode_def split: if_splits)

lemma abandon_frame:
  "abandon_reservation m reserved st = (st', notify) \<Longrightarrow>
     active_mode st' = active_mode st \<and> active_leases st' = active_leases st \<and> exclusive_active st' = exclusive_active st
     \<and> exclusive_waiters st' = exclusive_waiters st \<and> (\<not> notify \<longrightarrow> st' = st)"
  by (auto simp: abandon_reservation_def Let_def split: if_splits)

lemma reserve_can_share: "reserve_next_mode m reserved st = (st', reserved') \<Longrightarrow> can_share k st' \<Longrightarrow> can_share k st"
  by (auto simp: reserve_next_mode_def pass_defs split: if_splits)

lemma reserve_turn:
  assumes "turn_ok st (add_mset w ws)" and "reserve_next_mode (wait_mode w) (wait_reserved w) st = (st', r)"
  shows "turn_ok st' (add_mset (w\<lparr>wait_reserved := r\<rparr>) ws)"
proof -
  let ?asks = "\<not> exclusive_active st \<and> exclusive_waiters st = 0 \<and> active_mode st \<noteq> Some (wait_mode w)"
  let ?late = "next_mode st = Some (wait_mode w) \<and> wait_reserved w \<noteq> Some (next_mode_generation st)"
  show ?thesis
  proof (cases "?asks \<and> next_mode st = None")
    case True
    then show ?thesis using assms(2) by (auto simp: reserve_next_mode_def turn_ok_def holds_turn_def)
  next
    case old: False
    show ?thesis
    proof (cases "?asks \<and> ?late")
      case True
      then have st': "st' = st\<lparr>next_mode_waiters := next_mode_waiters st + 1\<rparr>" "r = Some (next_mode_generation st)"
        using assms(2) by (simp_all add: reserve_next_mode_def)
      then have "holds_turn st' = holds_turn st" by (auto simp: holds_turn_def)
      then show ?thesis using assms(1) True st' by (simp add: turn_ok_def holds_turn_def [of st])
    next
      case False
      then have "reserve_next_mode (wait_mode w) (wait_reserved w) st = (st, wait_reserved w)"
        using old unfolding reserve_next_mode_def by meson
      then show ?thesis using assms by simp
    qed
  qed
qed

lemma abandon_turn:
  assumes "turn_ok st (add_mset w ws)" and "abandon_reservation (wait_mode w) (wait_reserved w) st = (st', notify)"
  shows "turn_ok st' ws"
proof (cases "holds_turn st w")
  case True
  define waiters where "waiters = next_mode_waiters st - 1"
  have le: "waiters \<le> size (filter_mset (holds_turn st) ws)"
    using assms(1) True unfolding waiters_def turn_ok_def by (auto simp: holds_turn_def [of st w])
  have st': "st' = (if waiters = 0 then st\<lparr>next_mode_waiters := waiters, next_mode := None\<rparr> else st\<lparr>next_mode_waiters := waiters\<rparr>)"
    using assms(2) True by (auto simp: abandon_reservation_def holds_turn_def Let_def waiters_def split: if_splits)
  have "holds_turn (st\<lparr>next_mode_waiters := waiters\<rparr>) = holds_turn st" by (auto simp: holds_turn_def)
  then show ?thesis using le by (auto simp: st' turn_ok_def)
next
  case False
  then have "st' = st" using assms(2) by (auto simp: abandon_reservation_def holds_turn_def split: if_splits)
  then show ?thesis using assms(1) False by (simp add: turn_ok_def)
qed

lemma mode_notify_inv:
  assumes "leases_ok (coordinator s) (live_leases s)" and "turn_ok (coordinator s) (ws + shared_asleep s + shared_woken s)"
    and "exclusive_waiters (coordinator s) = n + size (exclusive_asleep s) + size (exclusive_woken s)"
    and "\<not> notify \<Longrightarrow> sleepers_ok (coordinator s) (shared_asleep s) (exclusive_asleep s)"
  shows "mode_inv_with ws n (mode_notify notify s)"
  using assms by (cases notify) (simp_all add: mode_inv_with_def mode_notify_def sleepers_ok_def ac_simps)

lemma run_shared_inv:
  assumes inv: "mode_inv_with {#w#} 0 s"
  shows "mode_inv (run_shared cancelled w s)"
proof -
  let ?st = "coordinator s"
  let ?rest = "shared_asleep s + shared_woken s"
  have parts: "leases_ok ?st (live_leases s)" "turn_ok ?st (add_mset w ?rest)"
      "exclusive_waiters ?st = size (exclusive_asleep s) + size (exclusive_woken s)"
      "sleepers_ok ?st (shared_asleep s) (exclusive_asleep s)"
    using inv by (simp_all add: mode_inv_with_def)
  consider (cancelled) cancelled
    | (opens) "\<not> cancelled" "opens_mode (wait_mode w) ?st"
    | (joins) "\<not> cancelled" "\<not> opens_mode (wait_mode w) ?st" "joins_mode (wait_mode w) ?st"
    | (sleeps) "\<not> cancelled" "\<not> can_share (wait_mode w) ?st"
    by (auto simp: can_share_def)
  then show ?thesis
  proof cases
    case cancelled
    obtain st' notify where ab: "abandon_reservation (wait_mode w) (wait_reserved w) ?st = (st', notify)" by fastforce
    have "mode_inv_with {#} 0 (mode_notify notify (s\<lparr>coordinator := st'\<rparr>))"
      using parts abandon_turn [OF parts(2) ab] abandon_frame [OF ab] leases_ok_same [OF parts(1)]
      by (intro mode_notify_inv) auto
    then show ?thesis using cancelled ab by (simp add: run_shared_def shared_pass_def mode_inv_def)
  next
    case opens
    then have "run_shared cancelled w s = s\<lparr>coordinator := open_mode (wait_mode w) ?st,
        live_leases := add_mset (SharedLease (wait_mode w)) (live_leases s)\<rparr>"
      by (simp add: run_shared_def shared_pass_def)
    moreover have "exclusive_waiters (open_mode (wait_mode w) ?st) = exclusive_waiters ?st" by (simp add: open_mode_def)
    ultimately show ?thesis
      using parts(3) open_mode_leases [OF parts(1) opens(2)] open_mode_sleepers [OF parts(4) opens(2)] turn_ok_open
      by (simp add: mode_inv_def mode_inv_with_def)
  next
    case joins
    then have "next_mode ?st = None" by (simp add: joins_mode_def)
    then show ?thesis
      using joins parts(3) join_mode_leases [OF parts(1) joins(3)] join_mode_sleepers [OF parts(4)]
      by (simp add: run_shared_def shared_pass_def mode_inv_def mode_inv_with_def turn_ok_none)
  next
    case sleeps
    obtain st' r where rs: "reserve_next_mode (wait_mode w) (wait_reserved w) ?st = (st', r)" by fastforce
    have "sleepers_ok st' (add_mset (w\<lparr>wait_reserved := r\<rparr>) (shared_asleep s)) (exclusive_asleep s)"
      using parts(4) sleeps(2) reserve_can_share [OF rs] reserve_frame [OF rs] by (auto simp: sleepers_ok_def)
    then show ?thesis
      using sleeps rs parts(3) reserve_turn [OF parts(2) rs] reserve_frame [OF rs] leases_ok_same [OF parts(1)]
      by (simp add: run_shared_def shared_pass_def can_share_def mode_inv_def mode_inv_with_def)
  qed
qed

text \<open>The attempt without waiting is the first pass of the loop, when that pass grants a lease.\<close>

lemma try_pass:
  "try_acquire_shared m st = (case shared_pass m False reserved st of SharedGranted st' \<Rightarrow> Some st' | _ \<Rightarrow> None)"
proof -
  have "shared_pass m False reserved st = SharedGranted st' \<longleftrightarrow> try_acquire_shared m st = Some st'" for st'
    by (auto simp: shared_pass_def try_acquire_shared_def pass_defs split: option.splits prod.splits if_splits)
  then show ?thesis by (cases "try_acquire_shared m st"; cases "shared_pass m False reserved st") (metis shared_result.case option.distinct(1) shared_result.distinct(1,3))+
qed

lemma run_try_inv:
  assumes inv: "mode_inv s"
  shows "mode_inv (run_try m s)"
proof (cases "try_acquire_shared m (coordinator s)")
  case (Some st)
  let ?w = "\<lparr>wait_mode = m, wait_reserved = None, wait_cancellable = False\<rparr>"
  have "mode_inv_with {#?w#} 0 s"
    using inv turn_ok_mono [of "coordinator s" "shared_asleep s + shared_woken s" "coordinator s"]
    by (simp add: mode_inv_def mode_inv_with_def)
  then have "mode_inv (run_shared False ?w s)" by (rule run_shared_inv)
  moreover have "run_try m s = run_shared False ?w s"
    using Some by (auto simp: run_try_def run_shared_def try_pass [of m _ None] split: shared_result.splits)
  ultimately show ?thesis by simp
qed (simp add: run_try_def inv)

lemma sleepers_ok_waiters:
  "sleepers_ok st ws es \<Longrightarrow> active_mode st' = active_mode st \<Longrightarrow> active_leases st' = active_leases st \<Longrightarrow>
   next_mode st' = next_mode st \<Longrightarrow> exclusive_active st' = exclusive_active st \<Longrightarrow>
   exclusive_waiters st \<le> exclusive_waiters st' \<Longrightarrow> sleepers_ok st' ws es"
  by (auto simp: sleepers_ok_def pass_defs)

lemma exclusive_pass_inv:
  assumes inv: "mode_inv_with {#} 1 s"
  shows "\<exists>s'. finish_exclusive c (exclusive_pass cancelled (coordinator s)) s = Some s' \<and> mode_inv s'"
proof -
  let ?st = "coordinator s"
  let ?left = "?st\<lparr>exclusive_waiters := exclusive_waiters ?st - 1\<rparr>"
  have parts: "leases_ok ?st (live_leases s)" "turn_ok ?st (shared_asleep s + shared_woken s)"
      "exclusive_waiters ?st = 1 + size (exclusive_asleep s) + size (exclusive_woken s)"
      "sleepers_ok ?st (shared_asleep s) (exclusive_asleep s)"
    using inv by (simp_all add: mode_inv_with_def)
  have leaves: "leave_exclusive_queue ?st = Some ?left" using parts(3) by (simp add: leave_exclusive_queue_def)
  have left: "leases_ok ?left (live_leases s)" "turn_ok ?left (shared_asleep s + shared_woken s)"
    using leases_ok_same [OF parts(1)] turn_ok_mono [OF parts(2)] by simp_all
  show ?thesis
  proof (cases cancelled)
    case True
    have "mode_inv_with {#} 0 (mode_notify True (s\<lparr>coordinator := ?left\<rparr>))"
      using left parts(3) by (intro mode_notify_inv) simp_all
    then show ?thesis using True leaves by (simp add: finish_exclusive_def exclusive_pass_def mode_inv_def)
  next
    case runs: False
    show ?thesis
    proof (cases "exclusive_active ?st \<or> 0 < active_leases ?st")
      case True
      then show ?thesis using runs parts
        by (auto simp: finish_exclusive_def exclusive_pass_def mode_inv_def mode_inv_with_def sleepers_ok_def)
    next
      case False
      have "sleepers_ok (?left\<lparr>exclusive_active := True\<rparr>) (shared_asleep s) (exclusive_asleep s)"
        by (simp add: sleepers_ok_def pass_defs)
      moreover have "turn_ok (?left\<lparr>exclusive_active := True\<rparr>) (shared_asleep s + shared_woken s)"
        using turn_ok_mono [OF parts(2)] by simp
      moreover have "leases_ok (?left\<lparr>exclusive_active := True\<rparr>) (add_mset ExclusiveLease (live_leases s))"
        using False leases_ok_free [OF parts(1)] by (simp add: leases_ok_def)
      ultimately show ?thesis using runs False leaves parts(3)
        by (simp add: finish_exclusive_def exclusive_pass_def mode_inv_def mode_inv_with_def)
    qed
  qed
qed

lemma finish_exclusive_coordinator: "finish_exclusive c result (s\<lparr>coordinator := st\<rparr>) = finish_exclusive c result s"
  by (cases result; cases "the result") (simp_all add: finish_exclusive_def mode_notify_def)

lemma acquire_exclusive_inv:
  assumes inv: "mode_inv s"
  shows "\<exists>s'. finish_exclusive c (acquire_exclusive cancelled cancelled_then (coordinator s)) s = Some s' \<and> mode_inv s'"
proof (cases cancelled)
  case True
  then show ?thesis using inv by (simp add: acquire_exclusive_def finish_exclusive_def mode_notify_def)
next
  case False
  let ?s = "s\<lparr>coordinator := (coordinator s)\<lparr>exclusive_waiters := exclusive_waiters (coordinator s) + 1\<rparr>\<rparr>"
  have "mode_inv_with {#} 1 ?s"
    using inv leases_ok_same [of "coordinator s"] turn_ok_mono [of "coordinator s" "shared_asleep s + shared_woken s"]
      sleepers_ok_waiters [of "coordinator s"]
    unfolding mode_inv_def mode_inv_with_def by auto
  from exclusive_pass_inv [OF this] show ?thesis
    using False by (simp add: acquire_exclusive_def finish_exclusive_coordinator)
qed

lemma run_drop_inv:
  assumes inv: "mode_inv s" and lease: "lease \<in># live_leases s"
  shows "mode_inv (run_drop lease s)"
proof -
  let ?st = "coordinator s"
  obtain st' notify where drop: "drop_lease lease ?st = (st', notify)" by fastforce
  have st': "leases_ok st' (live_leases s - {#lease#})"
  proof (cases "exclusive_active ?st")
    case True
    then have "lease = ExclusiveLease" "live_leases s = {#ExclusiveLease#}" "active_leases ?st = 0"
      using inv lease by (auto simp: mode_inv_def mode_inv_with_def leases_ok_def)
    then show ?thesis using drop by (auto simp: drop_lease_def leases_ok_def)
  next
    case False
    then obtain n m where n: "live_leases s = replicate_mset n (SharedLease m)" "active_leases ?st = n"
        "0 < n \<longrightarrow> active_mode ?st = Some m"
      using inv by (auto simp: mode_inv_def mode_inv_with_def leases_ok_def)
    then obtain k where "n = Suc k" "lease = SharedLease m" using lease by (cases n) (auto split: if_splits)
    then show ?thesis using drop n False by (auto simp: drop_lease_def leases_ok_def Let_def)
  qed
  have frame: "next_mode st' = next_mode ?st" "next_mode_generation st' = next_mode_generation ?st"
      "next_mode_waiters st' = next_mode_waiters ?st" "exclusive_waiters st' = exclusive_waiters ?st"
    using drop by (auto simp: drop_lease_def Let_def split: if_splits)
  have "sleepers_ok st' (shared_asleep s) (exclusive_asleep s)" if "\<not> notify"
    using that inv drop by (auto simp: mode_inv_def mode_inv_with_def drop_lease_def Let_def sleepers_ok_def pass_defs split: if_splits)
  then have "mode_inv_with {#} 0 (mode_notify notify (s\<lparr>coordinator := st', live_leases := live_leases s - {#lease#}\<rparr>))"
    using st' frame inv turn_ok_mono [OF _ frame(1-3)]
    by (intro mode_notify_inv) (auto simp: mode_inv_def mode_inv_with_def)
  then show ?thesis using drop by (simp add: run_drop_def mode_inv_def)
qed

lemma mode_event_inv:
  assumes inv: "mode_inv s" and en: "mode_enabled s e"
  shows "\<exists>s'. mode_event_step e s = Some s' \<and> mode_inv s'"
proof -
  have asks: "mode_inv_with {#w#} 0 s" for w
    using inv turn_ok_mono [of "coordinator s" "shared_asleep s + shared_woken s" "coordinator s"]
    by (simp add: mode_inv_def mode_inv_with_def)
  have woken: "mode_inv_with {#w#} 0 (s\<lparr>shared_woken := shared_woken s - {#w#}\<rparr>)" if "w \<in># shared_woken s" for w
    using inv that by (simp add: mode_inv_def mode_inv_with_def)
  have asleep: "mode_inv_with {#w#} 0 (s\<lparr>shared_asleep := shared_asleep s - {#w#}\<rparr>)" if "w \<in># shared_asleep s" for w
    using inv that by (auto simp: mode_inv_def mode_inv_with_def sleepers_ok_def dest: in_diffD)
  have ewoken: "mode_inv_with {#} 1 (s\<lparr>exclusive_woken := exclusive_woken s - {#c#}\<rparr>)" if "c \<in># exclusive_woken s" for c
    using inv that by (auto simp: mode_inv_def mode_inv_with_def size_Diff_singleton dest!: multi_member_split)
  have easleep: "mode_inv_with {#} 1 (s\<lparr>exclusive_asleep := exclusive_asleep s - {#c#}\<rparr>)" if "c \<in># exclusive_asleep s" for c
    using inv that by (auto simp: mode_inv_def mode_inv_with_def sleepers_ok_def dest!: multi_member_split)
  show ?thesis
    using en asks woken asleep exclusive_pass_inv [OF ewoken] exclusive_pass_inv [OF easleep]
      acquire_exclusive_inv [OF inv] run_shared_inv run_try_inv [OF inv] run_drop_inv [OF inv]
    by (cases e) simp_all
qed

lemma mode_step_inv: "mode_step s s' \<Longrightarrow> mode_inv s \<Longrightarrow> mode_inv s'"
  using mode_event_inv by (fastforce elim: mode_stepE)

lemma mode_start_inv: "mode_inv mode_start"
  by (simp add: mode_inv_def mode_inv_with_def mode_start_def coordinator_default_def leases_ok_def turn_ok_def sleepers_ok_def)

interpretation mode_coordinator: component "\<lambda>s. s = mode_start" mode_step mode_inv
  by unfold_locales (auto intro: mode_start_inv mode_step_inv)

abbreviation mode_reachable :: "mode_system \<Rightarrow> bool" where
  "mode_reachable \<equiv> reachable (\<lambda>s. s = mode_start) mode_step"

text \<open>Without leases and notified threads nobody sleeps.\<close>

lemma quiet_nobody_asleep:
  assumes inv: "mode_inv s" and none: "live_leases s = {#}" and woken: "shared_woken s = {#}" "exclusive_woken s = {#}"
  shows "shared_asleep s = {#} \<and> exclusive_asleep s = {#} \<and> (\<forall>m. can_share m (coordinator s))"
proof -
  let ?st = "coordinator s"
  have asleep: "\<forall>w\<in>#shared_asleep s. \<not> can_share (wait_mode w) ?st"
    using inv by (simp add: mode_inv_def mode_inv_with_def sleepers_ok_def)
  have free: "\<not> exclusive_active ?st" "active_leases ?st = 0"
    using inv none by (auto simp: mode_inv_def mode_inv_with_def leases_ok_def split: if_splits)
  then have no_exclusive: "exclusive_asleep s = {#}" "exclusive_waiters ?st = 0"
    using inv woken(2) by (auto simp: mode_inv_def mode_inv_with_def sleepers_ok_def)
  have "next_mode ?st = None"
  proof (rule ccontr)
    assume "next_mode ?st \<noteq> None"
    then obtain w where "w \<in># shared_asleep s" "holds_turn ?st w"
      using inv woken(1) turn_holder [of ?st "shared_asleep s"] by (auto simp: mode_inv_def mode_inv_with_def)
    then have "can_share (wait_mode w) ?st" using free no_exclusive(2) by (simp add: pass_defs holds_turn_def)
    then show False using asleep \<open>w \<in># shared_asleep s\<close> by blast
  qed
  then have all: "can_share m ?st" for m using free no_exclusive(2) by (simp add: pass_defs)
  then have "w \<notin># shared_asleep s" for w using asleep by blast
  then show ?thesis using all no_exclusive(1) by (auto intro: multiset_eqI simp: not_in_iff)
qed

section \<open>Properties\<close>

text \<open>Claim C10. Whatever the threads do, live leases never conflict: an exclusive lease is the only one, and shared
  leases are all for the active mode, as many as the coordinator counts.\<close>

theorem mode_leases_compatible:
  assumes "mode_reachable s"
  shows "(ExclusiveLease \<in># live_leases s \<longrightarrow> live_leases s = {#ExclusiveLease#} \<and> exclusive_active (coordinator s))
     \<and> (SharedLease m \<in># live_leases s \<longrightarrow>
          active_mode (coordinator s) = Some m \<and> live_leases s = replicate_mset (active_leases (coordinator s)) (SharedLease m))"
proof -
  have "leases_ok (coordinator s) (live_leases s)"
    using mode_coordinator.reachable_invar [OF assms] by (simp add: mode_inv_def mode_inv_with_def)
  then show ?thesis by (auto simp: leases_ok_def split: if_splits)
qed


text \<open>Claim C32. The state of the coordinator is well-formed after every operation, and no operation fails: the
  count of exclusive waiters is the number of threads that wait, so that it never drops below zero, a reserved next
  mode always has a thread that waits for it, and every event that can occur leads to a next state.\<close>

theorem mode_coordinator_well_formed:
  assumes "mode_reachable s" and "mode_enabled s e"
  shows "(\<exists>s'. mode_event_step e s = Some s' \<and> mode_reachable s')
     \<and> exclusive_waiters (coordinator s) = size (exclusive_asleep s) + size (exclusive_woken s)
     \<and> (\<forall>m. next_mode (coordinator s) = Some m \<longrightarrow> (\<exists>w \<in># shared_asleep s + shared_woken s. wait_mode w = m))"
proof -
  have inv: "mode_inv s" using mode_coordinator.reachable_invar [OF assms(1)] .
  have "\<exists>w \<in># shared_asleep s + shared_woken s. wait_mode w = m" if "next_mode (coordinator s) = Some m" for m
    using inv that turn_holder [of "coordinator s" "shared_asleep s + shared_woken s"]
    by (auto simp: mode_inv_def mode_inv_with_def holds_turn_def)
  moreover obtain s' where "mode_event_step e s = Some s'" using mode_event_inv [OF inv assms(2)] by blast
  moreover have "mode_step s s'" using assms(2) calculation(2) by (rule mode_event)
  ultimately show ?thesis
    using inv reachable_step [OF assms(1)] by (auto simp: mode_inv_def mode_inv_with_def)
qed

text \<open>Theorem. The attempt to take a shared lease without waiting grants a lease in exactly the states in which
  the waiting variant grants one at once, leaves the same state then, and changes nothing otherwise.\<close>

theorem try_shared_equiv:
  "try_acquire_shared m st = (case shared_pass m False reserved st of SharedGranted st' \<Rightarrow> Some st' | _ \<Rightarrow> None)"
  by (rule try_pass)

text \<open>A search in mode \<open>True\<close> holds a lease and a search in mode \<open>False\<close> has reserved the next turn.\<close>

definition reserved_system :: mode_system where
  "reserved_system = \<lparr>coordinator = \<lparr>active_mode = Some True, active_leases = 1, next_mode = Some False,
       next_mode_generation = 1, next_mode_waiters = 1, exclusive_active = False, exclusive_waiters = 0\<rparr>,
     live_leases = {#SharedLease True#},
     shared_asleep = {#\<lparr>wait_mode = False, wait_reserved = Some 1, wait_cancellable = True\<rparr>#},
     shared_woken = {#}, exclusive_asleep = {#}, exclusive_woken = {#}\<rparr>"

lemma reserved_reachable: "mode_reachable reserved_system"
proof -
  let ?s1 = "mode_start\<lparr>coordinator := open_mode True coordinator_default, live_leases := {#SharedLease True#}\<rparr>"
  have "mode_reachable mode_start" by (rule reachable_start) simp
  moreover have "mode_step mode_start ?s1"
    by (rule mode_event [of _ "TryShared True"]) (simp_all add: run_try_def try_acquire_shared_def mode_start_def
        coordinator_default_def open_mode_def)
  ultimately have "mode_reachable ?s1" by (rule reachable_step)
  moreover have "mode_step ?s1 reserved_system"
    by (rule mode_event [of _ "EnterShared False True False"]) (simp_all add: run_shared_def shared_pass_def pass_defs
        reserve_next_mode_def mode_start_def coordinator_default_def reserved_system_def)
  ultimately show ?thesis by (rule reachable_step)
qed

theorem mode_leases_compatible_witness:
  "live_leases reserved_system = replicate_mset 1 (SharedLease True) \<and> active_mode (coordinator reserved_system) = Some True"
  using mode_leases_compatible [OF reserved_reachable, of True] by (simp add: reserved_system_def)


theorem mode_coordinator_well_formed_witness:
  "\<exists>s'. mode_event_step (DropLease (SharedLease True)) reserved_system = Some s' \<and> mode_reachable s'"
  using mode_coordinator_well_formed [OF reserved_reachable, of "DropLease (SharedLease True)"] by (simp add: reserved_system_def)

end
