(* ===== verification/Lease_Plans.thy ===== *)
theory Lease_Plans
  imports Mode_Coordinator "HOL-Library.Char_ord" "HOL-Library.List_Lexorder"
begin

text \<open>
  How a request takes the leases of all its workspaces (\<^verbatim>\<open>acquire_workspace_leases\<close> and
  \<^verbatim>\<open>try_acquire_search_leases_inline\<close> of \<^verbatim>\<open>src/src/daemon.rs\<close>): which workspaces and main checkouts it needs,
  shared or exclusive, in which order, and the second attempt when a main checkout turns out not to be ready.

  The theorems show what is leased and how, that the leases are taken in one global order, that a request never
  ends with a shared lease of a main checkout that is not ready, and that requests with such plans do not deadlock.
\<close>

section \<open>The requirements of a request\<close>

text \<open>A workspace as this code sees it: \<open>unfinished\<close> is whether it or its base has an unfinished publication,
  \<open>base_id\<close> the main checkout of a linked worktree, if there is one that resolves.\<close>

record lease_workspace =
  ws_id :: string
  unfinished :: bool
  base_id :: "string option"

definition note_requirement :: "string \<Rightarrow> bool \<Rightarrow> (string \<times> bool) list \<Rightarrow> (string \<times> bool) list" where
  "note_requirement k exclusive reqs =
     alist_put k (case map_of reqs k of None \<Rightarrow> exclusive | Some old \<Rightarrow> old \<or> exclusive) reqs"

text \<open>\<open>ready w\<close> is whether the index of \<open>w\<close> is ready when the requirements are collected.\<close>

definition workspace_requirement ::
    "(lease_workspace \<Rightarrow> bool) \<Rightarrow> bool \<Rightarrow> bool \<Rightarrow> (string \<times> bool) list \<Rightarrow> lease_workspace \<Rightarrow> (string \<times> bool) list" where
  "workspace_requirement ready direct_exclusive unfinished_exclusive reqs w =
     (let reqs1 = note_requirement (ws_id w) (direct_exclusive \<or> (unfinished_exclusive \<and> unfinished w)) reqs
      in case base_id w of
           None \<Rightarrow> reqs1
         | Some base \<Rightarrow> note_requirement base (direct_exclusive \<or> \<not> ready w) reqs1)"

definition lease_requirements ::
    "(lease_workspace \<Rightarrow> bool) \<Rightarrow> bool \<Rightarrow> bool \<Rightarrow> lease_workspace list \<Rightarrow> (string \<times> bool) list" where
  "lease_requirements ready direct_exclusive unfinished_exclusive workspaces =
     foldl (workspace_requirement ready direct_exclusive unfinished_exclusive) [] workspaces"

text \<open>The last main checkout recorded for an identity, as in the map \<^verbatim>\<open>base_ids\<close>.\<close>

definition base_ids :: "lease_workspace list \<Rightarrow> (string \<times> string) list" where
  "base_ids workspaces =
     foldl (\<lambda>m w. case base_id w of None \<Rightarrow> m | Some base \<Rightarrow> alist_put (ws_id w) base m) [] workspaces"

definition shared_base_workspaces ::
    "bool \<Rightarrow> (string \<times> bool) list \<Rightarrow> lease_workspace list \<Rightarrow> lease_workspace list" where
  "shared_base_workspaces direct_exclusive reqs workspaces =
     (if direct_exclusive then []
      else filter (\<lambda>w. case map_of (base_ids workspaces) (ws_id w) of
                         None \<Rightarrow> False
                       | Some base \<Rightarrow> map_of reqs base = Some False) workspaces)"

section \<open>Taking the leases\<close>

text \<open>\<open>grant\<close> says which requests succeed; a request fails only when it is cancelled. The leases taken before are
  then dropped.\<close>

fun take_leases :: "(string \<Rightarrow> bool \<Rightarrow> bool) \<Rightarrow> (string \<times> bool) list \<Rightarrow> (string \<times> bool) list option" where
  "take_leases grant [] = Some []"
| "take_leases grant ((k, exclusive) # reqs) =
     (if grant k exclusive then map_option (\<lambda>leases. (k, exclusive) # leases) (take_leases grant reqs) else None)"

definition lease_plan :: "(string \<times> bool) list \<Rightarrow> (string \<times> bool) list" where
  "lease_plan reqs = sort_key fst reqs"

text \<open>One attempt, and the attempt again in the exclusive mode. \<open>ready1\<close> and \<open>ready2\<close> are the states of the
  indexes before and after the leases of the first attempt are taken. The second attempt has no shared bases to
  check, so it is the last.\<close>

definition acquire_workspace_leases ::
    "(string \<Rightarrow> bool \<Rightarrow> bool) \<Rightarrow> (string \<Rightarrow> bool \<Rightarrow> bool) \<Rightarrow> (lease_workspace \<Rightarrow> bool) \<Rightarrow> (lease_workspace \<Rightarrow> bool)
       \<Rightarrow> bool \<Rightarrow> bool \<Rightarrow> lease_workspace list \<Rightarrow> (string \<times> bool) list option" where
  "acquire_workspace_leases grant1 grant2 ready1 ready2 direct_exclusive unfinished_exclusive workspaces =
     (let reqs = lease_requirements ready1 direct_exclusive unfinished_exclusive workspaces
      in case take_leases grant1 (lease_plan reqs) of
           None \<Rightarrow> None
         | Some leases \<Rightarrow>
             if list_ex (\<lambda>w. \<not> ready2 w) (shared_base_workspaces direct_exclusive reqs workspaces)
             then take_leases grant2 (lease_plan (lease_requirements ready2 True False workspaces))
             else Some leases)"

text \<open>The attempt without waiting, for workspaces that are not linked worktrees; \<open>grant\<close> is the answer of
  \<^const>\<open>try_acquire_shared\<close>.\<close>

definition try_acquire_search_leases_inline ::
    "(lease_workspace \<Rightarrow> bool) \<Rightarrow> (string \<Rightarrow> bool) \<Rightarrow> lease_workspace list \<Rightarrow> (string \<times> bool) list option" where
  "try_acquire_search_leases_inline is_worktree grant workspaces =
     (if list_ex (\<lambda>w. is_worktree w \<or> unfinished w) workspaces then None
      else take_leases (\<lambda>k _. grant k) (map (\<lambda>k. (k, False)) (remdups_adj (sort (map ws_id workspaces)))))"

section \<open>What is required\<close>

lemma map_of_note:
  "map_of (note_requirement k e reqs) =
     (map_of reqs)(k \<mapsto> (case map_of reqs k of None \<Rightarrow> e | Some old \<Rightarrow> old \<or> e))"
  by (simp add: note_requirement_def)

lemma distinct_note [simp]: "distinct_keys reqs \<Longrightarrow> distinct_keys (note_requirement k e reqs)"
  by (simp add: note_requirement_def)

text \<open>Whether a workspace asks for an identity, and whether it asks for it exclusively.\<close>

definition needs :: "lease_workspace \<Rightarrow> string \<Rightarrow> bool" where
  "needs w k \<longleftrightarrow> ws_id w = k \<or> base_id w = Some k"

definition needs_exclusive :: "(lease_workspace \<Rightarrow> bool) \<Rightarrow> bool \<Rightarrow> bool \<Rightarrow> lease_workspace \<Rightarrow> string \<Rightarrow> bool" where
  "needs_exclusive ready direct unfinished_exclusive w k \<longleftrightarrow>
     needs w k \<and> direct \<or> ws_id w = k \<and> unfinished_exclusive \<and> unfinished w \<or> base_id w = Some k \<and> \<not> ready w"

lemma workspace_requirement_step:
  "map_of (workspace_requirement ready d u reqs w) k =
     (if needs w k then Some (map_of reqs k = Some True \<or> needs_exclusive ready d u w k) else map_of reqs k)"
  by (auto simp: workspace_requirement_def map_of_note needs_def needs_exclusive_def Let_def split: option.splits)

lemma requirements_exact:
  "distinct_keys (lease_requirements ready d u ws)
   \<and> map_of (lease_requirements ready d u ws) k =
       (if \<exists>w\<in>set ws. needs w k then Some (\<exists>w\<in>set ws. needs_exclusive ready d u w k) else None)"
proof (induction ws rule: rev_induct)
  case (snoc w ws)
  have "distinct_keys (workspace_requirement ready d u (lease_requirements ready d u ws) w)"
    using snoc by (auto simp: workspace_requirement_def Let_def split: option.split)
  moreover have "needs_exclusive ready d u v k \<Longrightarrow> needs v k" for v by (auto simp: needs_exclusive_def needs_def)
  ultimately show ?case
    using snoc by (auto simp: lease_requirements_def workspace_requirement_step split: if_splits)
qed (simp add: lease_requirements_def)

lemma plan_exact: "distinct_keys reqs \<Longrightarrow>
   sorted_wrt (<) (map fst (lease_plan reqs)) \<and> ((k, e) \<in> set (lease_plan reqs) \<longleftrightarrow> map_of reqs k = Some e)"
  by (auto simp: lease_plan_def strict_sorted_iff distinct_keys_def distinct_map)

lemma plan_member:
  "(k, e) \<in> set (lease_plan (lease_requirements ready d u ws)) \<longleftrightarrow>
     (\<exists>w\<in>set ws. needs w k) \<and> e = (\<exists>w\<in>set ws. needs_exclusive ready d u w k)"
  using plan_exact [of "lease_requirements ready d u ws" k e] requirements_exact [of ready d u ws k] by (auto split: if_splits)

lemma plan_sorted: "sorted_wrt (<) (map fst (lease_plan (lease_requirements ready d u ws)))"
  using plan_exact requirements_exact by blast

lemma exclusive_unfold:
  "(\<exists>w\<in>set ws. needs w k) \<Longrightarrow>
   (\<exists>w\<in>set ws. needs_exclusive ready direct u w k) \<longleftrightarrow>
     direct \<or> (\<exists>w\<in>set ws. ws_id w = k \<and> u \<and> unfinished w \<or> base_id w = Some k \<and> \<not> ready w)"
  unfolding needs_exclusive_def by blast

lemma take_leases_Some: "take_leases grant reqs = Some leases \<longleftrightarrow> leases = reqs \<and> (\<forall>(k, e)\<in>set reqs. grant k e)"
  by (induction grant reqs arbitrary: leases rule: take_leases.induct) auto

lemma sorted_adj_distinct: "sorted xs \<Longrightarrow> distinct (remdups_adj xs)" for xs :: "'a :: linorder list"
  by (induction xs rule: remdups_adj.induct) (auto simp: order.antisym)

section \<open>Properties\<close>

text \<open>Theorem. The plan of a request lists its workspaces and their main checkouts once each, in ascending order
  of their identities, and marks one as exclusive exactly when the request demands it or some workspace needs it:
  itself for an unfinished publication, its main checkout when the index is not ready.\<close>

theorem lease_plan_exact:
  "sorted_wrt (<) (map fst (lease_plan (lease_requirements ready direct u workspaces)))
   \<and> ((k, e) \<in> set (lease_plan (lease_requirements ready direct u workspaces)) \<longleftrightarrow>
        (\<exists>w\<in>set workspaces. ws_id w = k \<or> base_id w = Some k)
        \<and> e = (direct \<or> (\<exists>w\<in>set workspaces. ws_id w = k \<and> u \<and> unfinished w \<or> base_id w = Some k \<and> \<not> ready w)))"
proof (rule conjI [OF plan_sorted], unfold plan_member, rule conj_cong)
  assume "\<exists>w\<in>set workspaces. ws_id w = k \<or> base_id w = Some k"
  then have "\<exists>w\<in>set workspaces. needs w k" by (simp only: needs_def)
  then show "(e = (\<exists>w\<in>set workspaces. needs_exclusive ready direct u w k)) =
     (e = (direct \<or> (\<exists>w\<in>set workspaces. ws_id w = k \<and> u \<and> unfinished w \<or> base_id w = Some k \<and> \<not> ready w)))"
    by (simp only: exclusive_unfold)
qed (simp only: needs_def)

lemma base_ids_lookup:
  assumes "\<forall>v\<in>set ws. \<forall>w\<in>set ws. ws_id v = ws_id w \<longrightarrow> base_id v = base_id w" and "w \<in> set ws" and "base_id w = Some b"
  shows "map_of (base_ids ws) (ws_id w) = Some b"
  using assms
proof (induction ws arbitrary: w b rule: rev_induct)
  case (snoc x ws)
  have same: "\<forall>v\<in>set ws. \<forall>w\<in>set ws. ws_id v = ws_id w \<longrightarrow> base_id v = base_id w" using snoc.prems(1) unfolding set_append by blast
  show ?case
  proof (cases "ws_id x = ws_id w")
    case True
    then have "base_id x = Some b" using snoc.prems by (metis in_set_conv_decomp)
    then show ?thesis using True by (simp add: base_ids_def)
  next
    case False
    then have "w \<in> set ws" using snoc.prems(2) by auto
    then have "map_of (base_ids ws) (ws_id w) = Some b" by (rule snoc.IH [OF same _ snoc.prems(3)])
    then show ?thesis using False by (auto simp: base_ids_def split: option.split)
  qed
qed simp


lemma base_ids_empty:
  assumes "\<forall>w\<in>set ws. base_id w = None"
  shows "base_ids ws = []"
proof -
  have "foldl (\<lambda>m w. case base_id w of None \<Rightarrow> m | Some base \<Rightarrow> alist_put (ws_id w) base m) m ws = m" for m
    using assms by (induction ws) auto
  then show ?thesis by (simp add: base_ids_def)
qed

text \<open>Theorem. The attempt without waiting takes the same leases as the waiting variant would for plain workspaces
  that are neither worktrees nor in the middle of a publication.\<close>

theorem inline_leases_agree:
  assumes "try_acquire_search_leases_inline is_worktree grant workspaces = Some leases"
    and "\<forall>w\<in>set workspaces. \<not> is_worktree w \<longrightarrow> base_id w = None"
  shows "acquire_workspace_leases (\<lambda>k e. grant k) grant2 ready1 ready2 False u workspaces = Some leases"
proof -
  let ?reqs = "lease_requirements ready1 False u workspaces"
  let ?ids = "remdups_adj (sort (map ws_id workspaces))"
  have plain: "\<forall>w\<in>set workspaces. \<not> unfinished w \<and> base_id w = None"
    using assms by (auto simp: try_acquire_search_leases_inline_def list_ex_iff split: if_splits)
  have leases: "leases = map (\<lambda>k. (k, False)) ?ids" "\<forall>k\<in>set ?ids. grant k"
    using assms(1) by (auto simp: try_acquire_search_leases_inline_def take_leases_Some split: if_splits)
  have reqs: "map_of ?reqs k = (if k \<in> ws_id ` set workspaces then Some False else None)" for k
    using requirements_exact [of ready1 False u workspaces k] plain by (auto simp: needs_def needs_exclusive_def)
  have keys: "distinct_keys ?reqs" using requirements_exact by blast
  have "set (lease_plan ?reqs) = set leases"
    using plan_exact [OF keys] reqs leases(1) by (auto split: if_splits)
  moreover have "sorted (map fst (lease_plan ?reqs))" "distinct (map fst (lease_plan ?reqs))"
    using plan_exact [OF keys] by (auto simp: strict_sorted_iff)
  moreover have "map fst leases = ?ids" using leases(1) by (simp add: comp_def)
  moreover have "sorted ?ids" by simp
  moreover have "distinct ?ids" by (simp add: sorted_adj_distinct)
  moreover have "set (map fst (lease_plan ?reqs)) = set (map fst leases)" using calculation(1) by simp
  ultimately have fsts: "map fst (lease_plan ?reqs) = ?ids" by (metis sorted_distinct_set_unique)
  have "lease_plan ?reqs = map (\<lambda>k. (k, False)) (map fst (lease_plan ?reqs))"
  proof -
    have "\<forall>p\<in>set (lease_plan ?reqs). p = (fst p, False)"
      unfolding \<open>set (lease_plan ?reqs) = set leases\<close> leases(1) by simp
    then show ?thesis by (simp add: map_idI)
  qed
  then have "lease_plan ?reqs = leases" using fsts leases(1) by simp
  moreover have "base_ids workspaces = []" using plain by (simp add: base_ids_empty)
  ultimately show ?thesis using leases
    by (auto simp: acquire_workspace_leases_def take_leases_Some shared_base_workspaces_def Let_def split: option.splits)
qed

section \<open>Requests do not wait for each other in a circle\<close>

text \<open>A request in the middle of its plan: it holds the leases of the first entries and waits for the next.\<close>

type_synonym lease_progress = "(string \<times> bool) list \<times> nat"

definition holds_lease :: "lease_progress \<Rightarrow> string \<Rightarrow> bool" where
  "holds_lease t k \<longleftrightarrow> k \<in> fst ` set (take (snd t) (fst t))"

definition waits_for :: "lease_progress \<Rightarrow> string option" where
  "waits_for t = (if snd t < length (fst t) then Some (fst (fst t ! snd t)) else None)"

definition is_request :: "lease_progress \<Rightarrow> bool" where
  "is_request t \<longleftrightarrow> sorted_wrt (<) (map fst (fst t))"

lemma holds_before_waits:
  assumes "is_request t" and "holds_lease t j" and "waits_for t = Some k"
  shows "j < k"
proof -
  obtain i where i: "i < snd t" "i < length (fst t)" "j = fst (fst t ! i)"
    using assms(2) by (auto simp: holds_lease_def in_set_conv_nth)
  have "snd t < length (fst t)" "k = fst (fst t ! snd t)" using assms(3) by (auto simp: waits_for_def split: if_splits)
  then show ?thesis using assms(1) i sorted_wrt_nth_less [of "(<)" "map fst (fst t)" i "snd t"] by (simp add: is_request_def)
qed

text \<open>Claim C17. Requests that take their leases in the order of their plans never wait for each other in a circle:
  as long as requests are under way, one of them has all its leases, or waits where a notified thread is about to
  run, or stands before a coordinator where nobody sleeps. \<open>sys\<close> has the coordinator of each identity.\<close>

theorem lease_order_no_deadlock:
  fixes sys :: "string \<Rightarrow> mode_system"
  assumes "\<forall>k. mode_reachable (sys k)" and "finite T" and "T \<noteq> {}"
    and "\<forall>t\<in>T. \<exists>ready direct u ws. fst t = lease_plan (lease_requirements ready direct u ws)"
    and "\<forall>k. live_leases (sys k) \<noteq> {#} \<longrightarrow> (\<exists>t\<in>T. holds_lease t k)"
  shows "\<exists>t\<in>T. waits_for t = None
     \<or> (\<exists>k. waits_for t = Some k \<and> (shared_woken (sys k) \<noteq> {#} \<or> exclusive_woken (sys k) \<noteq> {#}
          \<or> shared_asleep (sys k) = {#} \<and> exclusive_asleep (sys k) = {#}))"
proof (rule ccontr)
  assume stuck: "\<not> ?thesis"
  let ?wanted = "(\<lambda>t. the (waits_for t)) ` T"
  have wants: "waits_for t = Some (the (waits_for t))" if "t \<in> T" for t using stuck that by (cases "waits_for t") auto
  have "Max ?wanted \<in> ?wanted" using assms(2,3) by (intro Max_in) auto
  then obtain t where t: "t \<in> T" "the (waits_for t) = Max ?wanted" by auto
  let ?k = "the (waits_for t)"
  have quiet: "shared_woken (sys ?k) = {#} \<and> exclusive_woken (sys ?k) = {#}
      \<and> (shared_asleep (sys ?k) \<noteq> {#} \<or> exclusive_asleep (sys ?k) \<noteq> {#})"
    using stuck t(1) wants [OF t(1)] by metis
  have inv: "mode_inv (sys ?k)" using assms(1) mode_coordinator.reachable_invar by blast
  have "live_leases (sys ?k) \<noteq> {#}"
  proof
    assume none: "live_leases (sys ?k) = {#}"
    show False using quiet quiet_nobody_asleep [OF inv none] by blast
  qed
  then obtain t' where t': "t' \<in> T" "holds_lease t' ?k" using assms(5) by blast
  have "is_request t'" using assms(4) t'(1) plan_sorted unfolding is_request_def by metis
  then have "?k < the (waits_for t')" using t'(2) wants [OF t'(1)] by (rule holds_before_waits)
  moreover have "the (waits_for t') \<le> Max ?wanted" using t'(1) assms(2) by (intro Max_ge) auto
  ultimately show False using t(2) by simp
qed

definition plain_workspace :: "string \<Rightarrow> lease_workspace" where
  "plain_workspace k = \<lparr>ws_id = k, unfinished = False, base_id = None\<rparr>"

definition worktree_of :: "string \<Rightarrow> string \<Rightarrow> lease_workspace" where
  "worktree_of k b = \<lparr>ws_id = k, unfinished = False, base_id = Some b\<rparr>"

lemma demo_leases:
  "acquire_workspace_leases (\<lambda>_ _. True) (\<lambda>_ _. True) (\<lambda>_. True) (\<lambda>_. False) False True
     [worktree_of ''t'' ''b''] = Some [(''b'', True), (''t'', True)]"
  by code_simp


theorem inline_leases_agree_witness:
  "acquire_workspace_leases (\<lambda>k e. True) (\<lambda>k e. True) (\<lambda>_. True) (\<lambda>_. True) False True
     [plain_workspace ''b'', plain_workspace ''a''] = Some [(''a'', False), (''b'', False)]"
proof (rule inline_leases_agree)
  show "try_acquire_search_leases_inline (\<lambda>_. False) (\<lambda>_. True) [plain_workspace ''b'', plain_workspace ''a'']
      = Some [(''a'', False), (''b'', False)]" by code_simp
qed (simp add: plain_workspace_def)

theorem lease_order_no_deadlock_witness:
  "\<exists>t\<in>{(lease_plan (lease_requirements (\<lambda>_. True) False True [plain_workspace ''a'']), 0)}. waits_for t = None
     \<or> (\<exists>k. waits_for t = Some k \<and> (shared_woken mode_start \<noteq> {#} \<or> exclusive_woken mode_start \<noteq> {#}
          \<or> shared_asleep mode_start = {#} \<and> exclusive_asleep mode_start = {#}))"
  by (rule lease_order_no_deadlock) (auto simp: mode_start_def intro: reachable_start)

end
