(* ===== verification/Search_Registry.thy ===== *)
theory Search_Registry
  imports Prelude
begin

text \<open>
  The registry by which clients cancel running searches (\<^verbatim>\<open>SearchCancellationRegistry\<close> of \<^verbatim>\<open>src/src/daemon.rs\<close>).
  A search with a request id is registered while it runs; a cancellation that arrives before its search leaves a
  tombstone, and the oldest tombstones are forgotten. Cancellations are shared objects, so the model has a store of
  them, and two handles are the same when they have the same address.

  The theorems show that a cancellation reaches exactly its search, also when it arrives first, and that the
  registry stays bounded.
\<close>

section \<open>Cancellations\<close>

record SearchCancellation =
  cancel_flag :: bool
  deadline_flag :: bool
  cancel_signal :: bool
  finished_signal :: bool

definition cancellation_new :: "bool \<Rightarrow> SearchCancellation" where
  "cancellation_new cancelled = \<lparr>cancel_flag = cancelled, deadline_flag = False, cancel_signal = cancelled, finished_signal = False\<rparr>"

definition cancel :: "SearchCancellation \<Rightarrow> SearchCancellation" where
  "cancel c = c\<lparr>cancel_flag := True, cancel_signal := True\<rparr>"

definition cancel_for_deadline :: "SearchCancellation \<Rightarrow> SearchCancellation" where
  "cancel_for_deadline c = cancel (c\<lparr>deadline_flag := True\<rparr>)"

definition finish :: "SearchCancellation \<Rightarrow> SearchCancellation" where
  "finish c = c\<lparr>finished_signal := True\<rparr>"

section \<open>The registry\<close>

definition MAX_SEARCH_CANCELLATION_TOMBSTONES :: nat where
  "MAX_SEARCH_CANCELLATION_TOMBSTONES = 256"

type_synonym uuid = nat

text \<open>An entry has the address of its cancellation.\<close>

datatype SearchCancellationEntry = Active nat | Tombstone nat

record SearchCancellationRegistry =
  entries :: "(uuid \<times> SearchCancellationEntry) list"
  tombstones :: "uuid list"

text \<open>The registry, the cancellations by address, and the live registrations.\<close>

record search_state =
  registry :: SearchCancellationRegistry
  cancellations :: "SearchCancellation list"
  registrations :: "(uuid \<times> nat) list"

definition search_start :: search_state where
  "search_start = \<lparr>registry = \<lparr>entries = [], tombstones = []\<rparr>, cancellations = [], registrations = []\<rparr>"

definition update_cancellation :: "nat \<Rightarrow> (SearchCancellation \<Rightarrow> SearchCancellation) \<Rightarrow> search_state \<Rightarrow> search_state" where
  "update_cancellation a f s =
     (if a < length (cancellations s) then s\<lparr>cancellations := (cancellations s)[a := f (cancellations s ! a)]\<rparr> else s)"

definition new_cancellation :: "bool \<Rightarrow> search_state \<Rightarrow> nat \<times> search_state" where
  "new_cancellation cancelled s = (length (cancellations s), s\<lparr>cancellations := cancellations s @ [cancellation_new cancelled]\<rparr>)"

text \<open>Without an id nothing is registered. \<open>show_uuid\<close> writes an id. The result is the registration: its id and its cancellation.\<close>

definition register_search ::
    "(uuid \<Rightarrow> string) \<Rightarrow> uuid option \<Rightarrow> search_state \<Rightarrow> string + (uuid \<times> nat) option \<times> search_state" where
  "register_search show_uuid request_id s =
     (case request_id of
        None \<Rightarrow> Inr (None, s)
      | Some i \<Rightarrow>
          (case map_of (entries (registry s)) i of
             Some (Active _) \<Rightarrow> Inl (''search request '' @ show_uuid i @ '' is already active'')
           | entry \<Rightarrow>
               let removed = alist_remove i (entries (registry s));
                   (a, queue, s1) =
                     (case entry of
                        Some (Tombstone a) \<Rightarrow> (a, filter (\<lambda>j. j \<noteq> i) (tombstones (registry s)), s)
                      | _ \<Rightarrow> (case new_cancellation False s of (a, s') \<Rightarrow> (a, tombstones (registry s), s')))
               in Inr (Some (i, a),
                    s1\<lparr>registry := \<lparr>entries = alist_put i (Active a) removed, tombstones = queue\<rparr>,
                       registrations := (i, a) # registrations s1\<rparr>)))"

text \<open>The loop that forgets the oldest tombstones.\<close>

fun expire_tombstones :: "(uuid \<times> SearchCancellationEntry) list \<Rightarrow> uuid list \<Rightarrow> SearchCancellationRegistry" where
  "expire_tombstones es queue =
     (if MAX_SEARCH_CANCELLATION_TOMBSTONES < length queue then
        (case queue of
           [] \<Rightarrow> \<lparr>entries = es, tombstones = queue\<rparr>
         | expired # rest \<Rightarrow>
             expire_tombstones (case map_of es expired of Some (Tombstone _) \<Rightarrow> alist_remove expired es | _ \<Rightarrow> es) rest)
      else \<lparr>entries = es, tombstones = queue\<rparr>)"

declare expire_tombstones.simps [simp del]

text \<open>The result is the cancellation of an active search, on which the caller waits.\<close>

definition cancel_search :: "uuid \<Rightarrow> search_state \<Rightarrow> nat option \<times> search_state" where
  "cancel_search i s =
     (case map_of (entries (registry s)) i of
        Some (Active a) \<Rightarrow> (Some a, update_cancellation a cancel s)
      | Some (Tombstone a) \<Rightarrow> (None, update_cancellation a cancel s)
      | None \<Rightarrow>
          (case new_cancellation True s of
             (a, s1) \<Rightarrow> (None, s1\<lparr>registry := expire_tombstones (alist_put i (Tombstone a) (entries (registry s)))
                                             (tombstones (registry s) @ [i])\<rparr>)))"

definition drop_registration :: "uuid \<times> nat \<Rightarrow> search_state \<Rightarrow> search_state" where
  "drop_registration r s =
     (case r of (i, a) \<Rightarrow>
        let owns_entry = (map_of (entries (registry s)) i = Some (Active a));
            s1 = (if owns_entry then s\<lparr>registry := (registry s)\<lparr>entries := alist_remove i (entries (registry s))\<rparr>\<rparr> else s)
        in update_cancellation a finish (s1\<lparr>registrations := remove1 r (registrations s1)\<rparr>))"

section \<open>What can happen\<close>

datatype search_event = Register uuid | Cancel uuid | DropRegistration "uuid \<times> nat" | Deadline "uuid \<times> nat"

fun search_event_step :: "search_event \<Rightarrow> search_state \<Rightarrow> search_state" where
  "search_event_step (Register i) s = (case register_search (\<lambda>_. []) (Some i) s of Inl _ \<Rightarrow> s | Inr (_, s') \<Rightarrow> s')"
| "search_event_step (Cancel i) s = snd (cancel_search i s)"
| "search_event_step (DropRegistration r) s = drop_registration r s"
| "search_event_step (Deadline r) s = update_cancellation (snd r) cancel_for_deadline s"

fun search_enabled :: "search_state \<Rightarrow> search_event \<Rightarrow> bool" where
  "search_enabled s (DropRegistration r) = (r \<in> set (registrations s))"
| "search_enabled s (Deadline r) = (r \<in> set (registrations s))"
| "search_enabled s _ = True"

inductive search_step :: "search_state \<Rightarrow> search_state \<Rightarrow> bool" where
  search_event: "search_enabled s e \<Longrightarrow> search_step s (search_event_step e s)"

inductive_cases search_stepE: "search_step s s'"

definition entry_address :: "SearchCancellationEntry \<Rightarrow> nat" where
  "entry_address e = (case e of Active a \<Rightarrow> a | Tombstone a \<Rightarrow> a)"

lemma entry_address_simps [simp]: "entry_address (Active a) = a" "entry_address (Tombstone a) = a"
  by (simp_all add: entry_address_def)

text \<open>The parts of the invariant: entries and registrations, the queue of tombstones, the addresses, the flags.\<close>

definition active_ok :: "(uuid \<rightharpoonup> SearchCancellationEntry) \<Rightarrow> (uuid \<times> nat) list \<Rightarrow> bool" where
  "active_ok m regs \<longleftrightarrow> distinct regs \<and> (\<forall>i a. (i, a) \<in> set regs \<longleftrightarrow> m i = Some (Active a))"

definition queue_ok :: "(uuid \<rightharpoonup> SearchCancellationEntry) \<Rightarrow> uuid list \<Rightarrow> bool" where
  "queue_ok m queue \<longleftrightarrow>
     distinct queue \<and> length queue \<le> MAX_SEARCH_CANCELLATION_TOMBSTONES
     \<and> (\<forall>i. i \<in> set queue \<longleftrightarrow> (\<exists>a. m i = Some (Tombstone a)))"

definition addresses_ok :: "(uuid \<rightharpoonup> SearchCancellationEntry) \<Rightarrow> nat \<Rightarrow> bool" where
  "addresses_ok m n \<longleftrightarrow>
     (\<forall>i e. m i = Some e \<longrightarrow> entry_address e < n)
     \<and> (\<forall>i j e f. m i = Some e \<and> m j = Some f \<and> entry_address e = entry_address f \<longrightarrow> i = j)"

definition flags_ok :: "(uuid \<rightharpoonup> SearchCancellationEntry) \<Rightarrow> SearchCancellation list \<Rightarrow> bool" where
  "flags_ok m cs \<longleftrightarrow>
     (\<forall>i a. m i = Some (Tombstone a) \<longrightarrow> cancel_flag (cs ! a))
     \<and> (\<forall>a<length cs. cancel_signal (cs ! a) = cancel_flag (cs ! a))"

definition search_inv :: "search_state \<Rightarrow> bool" where
  "search_inv s \<longleftrightarrow>
     (let m = map_of (entries (registry s))
      in distinct_keys (entries (registry s)) \<and> active_ok m (registrations s) \<and> queue_ok m (tombstones (registry s))
         \<and> addresses_ok m (length (cancellations s)) \<and> flags_ok m (cancellations s))"

lemmas ok_defs = active_ok_def queue_ok_def addresses_ok_def flags_ok_def

lemma address_bound: "addresses_ok m n \<Longrightarrow> m i = Some e \<Longrightarrow> entry_address e < n"
  by (auto simp: addresses_ok_def)

lemma update_frame [simp]:
  "registry (update_cancellation a f s) = registry s" "registrations (update_cancellation a f s) = registrations s"
  "length (cancellations (update_cancellation a f s)) = length (cancellations s)"
  by (simp_all add: update_cancellation_def)

lemma update_at:
  "a < length (cancellations s) \<Longrightarrow>
   cancellations (update_cancellation a f s) ! b = (if b = a then f (cancellations s ! a) else cancellations s ! b)"
  by (auto simp: update_cancellation_def)

lemma update_inv:
  assumes "search_inv s" and "\<And>c. cancel_flag c \<Longrightarrow> cancel_flag (f c)"
    and "\<And>c. cancel_signal c = cancel_flag c \<Longrightarrow> cancel_signal (f c) = cancel_flag (f c)"
  shows "search_inv (update_cancellation a f s)"
  using assms
  by (auto simp: search_inv_def update_cancellation_def Let_def flags_ok_def addresses_ok_def nth_list_update)

lemma register_inv:
  assumes inv: "search_inv s" and reg: "register_search sh (Some i) s = Inr (Some (j, a), s')"
  shows "search_inv s' \<and> j = i \<and> (\<forall>b. map_of (entries (registry s)) i \<noteq> Some (Active b))
     \<and> map_of (entries (registry s')) = (map_of (entries (registry s)))(i \<mapsto> Active a)
     \<and> (case map_of (entries (registry s)) i of
          Some (Tombstone b) \<Rightarrow> a = b \<and> cancellations s' = cancellations s
        | _ \<Rightarrow> a = length (cancellations s) \<and> cancellations s' = cancellations s @ [cancellation_new False])"
proof -
  let ?es = "entries (registry s)"
  have parts: "distinct_keys ?es" "active_ok (map_of ?es) (registrations s)" "queue_ok (map_of ?es) (tombstones (registry s))"
      "addresses_ok (map_of ?es) (length (cancellations s))" "flags_ok (map_of ?es) (cancellations s)"
    using inv by (simp_all add: search_inv_def Let_def)
  have keys: "distinct_keys (alist_put i e (alist_remove i ?es))" for e using parts(1) by simp
  consider (fresh) "map_of ?es i = None" | (tomb) b where "map_of ?es i = Some (Tombstone b)"
    using reg by (auto simp: register_search_def split: option.splits SearchCancellationEntry.splits)
  then show ?thesis
  proof cases
    case fresh
    have s': "s' = s\<lparr>registry := \<lparr>entries = alist_put i (Active a) (alist_remove i ?es), tombstones = tombstones (registry s)\<rparr>,
          cancellations := cancellations s @ [cancellation_new False], registrations := (i, a) # registrations s\<rparr>"
        "a = length (cancellations s)" "j = i"
      using reg fresh by (auto simp: register_search_def new_cancellation_def Let_def)
    have "active_ok ((map_of ?es)(i \<mapsto> Active a)) ((i, a) # registrations s)" using parts(2) fresh by (auto simp: active_ok_def)
    moreover have "queue_ok ((map_of ?es)(i \<mapsto> Active a)) (tombstones (registry s))"
      using parts(3) fresh unfolding queue_ok_def by (metis SearchCancellationEntry.distinct(1) fun_upd_apply option.inject option.distinct(1))
    moreover have "addresses_ok ((map_of ?es)(i \<mapsto> Active a)) (Suc (length (cancellations s)))"
      using parts(4) s'(2) unfolding addresses_ok_def by (auto split: if_splits) (metis less_irrefl less_SucI)+
    moreover have "flags_ok ((map_of ?es)(i \<mapsto> Active a)) (cancellations s @ [cancellation_new False])"
      using parts(5) address_bound [OF parts(4)]
      by (fastforce simp: flags_ok_def nth_append cancellation_new_def less_Suc_eq)
    ultimately show ?thesis using s' fresh keys by (simp add: search_inv_def Let_def)
  next
    case tomb
    have s': "s' = s\<lparr>registry := \<lparr>entries = alist_put i (Active b) (alist_remove i ?es),
            tombstones = filter (\<lambda>j. j \<noteq> i) (tombstones (registry s))\<rparr>, registrations := (i, b) # registrations s\<rparr>"
        "a = b" "j = i"
      using reg tomb by (auto simp: register_search_def Let_def)
    have "active_ok ((map_of ?es)(i \<mapsto> Active b)) ((i, b) # registrations s)" using parts(2) tomb by (auto simp: active_ok_def)
    moreover have "queue_ok ((map_of ?es)(i \<mapsto> Active b)) (filter (\<lambda>j. j \<noteq> i) (tombstones (registry s)))"
      using parts(3) tomb by (auto simp: queue_ok_def intro: le_trans [OF length_filter_le])
    moreover have "addresses_ok ((map_of ?es)(i \<mapsto> Active b)) (length (cancellations s))"
      using parts(4) tomb unfolding addresses_ok_def by (auto split: if_splits) (metis entry_address_simps(2))+
    moreover have "flags_ok ((map_of ?es)(i \<mapsto> Active b)) (cancellations s)"
      using parts(5) by (auto simp: flags_ok_def)
    ultimately show ?thesis using s' tomb keys by (simp add: search_inv_def Let_def)
  qed
qed


lemma expire_one:
  assumes "length queue \<le> MAX_SEARCH_CANCELLATION_TOMBSTONES"
  shows "expire_tombstones es (queue @ [i]) =
     (if length queue < MAX_SEARCH_CANCELLATION_TOMBSTONES then \<lparr>entries = es, tombstones = queue @ [i]\<rparr>
      else \<lparr>entries = (case map_of es (hd queue) of Some (Tombstone _) \<Rightarrow> alist_remove (hd queue) es | _ \<Rightarrow> es),
            tombstones = tl queue @ [i]\<rparr>)"
proof (cases "length queue < MAX_SEARCH_CANCELLATION_TOMBSTONES")
  case True
  then show ?thesis by (simp add: expire_tombstones.simps [of es])
next
  case False
  then obtain e rest where "queue = e # rest" "length queue = MAX_SEARCH_CANCELLATION_TOMBSTONES"
    using assms by (cases queue) (auto simp: MAX_SEARCH_CANCELLATION_TOMBSTONES_def)
  then show ?thesis using False by (auto simp: expire_tombstones.simps split: option.split SearchCancellationEntry.split)
qed

text \<open>A cancellation of an unknown search leaves a tombstone and may forget the oldest one.\<close>

lemma cancel_unknown:
  assumes inv: "search_inv s" and none: "map_of (entries (registry s)) i = None"
  defines "queue \<equiv> tombstones (registry s)" and "m \<equiv> map_of (entries (registry s))"
    and "s' \<equiv> snd (cancel_search i s)"
  shows "search_inv s' \<and> registrations s' = registrations s
     \<and> cancellations s' = cancellations s @ [cancellation_new True]
     \<and> tombstones (registry s') = (if length queue < MAX_SEARCH_CANCELLATION_TOMBSTONES then queue else tl queue) @ [i]
     \<and> map_of (entries (registry s')) = (if length queue < MAX_SEARCH_CANCELLATION_TOMBSTONES then m else m(hd queue := None))
         (i \<mapsto> Tombstone (length (cancellations s)))"
proof -
  let ?n = "length (cancellations s)"
  have parts: "distinct_keys (entries (registry s))" "active_ok m (registrations s)" "queue_ok m queue"
      "addresses_ok m ?n" "flags_ok m (cancellations s)"
    using inv by (simp_all add: search_inv_def Let_def m_def queue_def)
  have mi: "m i = None" using none by (simp add: m_def)
  then have notin: "i \<notin> set queue" using parts(3) by (simp add: queue_ok_def)
  define old where "old = (if length queue < MAX_SEARCH_CANCELLATION_TOMBSTONES then m else m(hd queue := None))"
  define kept where "kept = (if length queue < MAX_SEARCH_CANCELLATION_TOMBSTONES then queue else tl queue)"
  have len: "length queue \<le> MAX_SEARCH_CANCELLATION_TOMBSTONES" using parts(3) by (simp add: queue_ok_def)
  have hd: "\<exists>a. m (hd queue) = Some (Tombstone a)" "queue = hd queue # tl queue"
    if "\<not> length queue < MAX_SEARCH_CANCELLATION_TOMBSTONES"
  proof -
    have "queue \<noteq> []" using that by (auto simp: MAX_SEARCH_CANCELLATION_TOMBSTONES_def)
    then show "queue = hd queue # tl queue" "\<exists>a. m (hd queue) = Some (Tombstone a)"
      using parts(3) hd_in_set [of queue] by (simp_all add: queue_ok_def)
  qed
  have s': "cancellations s' = cancellations s @ [cancellation_new True]" "registrations s' = registrations s"
      "registry s' = expire_tombstones (alist_put i (Tombstone ?n) (entries (registry s))) (queue @ [i])"
    using none by (simp_all add: s'_def cancel_search_def new_cancellation_def queue_def)
  have neq: "hd queue \<noteq> i" if "\<not> length queue < MAX_SEARCH_CANCELLATION_TOMBSTONES" using hd(1) [OF that] mi by auto
  have reg: "distinct_keys (entries (registry s'))" "map_of (entries (registry s')) = old(i \<mapsto> Tombstone ?n)"
      "tombstones (registry s') = kept @ [i]"
    using hd(1) neq parts(1) unfolding s'(3) expire_one [OF len] old_def kept_def m_def
    by (auto simp: fun_upd_twist split: option.splits)
  have sub: "old k = Some e \<Longrightarrow> m k = Some e" for k e by (auto simp: old_def split: if_splits)
  have "active_ok (old(i \<mapsto> Tombstone ?n)) (registrations s)"
    using parts(2) mi hd(1) unfolding active_ok_def old_def by auto
  moreover have "queue_ok (old(i \<mapsto> Tombstone ?n)) (kept @ [i])"
  proof (cases "length queue < MAX_SEARCH_CANCELLATION_TOMBSTONES")
    case True
    then show ?thesis using parts(3) notin unfolding queue_ok_def old_def kept_def by auto
  next
    case False
    then obtain h t where q: "queue = h # t" using hd(2) by blast
    then show ?thesis using False parts(3) notin unfolding queue_ok_def old_def kept_def by auto
  qed
  moreover have "addresses_ok (old(i \<mapsto> Tombstone ?n)) (Suc ?n)"
    using parts(4) sub unfolding addresses_ok_def by (auto split: if_splits) (metis less_irrefl less_SucI)+
  moreover have "flags_ok (old(i \<mapsto> Tombstone ?n)) (cancellations s @ [cancellation_new True])"
    using parts(5) address_bound [OF parts(4)] sub
    by (fastforce simp: flags_ok_def nth_append cancellation_new_def less_Suc_eq split: if_splits)
  ultimately have "search_inv s'" using s'(1,2) reg by (simp add: search_inv_def Let_def)
  then show ?thesis using s'(1,2) reg by (simp add: old_def kept_def)
qed

lemma cancel_known:
  "map_of (entries (registry s)) i = Some e \<Longrightarrow> snd (cancel_search i s) = update_cancellation (entry_address e) cancel s"
  by (cases e) (simp_all add: cancel_search_def)

lemma cancel_inv: "search_inv s \<Longrightarrow> search_inv (snd (cancel_search i s))"
proof (cases "map_of (entries (registry s)) i")
  case (Some e)
  assume "search_inv s"
  then show ?thesis unfolding cancel_known [OF Some] by (rule update_inv) (simp_all add: cancel_def)
qed (use cancel_unknown in blast)

lemma drop_inv:
  assumes inv: "search_inv s" and r: "(i, a) \<in> set (registrations s)"
  shows "search_inv (drop_registration (i, a) s) \<and> map_of (entries (registry (drop_registration (i, a) s))) i = None"
proof -
  let ?es = "entries (registry s)"
  let ?m = "(map_of ?es)(i := None)"
  have parts: "distinct_keys ?es" "active_ok (map_of ?es) (registrations s)" "queue_ok (map_of ?es) (tombstones (registry s))"
      "addresses_ok (map_of ?es) (length (cancellations s))" "flags_ok (map_of ?es) (cancellations s)"
    using inv by (simp_all add: search_inv_def Let_def)
  have mi: "map_of ?es i = Some (Active a)" using parts(2) r by (simp add: active_ok_def)
  let ?s1 = "s\<lparr>registry := (registry s)\<lparr>entries := alist_remove i ?es\<rparr>, registrations := remove1 (i, a) (registrations s)\<rparr>"
  have "active_ok ?m (remove1 (i, a) (registrations s))" using parts(2) mi by (auto simp: active_ok_def)
  moreover have "queue_ok ?m (tombstones (registry s))" using parts(3) mi by (auto simp: queue_ok_def)
  moreover have "addresses_ok ?m (length (cancellations s))" using parts(4) by (auto simp: addresses_ok_def)
  moreover have "flags_ok ?m (cancellations s)" using parts(5) by (auto simp: flags_ok_def)
  ultimately have "search_inv ?s1" using parts(1) by (simp add: search_inv_def Let_def)
  then have "search_inv (update_cancellation a finish ?s1)" by (rule update_inv) (simp_all add: finish_def)
  moreover have "drop_registration (i, a) s = update_cancellation a finish ?s1" using mi by (simp add: drop_registration_def Let_def)
  ultimately show ?thesis by simp
qed

lemma search_event_inv:
  assumes inv: "search_inv s" and en: "search_enabled s e"
  shows "search_inv (search_event_step e s)"
proof (cases e)
  case (Register i)
  show ?thesis
  proof (cases "register_search (\<lambda>_. []) (Some i) s")
    case (Inr res)
    obtain r s' where res: "res = (r, s')" by (cases res)
    then obtain j a where "r = Some (j, a)"
      using Inr by (auto simp: register_search_def Let_def split: option.splits SearchCancellationEntry.splits prod.splits)
    then show ?thesis using Register Inr res register_inv [OF inv, of "\<lambda>_. []" i j a s'] by simp
  qed (use Register inv in simp)
next
  case (Cancel i)
  then show ?thesis using cancel_inv [OF inv] by simp
next
  case (DropRegistration r)
  then show ?thesis using en drop_inv [OF inv] by (cases r) simp
next
  case (Deadline r)
  have "search_inv (update_cancellation (snd r) cancel_for_deadline s)"
    by (rule update_inv [OF inv]) (simp_all add: cancel_for_deadline_def cancel_def)
  then show ?thesis using Deadline by simp
qed

lemma search_start_inv: "search_inv search_start"
  by (simp add: search_inv_def search_start_def ok_defs Let_def)

interpretation search_registry: component "\<lambda>s. s = search_start" search_step search_inv
  by unfold_locales (auto intro: search_start_inv search_event_inv elim!: search_stepE)

abbreviation search_reachable :: "search_state \<Rightarrow> bool" where
  "search_reachable \<equiv> reachable (\<lambda>s. s = search_start) search_step"

lemma reachable_parts:
  assumes "search_reachable s"
  shows "distinct_keys (entries (registry s))" "active_ok (map_of (entries (registry s))) (registrations s)"
    "queue_ok (map_of (entries (registry s))) (tombstones (registry s))"
    "addresses_ok (map_of (entries (registry s))) (length (cancellations s))"
    "flags_ok (map_of (entries (registry s))) (cancellations s)"
  using search_registry.reachable_invar [OF assms] by (simp_all add: search_inv_def Let_def)

section \<open>Properties\<close>

text \<open>Theorem. Cancelling a running search sets the flag and the signal of its cancellation, and of no other, and
  hands that cancellation to the caller to wait on.\<close>

theorem cancel_reaches_search:
  assumes "search_reachable s" and "(i, a) \<in> set (registrations s)"
  shows "fst (cancel_search i s) = Some a \<and> registry (snd (cancel_search i s)) = registry s
     \<and> cancel_flag (cancellations (snd (cancel_search i s)) ! a) \<and> cancel_signal (cancellations (snd (cancel_search i s)) ! a)
     \<and> (\<forall>b. b \<noteq> a \<longrightarrow> cancellations (snd (cancel_search i s)) ! b = cancellations s ! b)
     \<and> (\<forall>j. (j, a) \<in> set (registrations s) \<longrightarrow> j = i)"
proof -
  have mi: "map_of (entries (registry s)) i = Some (Active a)"
    using reachable_parts(2) [OF assms(1)] assms(2) by (simp add: active_ok_def)
  have a: "a < length (cancellations s)" using address_bound [OF reachable_parts(4) [OF assms(1)] mi] by simp
  have "j = i" if "(j, a) \<in> set (registrations s)" for j
  proof -
    have "map_of (entries (registry s)) j = Some (Active a)"
      using reachable_parts(2) [OF assms(1)] that by (simp add: active_ok_def)
    then show ?thesis using reachable_parts(4) [OF assms(1)] mi unfolding addresses_ok_def by blast
  qed
  then show ?thesis using mi a by (simp add: cancel_search_def update_at cancel_def)
qed

text \<open>Theorem. The registry stays bounded: it has an entry for every running search and at most 256 tombstones. A
  request id is refused exactly while a search with that id is running.\<close>

theorem registry_bounded:
  assumes "search_reachable s"
  shows "length (entries (registry s)) \<le> length (registrations s) + MAX_SEARCH_CANCELLATION_TOMBSTONES
     \<and> (isl (register_search sh (Some i) s) \<longleftrightarrow> i \<in> fst ` set (registrations s))"
proof -
  let ?es = "entries (registry s)"
  note parts = reachable_parts [OF assms]
  have "fst ` set ?es \<subseteq> fst ` set (registrations s) \<union> set (tombstones (registry s))"
  proof
    fix k assume "k \<in> fst ` set ?es"
    then obtain e where "map_of ?es k = Some e" by (auto simp: keys_map_of)
    then show "k \<in> fst ` set (registrations s) \<union> set (tombstones (registry s))"
      using parts(2,3) by (cases e) (force simp: active_ok_def queue_ok_def)+
  qed
  then have "card (fst ` set ?es) \<le> card (fst ` set (registrations s) \<union> set (tombstones (registry s)))"
    by (intro card_mono) auto
  also have "\<dots> \<le> length (registrations s) + length (tombstones (registry s))"
    by (intro le_trans [OF card_Un_le] add_mono card_length) (use card_image_le [of "set (registrations s)" fst] card_length [of "registrations s"] in simp)
  also have "\<dots> \<le> length (registrations s) + MAX_SEARCH_CANCELLATION_TOMBSTONES" using parts(3) by (simp add: queue_ok_def)
  finally have "length ?es \<le> length (registrations s) + MAX_SEARCH_CANCELLATION_TOMBSTONES"
    using parts(1) distinct_card [of "map fst ?es"] by (simp add: distinct_keys_def)
  moreover have "isl (register_search sh (Some i) s) \<longleftrightarrow> (\<exists>a. map_of ?es i = Some (Active a))"
    by (auto simp: register_search_def Let_def split: option.split SearchCancellationEntry.split prod.split)
  moreover have "(\<exists>a. map_of ?es i = Some (Active a)) \<longleftrightarrow> i \<in> fst ` set (registrations s)"
    using parts(2) by (force simp: active_ok_def)
  ultimately show ?thesis by blast
qed

section \<open>Cancellations that arrive first\<close>

definition run_events :: "search_event list \<Rightarrow> search_state \<Rightarrow> search_state" where
  "run_events es s = foldl (\<lambda>s e. search_event_step e s) s es"

fun events_enabled :: "search_event list \<Rightarrow> search_state \<Rightarrow> bool" where
  "events_enabled [] s = True"
| "events_enabled (e # es) s = (search_enabled s e \<and> events_enabled es (search_event_step e s))"

text \<open>The tombstone of \<open>i\<close> is in the queue with at most \<open>n\<close> younger ones.\<close>

definition tomb_young :: "uuid \<Rightarrow> nat \<Rightarrow> search_state \<Rightarrow> bool" where
  "tomb_young i n s \<longleftrightarrow> (\<exists>xs ys. tombstones (registry s) = xs @ i # ys \<and> length ys \<le> n)"

lemma register_queue:
  "register_search sh (Some j) s = Inr (r, s') \<Longrightarrow>
   tombstones (registry s') = filter (\<lambda>k. k \<noteq> j) (tombstones (registry s)) \<or> tombstones (registry s') = tombstones (registry s)"
  by (auto simp: register_search_def Let_def new_cancellation_def split: option.splits SearchCancellationEntry.splits)

lemma drop_queue: "tombstones (registry (drop_registration r s)) = tombstones (registry s)"
  by (cases r) (simp add: drop_registration_def Let_def)

lemma tomb_young_queue:
  "tomb_young i n s \<Longrightarrow> m \<ge> n \<Longrightarrow> tombstones (registry s') = tombstones (registry s) \<Longrightarrow> tomb_young i m s'"
  unfolding tomb_young_def by (metis le_trans)

lemma tomb_young_step:
  assumes inv: "search_inv s" and y: "tomb_young i n s" and e: "e \<noteq> Register i"
    and n: "Suc n < MAX_SEARCH_CANCELLATION_TOMBSTONES"
  shows "tomb_young i (Suc n) (search_event_step e s)"
proof -
  obtain xs ys where q: "tombstones (registry s) = xs @ i # ys" "length ys \<le> n" using y by (auto simp: tomb_young_def)
  show ?thesis
  proof (cases e)
    case (Register j)
    then have "i \<noteq> j" using e by auto
    then have "filter (\<lambda>k. k \<noteq> j) (xs @ i # ys) = filter (\<lambda>k. k \<noteq> j) xs @ i # filter (\<lambda>k. k \<noteq> j) ys" by simp
    moreover have "length (filter (\<lambda>k. k \<noteq> j) ys) \<le> Suc n" using q(2) length_filter_le [of "\<lambda>k. k \<noteq> j" ys] by linarith
    ultimately have "tomb_young i (Suc n) s'" if "tombstones (registry s') = filter (\<lambda>k. k \<noteq> j) (tombstones (registry s))" for s'
      using that q(1) unfolding tomb_young_def by metis
    moreover have "tomb_young i (Suc n) s'" if "tombstones (registry s') = tombstones (registry s)" for s'
      using tomb_young_queue [OF y _ that] by simp
    ultimately show ?thesis using Register register_queue [of "\<lambda>_. []" j s]
      by (auto split: sum.split prod.split)
  next
    case (Cancel j)
    show ?thesis
    proof (cases "map_of (entries (registry s)) j")
      case None
      let ?full = "\<not> length (tombstones (registry s)) < MAX_SEARCH_CANCELLATION_TOMBSTONES"
      have q': "tombstones (registry (snd (cancel_search j s))) =
          (if ?full then tl (tombstones (registry s)) else tombstones (registry s)) @ [j]"
        using cancel_unknown [OF inv None] by simp
      have "xs \<noteq> []" if ?full using that q n by auto
      then have "tombstones (registry (snd (cancel_search j s))) = (if ?full then tl xs else xs) @ i # (ys @ [j])"
        unfolding q' q(1) by auto
      moreover have "length (ys @ [j]) \<le> Suc n" using q(2) by simp
      ultimately have "tomb_young i (Suc n) (snd (cancel_search j s))" unfolding tomb_young_def by blast
      then show ?thesis using Cancel by simp
    qed (use Cancel cancel_known tomb_young_queue [OF y, of "Suc n"] in simp)
  next
    case (DropRegistration r)
    then show ?thesis using tomb_young_queue [OF y, of "Suc n"] by (simp add: drop_queue)
  next
    case (Deadline r)
    then show ?thesis using tomb_young_queue [OF y, of "Suc n"] by simp
  qed
qed

lemma tomb_young_run:
  assumes "search_inv s" and "tomb_young i n s" and "events_enabled es s" and "Register i \<notin> set es"
    and "n + length es < MAX_SEARCH_CANCELLATION_TOMBSTONES"
  shows "search_inv (run_events es s) \<and> tomb_young i (n + length es) (run_events es s)"
  using assms
proof (induction es arbitrary: s n)
  case (Cons e es)
  have "search_inv (search_event_step e s)" using Cons.prems by (auto intro: search_event_inv)
  moreover have "tomb_young i (Suc n) (search_event_step e s)" using Cons.prems by (intro tomb_young_step) auto
  ultimately show ?case using Cons.prems Cons.IH [of "search_event_step e s" "Suc n"] by (simp add: run_events_def)
qed (simp add: run_events_def)

text \<open>Claim C20. A cancellation that arrives before its search is not lost: if fewer than 256 other things happen in
  between, the search starts with its cancellation already set.\<close>

theorem early_cancel_sticks:
  assumes "search_reachable s" and "map_of (entries (registry s)) i = None"
    and "events_enabled es (snd (cancel_search i s))" and "Register i \<notin> set es"
    and "length es < MAX_SEARCH_CANCELLATION_TOMBSTONES"
  shows "\<exists>a s'. register_search sh (Some i) (run_events es (snd (cancel_search i s))) = Inr (Some (i, a), s')
     \<and> cancel_flag (cancellations s' ! a) \<and> cancel_signal (cancellations s' ! a)"
proof -
  let ?s1 = "snd (cancel_search i s)"
  let ?s2 = "run_events es ?s1"
  have s1: "search_inv ?s1" "tomb_young i 0 ?s1"
    using cancel_unknown [OF search_registry.reachable_invar [OF assms(1)] assms(2)] unfolding tomb_young_def by auto
  have s2: "search_inv ?s2" "tomb_young i (length es) ?s2" using tomb_young_run [OF s1 assms(3,4)] assms(5) by simp_all
  then obtain a where a: "map_of (entries (registry ?s2)) i = Some (Tombstone a)"
    by (auto simp: search_inv_def Let_def queue_ok_def tomb_young_def) (metis in_set_conv_decomp)
  then have "cancel_flag (cancellations ?s2 ! a)" "a < length (cancellations ?s2)"
    using s2(1) address_bound [of _ "length (cancellations ?s2)" i "Tombstone a"] by (auto simp: search_inv_def Let_def flags_ok_def)
  moreover from this have "cancel_signal (cancellations ?s2 ! a)" using s2(1) by (auto simp: search_inv_def Let_def flags_ok_def)
  moreover obtain s' where "register_search sh (Some i) ?s2 = Inr (Some (i, a), s')" "cancellations s' = cancellations ?s2"
    using a by (auto simp: register_search_def Let_def)
  ultimately show ?thesis by auto
qed

definition one_search :: search_state where
  "one_search = search_event_step (Register 7) search_start"

lemma one_search_reachable: "search_reachable one_search"
proof -
  have "search_reachable search_start" by (rule reachable_start) simp
  moreover have "search_step search_start one_search" unfolding one_search_def by (rule search_event) simp
  ultimately show ?thesis by (rule reachable_step)
qed

theorem cancel_reaches_search_witness:
  "(7, 0) \<in> set (registrations one_search) \<and> cancel_flag (cancellations (snd (cancel_search 7 one_search)) ! 0)"
proof -
  have "(7, 0) \<in> set (registrations one_search)"
    by (simp add: one_search_def register_search_def search_start_def new_cancellation_def)
  then show ?thesis using cancel_reaches_search [OF one_search_reachable] by blast
qed

theorem registry_bounded_witness:
  "length (entries (registry one_search)) \<le> length (registrations one_search) + MAX_SEARCH_CANCELLATION_TOMBSTONES"
  using registry_bounded [OF one_search_reachable] by simp

theorem early_cancel_sticks_witness:
  "\<exists>a s'. register_search (\<lambda>_. []) (Some 9) (run_events [Cancel 8, Cancel 9] (snd (cancel_search 9 one_search))) = Inr (Some (9, a), s')
     \<and> cancel_flag (cancellations s' ! a) \<and> cancel_signal (cancellations s' ! a)"
  by (rule early_cancel_sticks [OF one_search_reachable])
    (simp_all add: one_search_def register_search_def search_start_def new_cancellation_def
      alist_put_def alist_remove_def MAX_SEARCH_CANCELLATION_TOMBSTONES_def)

end
