(* ===== verification/Query_Routing.thy ===== *)
theory Query_Routing
  imports Complex_Main Chunking "HOL-Library.Char_ord" "HOL-Library.List_Lexorder"
begin

text \<open>
  How a query is read before it is executed: the classification that sets the candidate budgets and decides about
  the neural tier (\<^verbatim>\<open>src/src/search_routing.rs\<close>), and the aliases of query words (\<^verbatim>\<open>src/src/query_aliases.rs\<close>), whose
  tables are generated at build time and are arguments here.

  The theorems show when the neural tier is used, and that the binary search in the alias table is a lookup and the
  phrase search finds exactly the phrases that occur.
\<close>

section \<open>Routing\<close>

datatype QueryIntent = ExactIdentifier | PathIntent | LiteralOrError | NaturalLanguage | DocsTestsExamples | Mixed

fun intent_name :: "QueryIntent \<Rightarrow> string" where
  "intent_name ExactIdentifier = ''exact-identifier''"
| "intent_name PathIntent = ''path-file''"
| "intent_name LiteralOrError = ''literal-error''"
| "intent_name NaturalLanguage = ''natural-language-implementation''"
| "intent_name DocsTestsExamples = ''docs-tests-examples''"
| "intent_name Mixed = ''mixed''"

record QueryRouting =
  intent :: QueryIntent
  use_neural :: bool
  lexical_multiplier :: nat
  literal_multiplier :: nat
  semantic_multiplier :: nat
  symbol_limit :: nat

definition LONG_QUERY_MIN_TERMS :: nat where
  "LONG_QUERY_MIN_TERMS = 13"

text \<open>Every byte of a character outside ASCII separates, which only adds empty pieces.\<close>

definition raw_query_terms :: "string \<Rightarrow> string list" where
  "raw_query_terms query =
     map to_ascii_lowercase (filter (\<lambda>token. token \<noteq> []) (split_on (\<lambda>b. \<not> is_ascii_alphanumeric b) query))"

definition is_long_query :: "string \<Rightarrow> bool" where
  "is_long_query query \<longleftrightarrow> LONG_QUERY_MIN_TERMS \<le> length (raw_query_terms query)"

definition is_prompt_shaped :: "string \<Rightarrow> bool" where
  "is_prompt_shaped query \<longleftrightarrow> newline \<in> set (trim query) \<or> is_long_query query"

text \<open>\<^verbatim>\<open>trim_matches\<close> with a set of ASCII characters.\<close>

definition trim_bytes :: "(char \<Rightarrow> bool) \<Rightarrow> string \<Rightarrow> string" where
  "trim_bytes P s = rev (dropWhile P (rev (dropWhile P s)))"

definition quoting_byte :: "char \<Rightarrow> bool" where
  "quoting_byte b \<longleftrightarrow> b \<in> set [CHR 0x22, CHR 0x27, CHR ''('', CHR '')'', CHR ''['', CHR '']'', CHR '','', CHR '';'']"

text \<open>The word is one path component here, because the text has no slashes when this is evaluated.\<close>

definition word_has_extension :: "string \<Rightarrow> bool" where
  "word_has_extension term =
     (case path_extension (trim_bytes quoting_byte term) of
        None \<Rightarrow> False
      | Some ext \<Rightarrow> 1 \<le> length ext \<and> length ext \<le> 8)"

definition has_path_shape :: "string \<Rightarrow> string list \<Rightarrow> bool" where
  "has_path_shape trimmed terms \<longleftrightarrow>
     newline \<notin> set trimmed \<and> length terms \<le> 8
     \<and> (CHR ''/'' \<in> set trimmed \<or> CHR 0x5C \<in> set trimmed \<or> list_ex word_has_extension (split_whitespace trimmed))"

definition has_literal_shape :: "string \<Rightarrow> bool" where
  "has_literal_shape trimmed \<longleftrightarrow>
     (let lower = to_ascii_lowercase trimmed
      in newline \<in> set trimmed \<or> CHR 0x22 \<in> set trimmed \<or> CHR 0x27 \<in> set trimmed
         \<or> contains_str lower ''error:'' \<or> contains_str lower ''exception'' \<or> contains_str lower ''traceback''
         \<or> contains_str lower ''failed to'')"

definition targets_support :: "string list \<Rightarrow> bool" where
  "targets_support terms \<longleftrightarrow>
     list_ex (\<lambda>term. term \<in> set [''doc'', ''docs'', ''documentation'', ''readme'', ''test'', ''tests'', ''testing'',
       ''example'', ''examples'', ''sample'', ''samples'']) terms"

definition exact_identifier :: "string \<Rightarrow> bool" where
  "exact_identifier trimmed \<longleftrightarrow>
     trimmed \<noteq> [] \<and> \<not> list_ex is_whitespace (chars trimmed)
     \<and> list_all (char_is (\<lambda>b. is_ascii_alphanumeric b \<or> b \<in> set ''_-:.$'')) (chars trimmed)"

definition query_intent :: "string \<Rightarrow> string list \<Rightarrow> QueryIntent" where
  "query_intent trimmed terms =
     (if has_path_shape trimmed terms then PathIntent
      else if has_literal_shape trimmed then LiteralOrError
      else if exact_identifier trimmed then ExactIdentifier
      else if targets_support terms then DocsTestsExamples
      else if LONG_QUERY_MIN_TERMS \<le> length terms then NaturalLanguage
      else Mixed)"

fun routing_for :: "nat \<Rightarrow> QueryIntent \<Rightarrow> QueryRouting" where
  "routing_for n ExactIdentifier = \<lparr>intent = ExactIdentifier, use_neural = False, lexical_multiplier = 8,
     literal_multiplier = 6, semantic_multiplier = 1, symbol_limit = 100\<rparr>"
| "routing_for n PathIntent = \<lparr>intent = PathIntent, use_neural = False, lexical_multiplier = 8,
     literal_multiplier = 5, semantic_multiplier = 1, symbol_limit = 50\<rparr>"
| "routing_for n LiteralOrError = \<lparr>intent = LiteralOrError, use_neural = (LONG_QUERY_MIN_TERMS \<le> n), lexical_multiplier = 10,
     literal_multiplier = 8, semantic_multiplier = 1, symbol_limit = 50\<rparr>"
| "routing_for n NaturalLanguage = \<lparr>intent = NaturalLanguage, use_neural = True, lexical_multiplier = 5,
     literal_multiplier = 4, semantic_multiplier = 1, symbol_limit = 50\<rparr>"
| "routing_for n DocsTestsExamples = \<lparr>intent = DocsTestsExamples, use_neural = True, lexical_multiplier = 5,
     literal_multiplier = 5, semantic_multiplier = 1, symbol_limit = 50\<rparr>"
| "routing_for n Mixed = \<lparr>intent = Mixed, use_neural = True, lexical_multiplier = 5,
     literal_multiplier = 5, semantic_multiplier = 1, symbol_limit = 100\<rparr>"

definition classify :: "string \<Rightarrow> QueryRouting" where
  "classify query =
     (let trimmed = trim query; terms = raw_query_terms trimmed
      in routing_for (length terms) (query_intent trimmed terms))"

definition corpus_candidate_multiplier :: "nat \<Rightarrow> nat" where
  "corpus_candidate_multiplier document_count =
     (if document_count \<le> 50000 then 1 else if document_count \<le> 500000 then 2 else 3)"

text \<open>Finite scores as rational numbers. The rounding of the subtraction does not matter: for a top score of at least
  two the difference is exact unless it is far above the threshold.\<close>

definition neural_fallback_needed :: "QueryRouting \<Rightarrow> bool \<Rightarrow> rat option \<Rightarrow> rat option \<Rightarrow> bool" where
  "neural_fallback_needed routing force_neural top_score runner_up_score =
     (if force_neural then True
      else if \<not> use_neural routing then False
      else case top_score of
             None \<Rightarrow> True
           | Some best \<Rightarrow>
               let score_gap = (case runner_up_score of None \<Rightarrow> best | Some score \<Rightarrow> best - score)
               in best < 2 \<or> score_gap < 1 / 4)"

section \<open>Aliases\<close>

record PhraseAlias =
  pa_terms :: "string list"
  pa_aliases :: "string list"

text \<open>\<^verbatim>\<open>binary_search_by_key\<close> of the standard library: the loop that halves the range, and the comparison at the end.\<close>

function search_base :: "('a \<Rightarrow> string) \<Rightarrow> string \<Rightarrow> 'a list \<Rightarrow> nat \<Rightarrow> nat \<Rightarrow> nat" where
  "search_base key_of key table base width =
     (if 1 < width then
        (let half = width div 2; mid = base + half
         in search_base key_of key table (if key < key_of (table ! mid) then base else mid) (width - half))
      else base)"
  by pat_completeness auto
termination by (relation "measure (\<lambda>(_, _, _, _, width). width)") auto

declare search_base.simps [simp del]

definition binary_search :: "('a \<Rightarrow> string) \<Rightarrow> string \<Rightarrow> 'a list \<Rightarrow> nat option" where
  "binary_search key_of key table =
     (if table = [] then None
      else let i = search_base key_of key table 0 (length table)
           in if key_of (table ! i) = key then Some i else None)"

definition token_aliases :: "(string \<times> string list) list \<Rightarrow> string \<Rightarrow> string list" where
  "token_aliases table token =
     (case binary_search fst token table of None \<Rightarrow> [] | Some i \<Rightarrow> snd (table ! i))"

text \<open>\<^verbatim>\<open>windows\<close>: all runs of \<open>n\<close> consecutive elements.\<close>

fun list_windows :: "nat \<Rightarrow> 'a list \<Rightarrow> 'a list list" where
  "list_windows n xs = (if length xs < n then [] else take n xs # (case xs of [] \<Rightarrow> [] | _ # ys \<Rightarrow> list_windows n ys))"

declare list_windows.simps [simp del]

definition phrase_matches :: "PhraseAlias \<Rightarrow> string list \<Rightarrow> bool" where
  "phrase_matches entry tokens \<longleftrightarrow>
     0 < length (pa_terms entry)
     \<and> list_ex (\<lambda>w. list_all (\<lambda>(token, term). token = term) (zip w (pa_terms entry))) (list_windows (length (pa_terms entry)) tokens)"

definition phrase_aliases :: "PhraseAlias list \<Rightarrow> string list \<Rightarrow> string list" where
  "phrase_aliases table tokens = concat (map pa_aliases (filter (\<lambda>entry. phrase_matches entry tokens) table))"

definition literal_alias :: "PhraseAlias \<Rightarrow> string \<Rightarrow> bool" where
  "literal_alias entry alias \<longleftrightarrow>
     5 \<le> length alias \<or> CHR ''_'' \<in> set alias
     \<or> 3 \<le> length (pa_terms entry) \<and> length alias = 3 \<and> list_all is_ascii_alphanumeric alias"

definition literal_phrase_aliases :: "PhraseAlias list \<Rightarrow> string list \<Rightarrow> string list" where
  "literal_phrase_aliases table tokens =
     concat (map (\<lambda>entry. filter (literal_alias entry) (pa_aliases entry)) (filter (\<lambda>entry. phrase_matches entry tokens) table))"

section \<open>The alias table as a map\<close>

lemma search_base_range:
  assumes "0 < width" and "base + width \<le> length table"
  shows "base \<le> search_base key_of key table base width \<and> search_base key_of key table base width < base + width"
  using assms
proof (induction key_of key table base width rule: search_base.induct)
  case (1 key_of key table base width)
  show ?case
  proof (cases "1 < width")
    case True
    let ?base = "if key < key_of (table ! (base + width div 2)) then base else base + width div 2"
    have "?base \<le> search_base key_of key table ?base (width - width div 2)
        \<and> search_base key_of key table ?base (width - width div 2) < ?base + (width - width div 2)"
      using True "1.prems" by (intro "1.IH") auto
    then show ?thesis using True unfolding search_base.simps [of key_of key table base width]
      by (auto simp: Let_def split: if_splits)
  qed (use "1.prems" in \<open>simp add: search_base.simps [of key_of key table base width]\<close>)
qed

lemma search_base_finds:
  assumes "sorted_wrt (<) (map key_of table)" and "base + width \<le> length table" and "i < length table"
    and "key_of (table ! i) = key" and "base \<le> i" and "i < base + width"
  shows "search_base key_of key table base width = i"
  using assms
proof (induction key_of key table base width rule: search_base.induct)
  case (1 key_of key table base width)
  show ?case
  proof (cases "1 < width")
    case True
    let ?mid = "base + width div 2"
    have mid: "?mid < length table" using True "1.prems"(2) by simp
    have less: "key < key_of (table ! ?mid) \<longleftrightarrow> i < ?mid"
    proof -
      have "i < j \<Longrightarrow> j < length table \<Longrightarrow> key_of (table ! i) < key_of (table ! j)" for i j
        using "1.prems"(1) sorted_wrt_nth_less [of "(<)" "map key_of table" i j] by simp
      then show ?thesis using mid "1.prems"(3,4) by (metis linorder_less_linear order_less_asym order_less_irrefl)
    qed
    have "search_base key_of key table (if key < key_of (table ! ?mid) then base else ?mid) (width - width div 2) = i"
      using True "1.prems" less by (intro "1.IH") auto
    then show ?thesis using True by (simp add: search_base.simps [of key_of key table base width] Let_def)
  next
    case False
    then show ?thesis using "1.prems"(5,6) by (simp add: search_base.simps [of key_of key table base width])
  qed
qed

text \<open>Theorem. In a table with ascending keys the binary search finds exactly the keys that occur, so the aliases of a
  word are what the table lists for it and none for any other word.\<close>

theorem token_aliases_lookup:
  assumes "sorted_wrt (<) (map fst table)"
  shows "token_aliases table token = (case map_of table token of None \<Rightarrow> [] | Some aliases \<Rightarrow> aliases)"
proof (cases "map_of table token")
  case None
  let ?i = "search_base fst token table 0 (length table)"
  have "fst (table ! ?i) \<noteq> token" if "table \<noteq> []"
  proof -
    have "?i < length table" using search_base_range [of "length table" 0 table fst token] that by simp
    then have "fst (table ! ?i) \<in> fst ` set table" by simp
    then show ?thesis using None unfolding map_of_eq_None_iff by metis
  qed
  then show ?thesis using None by (simp add: token_aliases_def binary_search_def Let_def)
next
  case (Some aliases)
  then obtain i where i: "i < length table" "table ! i = (token, aliases)" by (meson in_set_conv_nth map_of_SomeD)
  have "search_base fst token table 0 (length table) = i" using i assms by (intro search_base_finds) auto
  then show ?thesis using i Some by (auto simp: token_aliases_def binary_search_def)
qed

lemma windows_sublist: "length w = n \<Longrightarrow> w \<in> set (list_windows n xs) \<longleftrightarrow> sublist w xs"
proof (induction n xs rule: list_windows.induct)
  case (1 n xs)
  show ?case
  proof (cases xs)
    case Nil
    then show ?thesis using "1.prems" by (auto simp: list_windows.simps)
  next
    case (Cons y ys)
    show ?thesis
    proof (cases "length xs < n")
      case True
      then show ?thesis using "1.prems" sublist_length_le [of w xs] by (auto simp: list_windows.simps)
    next
      case False
      then have "w \<in> set (list_windows n xs) \<longleftrightarrow> w = take n xs \<or> sublist w ys"
        using "1.IH" "1.prems" Cons by (simp add: list_windows.simps [of n "y # ys"])
      moreover have "w = take n xs \<longleftrightarrow> prefix w xs" using "1.prems" False by (metis take_is_prefix prefix_def append_eq_conv_conj)
      ultimately show ?thesis using Cons by (simp add: sublist_Cons_right)
    qed
  qed
qed

lemma windows_length: "w \<in> set (list_windows n xs) \<Longrightarrow> length w = n"
proof (induction n xs rule: list_windows.induct)
  case (1 n xs)
  show ?case
  proof (cases xs)
    case Nil
    then show ?thesis using "1.prems" by (simp add: list_windows.simps [of n "[]"] split: if_splits)
  next
    case (Cons y ys)
    then show ?thesis using 1 by (auto simp: list_windows.simps [of n "y # ys"] split: if_splits)
  qed
qed

lemma phrase_matches_iff: "phrase_matches entry tokens \<longleftrightarrow> pa_terms entry \<noteq> [] \<and> sublist (pa_terms entry) tokens"
proof -
  let ?n = "length (pa_terms entry)"
  have eq: "list_all (\<lambda>(token, term). token = term) (zip w (pa_terms entry)) \<longleftrightarrow> w = pa_terms entry" if "length w = ?n" for w
    using that by (auto simp: list_all_length list_eq_iff_nth_eq)
  show ?thesis
    using windows_length [of _ ?n tokens] eq windows_sublist [of "pa_terms entry" ?n tokens] unfolding phrase_matches_def list_ex_iff by (metis length_greater_0_conv)
qed

text \<open>Theorem. The aliases for phrases are those of the entries whose words occur next to each other in the query, in
  the order of the table; the literal variant keeps the long and the identifier-like ones.\<close>

theorem phrase_aliases_exact:
  "phrase_aliases table tokens =
     concat (map pa_aliases (filter (\<lambda>e. pa_terms e \<noteq> [] \<and> sublist (pa_terms e) tokens) table))
   \<and> subseq (literal_phrase_aliases table tokens) (phrase_aliases table tokens)
   \<and> {alias \<in> set (phrase_aliases table tokens). 5 \<le> length alias} \<subseteq> set (literal_phrase_aliases table tokens)"
proof -
  have "subseq (concat (map (\<lambda>e. filter (literal_alias e) (pa_aliases e)) es)) (concat (map pa_aliases es))" for es
    by (induction es) (auto intro: list_emb_append_mono)
  then show ?thesis
    by (auto simp: phrase_aliases_def literal_phrase_aliases_def phrase_matches_iff literal_alias_def)
qed

text \<open>Theorem. The neural tier is planned for every query that is neither a path, nor a short literal, nor a single
  identifier; in particular for every prompt of at least thirteen words.\<close>

theorem neural_routing_exact:
  "use_neural (classify query) \<longleftrightarrow>
     (let trimmed = trim query; terms = raw_query_terms trimmed
      in \<not> has_path_shape trimmed terms
         \<and> (if has_literal_shape trimmed then 13 \<le> length terms else \<not> exact_identifier trimmed))"
  by (auto simp: classify_def query_intent_def Let_def LONG_QUERY_MIN_TERMS_def)

definition demo_aliases :: "(string \<times> string list) list" where
  "demo_aliases = [(''choose'', [''pick'', ''select'']), (''limit'', [''bound'', ''cap'']), (''storage'', [''store''])]"

theorem token_aliases_lookup_witness: "token_aliases demo_aliases ''limit'' = [''bound'', ''cap'']"
proof -
  have "sorted_wrt (<) (map fst demo_aliases)" by code_simp
  from token_aliases_lookup [OF this] show ?thesis by (simp add: demo_aliases_def)
qed

end
