(* ===== verification/Presentation.thy ===== *)
theory Presentation
  imports Query_Routing Code_Lines Search_Batches
begin

text \<open>
  What a search hit shows of its file (\<^verbatim>\<open>src/src/search_presentation.rs\<close>): the spans of the lines, the line in the
  chunk that fits the query best, the snippet around it and the reason. An index that is out of bounds, where the
  code panics, is the result \<open>None\<close>. The names that a chunk defines come from the symbol extraction and are an
  argument. Line scores are counted in halves: the sums of multiples of one half that the code forms in \<^verbatim>\<open>f32\<close> are exact.

  The theorems show that the spans are the lines of the text, and that a hit is always produced and shows exactly the
  lines from its first to its last line number, which surround the focus line.
\<close>

section \<open>Lines\<close>

record LineSpan =
  span_start :: nat
  span_end :: nat

fun spans_loop :: "string \<Rightarrow> nat \<Rightarrow> nat \<Rightarrow> string \<Rightarrow> LineSpan list" where
  "spans_loop content index start [] =
     (if start < length content then [\<lparr>span_start = start, span_end = length content\<rparr>] else [])"
| "spans_loop content index start (b # rest) =
     (if b \<noteq> newline then spans_loop content (Suc index) start rest
      else let e = (if start < index \<and> content ! (index - 1) = CHR 0x0D then index - 1 else index)
           in \<lparr>span_start = start, span_end = e\<rparr> # spans_loop content (Suc index) (Suc index) rest)"

definition line_spans :: "string \<Rightarrow> LineSpan list" where
  "line_spans content = spans_loop content 0 0 content"

definition span_text :: "string \<Rightarrow> LineSpan \<Rightarrow> string" where
  "span_text content sp = slice_of content (span_start sp) (span_end sp)"

definition line_at :: "string \<Rightarrow> LineSpan list \<Rightarrow> nat \<Rightarrow> string option" where
  "line_at content lines n = (if n - 1 < length lines then Some (span_text content (lines ! (n - 1))) else None)"

definition preview_from_lines :: "string \<Rightarrow> LineSpan list \<Rightarrow> nat \<Rightarrow> nat \<Rightarrow> string option" where
  "preview_from_lines content lines s e =
     (if s - 1 \<le> e \<and> e \<le> length lines then Some (join_lines (map (span_text content) (slice_of lines (s - 1) e))) else None)"

definition snippet_bounds :: "nat \<Rightarrow> nat \<Rightarrow> nat \<Rightarrow> nat \<times> nat" where
  "snippet_bounds focus_line context_lines line_count =
     (max (focus_line - context_lines) 1, min (focus_line + context_lines) line_count)"

section \<open>The query and the chunk\<close>

record PresentationQuery =
  pq_text :: string
  pq_lower :: string
  pq_compact :: string
  pq_compact_matching :: bool
  pq_tokens :: "string list"

record IndexedChunk =
  ic_id :: string
  ic_path :: pathbuf
  ic_start :: nat
  ic_end :: nat
  ic_language :: string
  ic_kind :: string
  ic_text :: string
  ic_hash :: string
  ic_key :: nat
  ic_ignored :: bool
  ic_definitions :: "ChunkDefinition list option"

record HitPresentation =
  hp_context_lines :: nat
  hp_query :: PresentationQuery
  hp_routing :: QueryRouting
  hp_neural_executed :: bool

record HitDisplay =
  hd_start :: nat
  hd_end :: nat
  hd_preview :: string

record PreparedHit =
  ph_hit :: SearchHit
  ph_display :: "HitDisplay option"

definition into_hit :: "PreparedHit \<Rightarrow> SearchHit" where
  "into_hit p =
     (case ph_display p of
        None \<Rightarrow> ph_hit p
      | Some d \<Rightarrow> (ph_hit p)\<lparr>hit_start := hd_start d, hit_end := hd_end d, preview := hd_preview d\<rparr>)"

definition compact_identifier :: "string \<Rightarrow> string" where
  "compact_identifier input = map to_ascii_lowercase_byte (filter is_ascii_alphanumeric input)"

definition should_use_compact_identifier_matching :: "string \<Rightarrow> string list \<Rightarrow> bool" where
  "should_use_compact_identifier_matching query_text primary_tokens \<longleftrightarrow>
     length primary_tokens \<le> 2 \<or> list_ex (\<lambda>b. b \<in> set ''_-/:'' \<or> is_ascii_uppercase b) query_text"

text \<open>The query of the fusion stage has the trimmed text, its lower-case and compact form and the expanded words.\<close>

definition presentation_query :: "string \<Rightarrow> bool \<Rightarrow> string list \<Rightarrow> PresentationQuery" where
  "presentation_query txt compact_candidate_text tokens =
     \<lparr>pq_text = txt, pq_lower = to_ascii_lowercase txt, pq_compact = singularize_token (compact_identifier txt),
      pq_compact_matching = compact_candidate_text, pq_tokens = tokens\<rparr>"

definition is_definition_kind :: "string \<Rightarrow> bool" where
  "is_definition_kind kind \<longleftrightarrow>
     kind \<in> set [''Function'', ''function'', ''Class'', ''class'', ''Struct'', ''struct'', ''Trait'', ''trait'',
       ''Interface'', ''interface'', ''Impl'', ''impl'', ''Enum'', ''enum'', ''Module'', ''module'']"

definition truncate_for_reason :: "string \<Rightarrow> string" where
  "truncate_for_reason line =
     (if length (chars line) \<le> 120 then line else concat (take 120 (chars line)) @ ''...'')"

section \<open>The focus line\<close>

fun first_definition_loop :: "string \<Rightarrow> LineSpan list \<Rightarrow> bool \<Rightarrow> nat list \<Rightarrow> nat option option" where
  "first_definition_loop content lines in_block [] = Some None"
| "first_definition_loop content lines in_block (n # ns) =
     Option.bind (line_at content lines n) (\<lambda>raw.
       let line = trim raw
       in if in_block then first_definition_loop content lines (\<not> contains_str line ''*/'') ns
          else if starts_with line ''/*'' then first_definition_loop content lines (\<not> contains_str line ''*/'') ns
          else if line = [] \<or> starts_with line ''//'' \<or> starts_with line ''#'' \<or> starts_with line ''@'' \<or> starts_with line ''*''
               \<or> starts_with line ''['' \<and> ends_with line '']''
          then first_definition_loop content lines False ns
          else Some (Some n))"

definition first_source_definition_line :: "string \<Rightarrow> LineSpan list \<Rightarrow> nat \<Rightarrow> nat \<Rightarrow> nat option option" where
  "first_source_definition_line content lines win_start win_end =
     first_definition_loop content lines False [win_start..<Suc win_end]"

text \<open>The score of a line, in halves.\<close>

definition line_score :: "PresentationQuery \<Rightarrow> string \<Rightarrow> nat" where
  "line_score q line =
     (let lower = to_ascii_lowercase line
      in (if contains_str line (pq_text q) then 16 else if contains_str lower (pq_lower q) then 10 else 0)
         + 3 * length (filter (contains_str lower) (pq_tokens q))
         + (if pq_compact_matching q \<and> pq_compact q \<noteq> [] \<and> contains_str (compact_identifier line) (pq_compact q) then 6 else 0))"

fun best_line_loop :: "PresentationQuery \<Rightarrow> string \<Rightarrow> LineSpan list \<Rightarrow> nat \<times> nat \<Rightarrow> nat list \<Rightarrow> nat option" where
  "best_line_loop q content lines (best, best_score) [] = Some best"
| "best_line_loop q content lines (best, best_score) (n # ns) =
     Option.bind (line_at content lines n) (\<lambda>line.
       best_line_loop q content lines
         (if best_score < line_score q line then (n, line_score q line) else (best, best_score)) ns)"

definition symbol_name :: "string \<Rightarrow> string" where
  "symbol_name txt =
     (case filter (\<lambda>p. p \<noteq> []) (rev (split_on (\<lambda>b. b \<in> set [CHR '':'', CHR 0x5C, CHR ''.'', CHR ''/'', CHR ''#'']) txt)) of
        [] \<Rightarrow> txt
      | p # _ \<Rightarrow> p)"

text \<open>\<open>names_it c name\<close>: whether the chunk defines exactly this name.\<close>

definition find_focus_line ::
    "(IndexedChunk \<Rightarrow> string \<Rightarrow> bool) \<Rightarrow> IndexedChunk \<Rightarrow> PresentationQuery \<Rightarrow> string \<Rightarrow> LineSpan list \<Rightarrow> nat option" where
  "find_focus_line names_it chunk q content lines =
     (let line_count = length lines;
          win_start = min (max (ic_start chunk) 1) line_count;
          win_end = min (max (ic_end chunk) win_start) line_count
      in if pq_text q = [] then Some win_start
         else
           Option.bind
             (if is_definition_kind (ic_kind chunk)
                 \<and> (names_it chunk (pq_text q) \<or> names_it chunk (symbol_name (pq_text q)))
              then first_source_definition_line content lines win_start win_end else Some None)
             (\<lambda>found. case found of
                Some line \<Rightarrow> Some line
              | None \<Rightarrow> best_line_loop q content lines (win_start, 0) [win_start..<Suc win_end]))"

fun matching_token :: "string \<Rightarrow> string list \<Rightarrow> string option" where
  "matching_token lower [] = None"
| "matching_token lower (token # tokens) = (if contains_str lower token then Some token else matching_token lower tokens)"

definition summarize_reason :: "PresentationQuery \<Rightarrow> string \<Rightarrow> string" where
  "summarize_reason q focus_line =
     (let focus = trim focus_line; lower = to_ascii_lowercase focus
      in if focus = [] then ''top hybrid relevance in this file''
         else if pq_text q \<noteq> [] \<and> (contains_str focus (pq_text q) \<or> contains_str lower (pq_lower q))
         then ''line contains query terms: '' @ truncate_for_reason focus
         else case (if pq_text q \<noteq> [] then matching_token lower (pq_tokens q) else None) of
                Some token \<Rightarrow> ''line matches token `'' @ token @ ''`: '' @ truncate_for_reason focus
              | None \<Rightarrow> ''top-ranked pointer: '' @ truncate_for_reason focus)"

section \<open>Hits\<close>

definition bool_text :: "bool \<Rightarrow> string" where
  "bool_text b = (if b then ''true'' else ''false'')"

definition route_text :: "QueryRouting \<Rightarrow> bool \<Rightarrow> string" where
  "route_text routing executed =
     ''route='' @ intent_name (intent routing) @ '' neural_requested='' @ bool_text (use_neural routing)
     @ '' neural_executed='' @ bool_text executed @ ''; ''"

definition search_hit ::
    "IndexedChunk \<Rightarrow> f32 \<Rightarrow> string list \<Rightarrow> HitPresentation \<Rightarrow> nat \<Rightarrow> nat \<Rightarrow> string \<Rightarrow> string \<Rightarrow> SearchHit" where
  "search_hit chunk sc srcs p s e pre rsn =
     \<lparr>hit_path = ic_path chunk, hit_start = s, hit_end = e, preview = pre,
      reason = route_text (hp_routing p) (hp_neural_executed p) @ rsn, score = sc, sources = srcs,
      neural_requested = use_neural (hp_routing p), neural_executed = hp_neural_executed p\<rparr>"

definition to_hit_from_file ::
    "(IndexedChunk \<Rightarrow> string \<Rightarrow> bool) \<Rightarrow> IndexedChunk \<Rightarrow> f32 \<Rightarrow> string list \<Rightarrow> string \<Rightarrow> LineSpan list \<Rightarrow> HitPresentation
       \<Rightarrow> nat option \<Rightarrow> PreparedHit option" where
  "to_hit_from_file names_it chunk sc srcs content lines p ranking_context =
     (if lines = [] then
        Some \<lparr>ph_hit = search_hit chunk sc srcs p (ic_start chunk) (ic_start chunk) [] ''empty file'', ph_display = None\<rparr>
      else
        Option.bind (find_focus_line names_it chunk (hp_query p) content lines) (\<lambda>focus_line.
          let context_lines = hp_context_lines p;
              evidence_context = (case ranking_context of None \<Rightarrow> context_lines | Some n \<Rightarrow> n);
              (s, e) = snippet_bounds focus_line evidence_context (length lines)
          in Option.bind (preview_from_lines content lines s e) (\<lambda>pre.
             Option.bind
               (if evidence_context \<noteq> context_lines then
                  (let (s', e') = snippet_bounds focus_line context_lines (length lines)
                   in map_option (\<lambda>pre'. Some \<lparr>hd_start = s', hd_end = e', hd_preview = pre'\<rparr>) (preview_from_lines content lines s' e'))
                else Some None) (\<lambda>display.
             Option.bind (line_at content lines focus_line) (\<lambda>focus.
               Some \<lparr>ph_hit = search_hit chunk sc srcs p s e pre (summarize_reason (hp_query p) focus), ph_display = display\<rparr>)))))"

text \<open>\<open>file\<close> is the text of the file and its lines, if it could be read.\<close>

definition prepare_hit ::
    "(IndexedChunk \<Rightarrow> string \<Rightarrow> bool) \<Rightarrow> IndexedChunk \<Rightarrow> f32 \<Rightarrow> string list \<Rightarrow> (string \<times> LineSpan list) option \<Rightarrow> HitPresentation
       \<Rightarrow> nat option \<Rightarrow> PreparedHit option" where
  "prepare_hit names_it chunk sc srcs file p ranking_context =
     (case file of
        Some (content, lines) \<Rightarrow> to_hit_from_file names_it chunk sc srcs content lines p ranking_context
      | None \<Rightarrow>
          Some \<lparr>ph_hit = search_hit chunk sc srcs p (ic_start chunk) (ic_end chunk)
                  (strip_chunk_header (ic_text chunk) (path_text (ic_path chunk))) ''live file unavailable; using indexed text'',
                ph_display = None\<rparr>)"

section \<open>The spans are the lines\<close>

lemma strip_line_end_newline:
  "strip_line_end (cur @ [newline]) = (if cur \<noteq> [] \<and> last cur = CHR 0x0D then butlast cur else cur)"
proof -
  have "strip_suffix (cur @ [newline]) [newline] = Some cur" by (simp add: strip_suffix_Some)
  moreover have "strip_suffix cur [CHR 0x0D] = (if cur \<noteq> [] \<and> last cur = CHR 0x0D then Some (butlast cur) else None)"
    by (cases cur rule: rev_cases) (auto simp: strip_suffix_def)
  ultimately show ?thesis by (simp add: strip_line_end_def)
qed

lemma strip_line_end_plain: "newline \<notin> set cur \<Longrightarrow> strip_line_end cur = cur"
  by (auto simp: strip_line_end_def strip_suffix_def suffix_def split: option.splits)

lemma spans_loop_lines:
  assumes "content = pre @ cur @ rest" and "newline \<notin> set cur"
  shows "map (span_text content) (spans_loop content (length (pre @ cur)) (length pre) rest)
    = map strip_line_end (split_inclusive newline (cur @ rest))"
  using assms
proof (induction rest arbitrary: pre cur)
  case Nil
  then show ?case by (simp add: split_inclusive_no_sep strip_line_end_plain span_text_def slice_of_def)
next
  case (Cons b rest)
  show ?case
  proof (cases "b = newline")
    case True
    have "map (span_text content) (spans_loop content (length ((pre @ cur @ [b]) @ [])) (length (pre @ cur @ [b])) rest)
        = map strip_line_end (split_inclusive newline ([] @ rest))"
      using Cons.prems by (intro Cons.IH) auto
    moreover have "span_text content \<lparr>span_start = length pre,
        span_end = (if length pre < length (pre @ cur) \<and> content ! (length (pre @ cur) - 1) = CHR 0x0D
          then length (pre @ cur) - 1 else length (pre @ cur))\<rparr> = strip_line_end (cur @ [newline])"
    proof (cases cur rule: rev_cases)
      case (snoc c d)
      then show ?thesis using Cons.prems strip_line_end_newline [of "c @ [d]"]
        by (auto simp: span_text_def slice_of_def nth_append)
    qed (use Cons.prems strip_line_end_newline [of "[]"] in \<open>simp add: span_text_def slice_of_def\<close>)
    ultimately show ?thesis using True Cons.prems(2) by (auto simp: split_inclusive_sep Let_def split: if_splits)
  next
    case False
    have "map (span_text content) (spans_loop content (length (pre @ cur @ [b])) (length pre) rest)
        = map strip_line_end (split_inclusive newline ((cur @ [b]) @ rest))"
      using Cons.prems False by (intro Cons.IH) auto
    then show ?thesis using False by simp
  qed
qed

lemma line_spans_texts: "map (span_text content) (line_spans content) = rust_lines content"
  using spans_loop_lines [of content "[]" "[]" content] by (simp add: line_spans_def rust_lines_def)

lemma line_spans_length: "length (line_spans content) = length (rust_lines content)"
  by (metis length_map line_spans_texts)

text \<open>Theorem. The spans of a text are its lines as the standard library splits them: without the line feed, without a
  carriage return before it, and with a last line that has no line feed.\<close>

theorem line_spans_are_lines: "map (span_text content) (line_spans content) = rust_lines content"
  by (rule line_spans_texts)

section \<open>A hit shows the lines it names\<close>

lemma line_at_Some: "1 \<le> n \<Longrightarrow> n \<le> length lines \<Longrightarrow> line_at content lines n = Some (span_text content (lines ! (n - 1)))"
  by (auto simp: line_at_def)

lemma first_definition_total:
  assumes "\<forall>n\<in>set ns. 1 \<le> n \<and> n \<le> length lines"
  shows "\<exists>r. first_definition_loop content lines in_block ns = Some r \<and> (\<forall>n. r = Some n \<longrightarrow> n \<in> set ns)"
  using assms
proof (induction ns arbitrary: in_block)
  case (Cons n ns)
  have "\<exists>r. first_definition_loop content lines blk ns = Some r \<and> (\<forall>k. r = Some k \<longrightarrow> k \<in> set (n # ns))" for blk
    using Cons.IH [of blk] Cons.prems by auto
  then show ?case using Cons.prems line_at_Some [of n lines content] by (auto simp: Let_def)
qed simp

lemma best_line_total:
  assumes "\<forall>n\<in>set ns. 1 \<le> n \<and> n \<le> length lines"
  shows "\<exists>r. best_line_loop q content lines (best, best_score) ns = Some r \<and> r \<in> insert best (set ns)"
  using assms
proof (induction ns arbitrary: best best_score)
  case (Cons n ns)
  have "\<exists>r. best_line_loop q content lines p ns = Some r \<and> r \<in> insert (fst p) (set ns)" for p
    using Cons.IH [of "fst p" "snd p"] Cons.prems by auto
  from this [of "if best_score < line_score q (span_text content (lines ! (n - 1)))
      then (n, line_score q (span_text content (lines ! (n - 1)))) else (best, best_score)"]
  show ?case using Cons.prems line_at_Some [of n lines content] by (auto split: if_splits)
qed simp

text \<open>The focus line is a line of the chunk's window, which is cut to the file.\<close>

lemma focus_line_total:
  fixes chunk :: IndexedChunk
  assumes "lines \<noteq> []"
  defines "lo \<equiv> min (max (ic_start chunk) 1) (length lines)"
  shows "\<exists>f. find_focus_line names_it chunk q content lines = Some f
     \<and> lo \<le> f \<and> f \<le> min (max (ic_end chunk) lo) (length lines) \<and> 1 \<le> f"
proof -
  let ?hi = "min (max (ic_end chunk) lo) (length lines)"
  have lo: "1 \<le> lo" "lo \<le> ?hi" "?hi \<le> length lines" using assms by (auto simp: lo_def Suc_le_eq)
  have window: "\<forall>n\<in>set [lo..<Suc ?hi]. 1 \<le> n \<and> n \<le> length lines" using lo by auto
  obtain r where r: "first_source_definition_line content lines lo ?hi = Some r" "\<forall>n. r = Some n \<longrightarrow> n \<in> set [lo..<Suc ?hi]"
    using first_definition_total [OF window] unfolding first_source_definition_line_def by blast
  obtain b where b: "best_line_loop q content lines (lo, 0) [lo..<Suc ?hi] = Some b" "b \<in> insert lo (set [lo..<Suc ?hi])"
    using best_line_total [OF window] by blast
  have b': "lo \<le> b" "b \<le> ?hi" using b(2) lo by auto
  let ?found = "if is_definition_kind (ic_kind chunk) \<and> (names_it chunk (pq_text q) \<or> names_it chunk (symbol_name (pq_text q)))
      then Some r else Some None"
  have "find_focus_line names_it chunk q content lines =
      (if pq_text q = [] then Some lo else Option.bind ?found (\<lambda>found. case found of Some line \<Rightarrow> Some line | None \<Rightarrow> Some b))"
    unfolding find_focus_line_def Let_def lo_def [symmetric] r(1) b(1) by (rule refl)
  moreover have "lo \<le> n \<and> n \<le> ?hi" if "r = Some n" for n using r(2) that lo(2) by auto
  ultimately show ?thesis using lo b' by (cases r) auto
qed

lemma snippet_bounds_around:
  assumes "1 \<le> f" and "f \<le> n"
  shows "1 \<le> fst (snippet_bounds f c n) \<and> fst (snippet_bounds f c n) \<le> f \<and> f \<le> snd (snippet_bounds f c n)
     \<and> snd (snippet_bounds f c n) \<le> n"
  using assms by (auto simp: snippet_bounds_def)

lemma preview_exact:
  assumes "1 \<le> s" and "s \<le> e" and "e \<le> length (line_spans content)"
  shows "preview_from_lines content (line_spans content) s e = Some (join_lines (line_range (rust_lines content) s e))"
proof -
  have "map (span_text content) (slice_of (line_spans content) (s - 1) e) = slice_of (rust_lines content) (s - 1) e"
    unfolding line_spans_texts [symmetric] slice_of_def by (simp add: take_map drop_map)
  then show ?thesis using assms by (simp add: preview_from_lines_def)
qed

text \<open>Theorem. For every file that is not empty a hit is produced, whatever the chunk, the query and the contexts: the
  line numbers it shows are lines of the file, its text is exactly these lines, and they are the focus line, which is
  inside the chunk as far as the file still has its lines, with the requested number of lines before and after it.\<close>

theorem hit_shows_its_lines:
  assumes "rust_lines content \<noteq> []"
  shows "\<exists>p f. prepare_hit names_it chunk sc srcs (Some (content, line_spans content)) pres ranking = Some p
     \<and> min (max (ic_start chunk) 1) (length (rust_lines content)) \<le> f
     \<and> f \<le> length (rust_lines content)
     \<and> hit_start (into_hit p) = max (f - hp_context_lines pres) 1
     \<and> hit_end (into_hit p) = min (f + hp_context_lines pres) (length (rust_lines content))
     \<and> 1 \<le> hit_start (into_hit p) \<and> hit_start (into_hit p) \<le> hit_end (into_hit p)
     \<and> preview (into_hit p) = join_lines (line_range (rust_lines content) (hit_start (into_hit p)) (hit_end (into_hit p)))"
proof -
  let ?lines = "line_spans content"
  let ?n = "length (rust_lines content)"
  have nonempty: "?lines \<noteq> []" using assms line_spans_length [of content] by auto
  obtain f where f: "find_focus_line names_it chunk (hp_query pres) content ?lines = Some f"
      "min (max (ic_start chunk) 1) ?n \<le> f" "f \<le> ?n" "1 \<le> f"
    using focus_line_total [OF nonempty, of names_it chunk "hp_query pres" content] by (auto simp: line_spans_length)
  obtain s e where se: "snippet_bounds f (hp_context_lines pres) ?n = (s, e)" by fastforce
  let ?ctx = "case ranking of None \<Rightarrow> hp_context_lines pres | Some c \<Rightarrow> c"
  obtain s' e' where se': "snippet_bounds f ?ctx ?n = (s', e')" by fastforce
  have bounds: "1 \<le> s" "s \<le> e" "e \<le> ?n" "1 \<le> s'" "s' \<le> e'" "e' \<le> ?n"
    using snippet_bounds_around [OF f(4,3), of "hp_context_lines pres"] snippet_bounds_around [OF f(4,3), of ?ctx] se se' by auto
  have pre: "preview_from_lines content ?lines s e = Some (join_lines (line_range (rust_lines content) s e))"
      "preview_from_lines content ?lines s' e' = Some (join_lines (line_range (rust_lines content) s' e'))"
    using bounds by (simp_all add: preview_exact line_spans_length)
  have focus: "line_at content ?lines f = Some (span_text content (?lines ! (f - 1)))"
    using f(3,4) by (intro line_at_Some) (simp_all add: line_spans_length)
  define display where "display = (if ?ctx \<noteq> hp_context_lines pres
      then Some \<lparr>hd_start = s, hd_end = e, hd_preview = join_lines (line_range (rust_lines content) s e)\<rparr> else None)"
  define p where "p = \<lparr>ph_hit = search_hit chunk sc srcs pres s' e' (join_lines (line_range (rust_lines content) s' e'))
      (summarize_reason (hp_query pres) (span_text content (?lines ! (f - 1)))), ph_display = display\<rparr>"
  have "prepare_hit names_it chunk sc srcs (Some (content, ?lines)) pres ranking = Some p"
    using nonempty f(1) se se' pre focus
    by (simp add: prepare_hit_def to_hit_from_file_def line_spans_length p_def display_def)
  moreover have "hit_start (into_hit p) = s" "hit_end (into_hit p) = e"
      "preview (into_hit p) = join_lines (line_range (rust_lines content) s e)"
    using se se' by (auto simp: into_hit_def p_def display_def search_hit_def)
  moreover have "s = max (f - hp_context_lines pres) 1" "e = min (f + hp_context_lines pres) ?n"
    using se by (simp_all add: snippet_bounds_def)
  ultimately show ?thesis using bounds f(2,3) by metis
qed

definition demo_chunk :: IndexedChunk where
  "demo_chunk = \<lparr>ic_id = [], ic_path = [], ic_start = 1, ic_end = 9, ic_language = ''rust'', ic_kind = ''Text'', ic_text = [],
     ic_hash = [], ic_key = 0, ic_ignored = False, ic_definitions = None\<rparr>"

theorem hit_shows_its_lines_witness:
  "\<exists>p. prepare_hit (\<lambda>_ _. False) demo_chunk 0 [] (Some (''ab'', line_spans ''ab''))
      \<lparr>hp_context_lines = 2, hp_query = presentation_query ''b'' True [''b''], hp_routing = classify ''b'', hp_neural_executed = False\<rparr> (Some 0)
      = Some p \<and> hit_start (into_hit p) = 1 \<and> hit_end (into_hit p) = 1"
proof -
  have "rust_lines ''ab'' \<noteq> []" by code_simp
  from hit_shows_its_lines [OF this, of "\<lambda>_ _. False" demo_chunk 0 "[]"
      "\<lparr>hp_context_lines = 2, hp_query = presentation_query ''b'' True [''b''], hp_routing = classify ''b'', hp_neural_executed = False\<rparr>" "Some 0"]
  obtain p f where p: "prepare_hit (\<lambda>_ _. False) demo_chunk 0 [] (Some (''ab'', line_spans ''ab''))
      \<lparr>hp_context_lines = 2, hp_query = presentation_query ''b'' True [''b''], hp_routing = classify ''b'', hp_neural_executed = False\<rparr> (Some 0)
      = Some p" "f \<le> length (rust_lines ''ab'')" "hit_start (into_hit p) = max (f - 2) 1"
      "hit_end (into_hit p) = min (f + 2) (length (rust_lines ''ab''))"
    by auto
  moreover have "length (rust_lines ''ab'') = 1" by code_simp
  ultimately show ?thesis by auto
qed

end
