(* ===== verification/Byte_Caches.thy ===== *)
theory Byte_Caches
  imports Presentation
begin

text \<open>
  Caches bounded by bytes and by entries: \<^verbatim>\<open>ByteCache\<close> of \<^verbatim>\<open>src/src/byte_cache.rs\<close>, the cache of file contents of
  \<^verbatim>\<open>src/src/search_file_cache.rs\<close>, and the cache of query results of \<^verbatim>\<open>src/src/daemon.rs\<close>.

  The map in least-recently-used order is the \<^verbatim>\<open>LruCache\<close> of a library: its operations are a record of functions, and
  \<open>lru_ok\<close> says what the code relies on, in terms of the list of its entries from the most recently used on. Both
  caches keep the count of bytes as the sum of the costs of the entries, so that the subtraction never fails and the
  eviction loop ends.
\<close>

section \<open>The map of the library\<close>

record ('c, 'k, 'v) lru_ops =
  lru_new :: "nat \<Rightarrow> 'c"
  lru_get :: "'k \<Rightarrow> 'c \<Rightarrow> 'v option \<times> 'c"
  lru_pop :: "'k \<Rightarrow> 'c \<Rightarrow> 'v option \<times> 'c"
  lru_pop_lru :: "'c \<Rightarrow> ('k \<times> 'v) option \<times> 'c"
  lru_push :: "'k \<Rightarrow> 'v \<Rightarrow> 'c \<Rightarrow> ('k \<times> 'v) option \<times> 'c"
  lru_iter :: "'c \<Rightarrow> ('k \<times> 'v) list"

text \<open>The documented behaviour: \<open>lru_iter\<close> lists the entries from the most to the least recently used, \<open>cap\<close> is the
  capacity. A push of a new key into a full map returns the entry it drops, a push of a known key its old value.\<close>

definition lru_ok :: "('c, 'k, 'v) lru_ops \<Rightarrow> ('c \<Rightarrow> nat) \<Rightarrow> bool" where
  "lru_ok ops cap \<longleftrightarrow>
     (\<forall>n. lru_iter ops (lru_new ops n) = [] \<and> cap (lru_new ops n) = n)
     \<and> (\<forall>c k. fst (lru_get ops k c) = map_of (lru_iter ops c) k
          \<and> lru_iter ops (snd (lru_get ops k c)) =
              (case map_of (lru_iter ops c) k of None \<Rightarrow> lru_iter ops c | Some v \<Rightarrow> alist_put k v (lru_iter ops c))
          \<and> cap (snd (lru_get ops k c)) = cap c)
     \<and> (\<forall>c k. fst (lru_pop ops k c) = map_of (lru_iter ops c) k
          \<and> lru_iter ops (snd (lru_pop ops k c)) = alist_remove k (lru_iter ops c) \<and> cap (snd (lru_pop ops k c)) = cap c)
     \<and> (\<forall>c. (lru_iter ops c = [] \<longrightarrow> lru_pop_lru ops c = (None, c))
          \<and> (lru_iter ops c \<noteq> [] \<longrightarrow> fst (lru_pop_lru ops c) = Some (last (lru_iter ops c))
               \<and> lru_iter ops (snd (lru_pop_lru ops c)) = butlast (lru_iter ops c))
          \<and> cap (snd (lru_pop_lru ops c)) = cap c)
     \<and> (\<forall>c k v. cap (snd (lru_push ops k v c)) = cap c
          \<and> (case map_of (lru_iter ops c) k of
               Some old \<Rightarrow> fst (lru_push ops k v c) = Some (k, old) \<and> lru_iter ops (snd (lru_push ops k v c)) = alist_put k v (lru_iter ops c)
             | None \<Rightarrow>
                 if length (lru_iter ops c) < cap c
                 then fst (lru_push ops k v c) = None \<and> lru_iter ops (snd (lru_push ops k v c)) = (k, v) # lru_iter ops c
                 else fst (lru_push ops k v c) = Some (last (lru_iter ops c))
                   \<and> lru_iter ops (snd (lru_push ops k v c)) = (k, v) # butlast (lru_iter ops c)))"

section \<open>Entries and a count of bytes\<close>

text \<open>Both caches have the same fields; they differ in where the cost of an entry comes from and in the order of
  eviction and insertion. \<open>cost\<close> is the number of bytes an entry is charged with.\<close>

record 'c byte_bounded =
  bc_entries :: 'c
  bc_bytes :: nat
  bc_max :: nat

text \<open>Subtracting more than there is: \<open>None\<close>.\<close>

definition release_bytes :: "nat \<Rightarrow> 'c byte_bounded \<Rightarrow> 'c byte_bounded option" where
  "release_bytes removed b = (if bc_bytes b < removed then None else Some (b\<lparr>bc_bytes := bc_bytes b - removed\<rparr>))"

definition remove_entry :: "('c, 'k, 'v) lru_ops \<Rightarrow> ('k \<Rightarrow> 'v \<Rightarrow> nat) \<Rightarrow> 'k \<Rightarrow> 'c byte_bounded \<Rightarrow> 'c byte_bounded option" where
  "remove_entry ops cost k b =
     (case lru_pop ops k (bc_entries b) of
        (None, c) \<Rightarrow> Some (b\<lparr>bc_entries := c\<rparr>)
      | (Some v, c) \<Rightarrow> release_bytes (cost k v) (b\<lparr>bc_entries := c\<rparr>))"

text \<open>The eviction loop: \<open>None\<close> when it does not end, or a subtraction fails.\<close>

partial_function (option) evict ::
    "('c, 'k, 'v) lru_ops \<Rightarrow> ('k \<Rightarrow> 'v \<Rightarrow> nat) \<Rightarrow> nat \<Rightarrow> 'c byte_bounded \<Rightarrow> 'c byte_bounded option" where
  "evict ops cost limit b =
     (if limit < bc_bytes b then
        (case lru_pop_lru ops (bc_entries b) of
           (None, c) \<Rightarrow> evict ops cost limit (b\<lparr>bc_entries := c\<rparr>)
         | (Some (k, v), c) \<Rightarrow> Option.bind (release_bytes (cost k v) (b\<lparr>bc_entries := c\<rparr>)) (evict ops cost limit))
      else Some b)"

declare evict.simps [code]

definition push_entry ::
    "('c, 'k, 'v) lru_ops \<Rightarrow> ('k \<Rightarrow> 'v \<Rightarrow> nat) \<Rightarrow> 'k \<Rightarrow> 'v \<Rightarrow> 'c byte_bounded \<Rightarrow> 'c byte_bounded option" where
  "push_entry ops cost k v b =
     (case lru_push ops k v (bc_entries b) of
        (None, c) \<Rightarrow> Some (b\<lparr>bc_entries := c\<rparr>)
      | (Some (k', v'), c) \<Rightarrow> release_bytes (cost k' v') (b\<lparr>bc_entries := c\<rparr>))"

section \<open>The byte cache\<close>

type_synonym 'c ByteCache = "'c byte_bounded"

text \<open>The capacity is a \<^verbatim>\<open>NonZeroUsize\<close>: \<open>None\<close> is the panic for zero.\<close>

definition byte_cache_new :: "('c, 'k, 'v \<times> nat) lru_ops \<Rightarrow> nat \<Rightarrow> nat \<Rightarrow> 'c ByteCache option" where
  "byte_cache_new ops max_entries max_bytes =
     (if max_entries = 0 then None else Some \<lparr>bc_entries = lru_new ops max_entries, bc_bytes = 0, bc_max = max_bytes\<rparr>)"

definition byte_cache_get :: "('c, 'k, 'v \<times> nat) lru_ops \<Rightarrow> 'k \<Rightarrow> 'c ByteCache \<Rightarrow> 'v option \<times> 'c ByteCache" where
  "byte_cache_get ops k b =
     (case lru_get ops k (bc_entries b) of (r, c) \<Rightarrow> (map_option fst r, b\<lparr>bc_entries := c\<rparr>))"

definition byte_cache_fits :: "nat \<Rightarrow> 'c ByteCache \<Rightarrow> bool" where
  "byte_cache_fits bytes b \<longleftrightarrow> bytes \<le> bc_max b"

definition stored_cost :: "'k \<Rightarrow> 'v \<times> nat \<Rightarrow> nat" where
  "stored_cost k v = snd v"

definition byte_cache_remove :: "('c, 'k, 'v \<times> nat) lru_ops \<Rightarrow> 'k \<Rightarrow> 'c ByteCache \<Rightarrow> 'c ByteCache option" where
  "byte_cache_remove ops k b = remove_entry ops stored_cost k b"

definition byte_cache_insert :: "('c, 'k, 'v \<times> nat) lru_ops \<Rightarrow> 'k \<Rightarrow> 'v \<Rightarrow> nat \<Rightarrow> 'c ByteCache \<Rightarrow> 'c ByteCache option" where
  "byte_cache_insert ops k v bytes b =
     Option.bind (byte_cache_remove ops k b) (\<lambda>b1.
       if \<not> byte_cache_fits bytes b1 then Some b1
       else Option.bind (evict ops stored_cost (bc_max b1 - bytes) b1) (\<lambda>b2.
            Option.bind (push_entry ops stored_cost k (v, bytes) b2) (\<lambda>b3.
            Some (b3\<lparr>bc_bytes := bc_bytes b3 + bytes\<rparr>))))"

definition byte_cache_keys :: "('c, 'k, 'v \<times> nat) lru_ops \<Rightarrow> 'c ByteCache \<Rightarrow> 'k list" where
  "byte_cache_keys ops b = map fst (lru_iter ops (bc_entries b))"

section \<open>The cache of file contents\<close>

definition MAX_CACHED_FILES :: nat where
  "MAX_CACHED_FILES = 256"

definition MAX_CACHED_BYTES :: nat where
  "MAX_CACHED_BYTES = 64 * 1024 * 1024"

text \<open>A stamp is what the metadata of the file say; \<open>'m\<close> is the type of times and numbers in it.\<close>

record 'm CachedFileContent =
  cf_stamp :: 'm
  cf_epoch :: nat
  cf_content :: string
  cf_lines :: "LineSpan list"

type_synonym 'c FileContentCache = "'c byte_bounded"

text \<open>A span has two words of eight bytes; \<open>own_size\<close> is the size of the struct.\<close>

definition cached_bytes :: "nat \<Rightarrow> string \<Rightarrow> 'm CachedFileContent \<Rightarrow> nat" where
  "cached_bytes own_size path c = length (cf_content c) + 16 * length (cf_lines c) + length path + own_size"

definition file_cache_new :: "('c, string, 'm CachedFileContent) lru_ops \<Rightarrow> nat \<Rightarrow> nat \<Rightarrow> 'c FileContentCache" where
  "file_cache_new ops max_files max_bytes = \<lparr>bc_entries = lru_new ops max_files, bc_bytes = 0, bc_max = max_bytes\<rparr>"

definition file_cache_remove ::
    "('c, string, 'm CachedFileContent) lru_ops \<Rightarrow> nat \<Rightarrow> string \<Rightarrow> 'c FileContentCache \<Rightarrow> 'c FileContentCache option" where
  "file_cache_remove ops own_size path b = remove_entry ops (cached_bytes own_size) path b"

definition file_cache_insert ::
    "('c, string, 'm CachedFileContent) lru_ops \<Rightarrow> nat \<Rightarrow> string \<Rightarrow> 'm CachedFileContent \<Rightarrow> 'c FileContentCache
       \<Rightarrow> 'c FileContentCache option" where
  "file_cache_insert ops own_size path content b =
     Option.bind (file_cache_remove ops own_size path b) (\<lambda>b1.
       let bytes = cached_bytes own_size path content
       in if bc_max b1 < bytes then Some b1
          else Option.bind (push_entry ops (cached_bytes own_size) path content (b1\<lparr>bc_bytes := bc_bytes b1 + bytes\<rparr>)) (\<lambda>b2.
               evict ops (cached_bytes own_size) (bc_max b2) b2))"

text \<open>Reading a file: \<open>opened\<close> is the stamp of the open file, or the error of opening it (left) or of its metadata
  (right). The lock is released between the two halves.\<close>

datatype 'm read_start = ReadFails string | ReadHit "'m CachedFileContent" | ReadMiss 'm

definition file_cache_lookup ::
    "('c, string, 'm CachedFileContent) lru_ops \<Rightarrow> nat \<Rightarrow> string \<Rightarrow> nat \<Rightarrow> (string + string) + 'm \<Rightarrow> 'c FileContentCache
       \<Rightarrow> ('m read_start \<times> 'c FileContentCache) option" where
  "file_cache_lookup ops own_size path index_epoch opened b =
     (case opened of
        Inl (Inl err) \<Rightarrow> map_option (\<lambda>b'. (ReadFails err, b')) (file_cache_remove ops own_size path b)
      | Inl (Inr err) \<Rightarrow> Some (ReadFails err, b)
      | Inr stamp \<Rightarrow>
          (case lru_get ops path (bc_entries b) of
             (found, c) \<Rightarrow>
               let b1 = b\<lparr>bc_entries := c\<rparr>
               in case found of
                    Some content \<Rightarrow>
                      if cf_epoch content = index_epoch \<and> cf_stamp content = stamp then Some (ReadHit content, b1)
                      else map_option (\<lambda>b'. (ReadMiss stamp, b')) (file_cache_remove ops own_size path b1)
                  | None \<Rightarrow> map_option (\<lambda>b'. (ReadMiss stamp, b')) (file_cache_remove ops own_size path b1)))"

text \<open>After a miss the file is read; \<open>lossy\<close> replaces what is not UTF-8.\<close>

definition file_cache_fill ::
    "('c, string, 'm CachedFileContent) lru_ops \<Rightarrow> (string \<Rightarrow> string) \<Rightarrow> nat \<Rightarrow> string \<Rightarrow> nat \<Rightarrow> 'm \<Rightarrow> string + string
       \<Rightarrow> 'c FileContentCache \<Rightarrow> ((string + 'm CachedFileContent) \<times> 'c FileContentCache) option" where
  "file_cache_fill ops lossy own_size path index_epoch stamp read b =
     (case read of
        Inl err \<Rightarrow> Some (Inl err, b)
      | Inr bytes \<Rightarrow>
          let content = lossy bytes;
              cached = \<lparr>cf_stamp = stamp, cf_epoch = index_epoch, cf_content = content, cf_lines = line_spans content\<rparr>
          in map_option (\<lambda>b'. (Inr cached, b')) (file_cache_insert ops own_size path cached b))"

section \<open>The accounting\<close>

definition total_cost :: "('k \<Rightarrow> 'v \<Rightarrow> nat) \<Rightarrow> ('k \<times> 'v) list \<Rightarrow> nat" where
  "total_cost cost es = (\<Sum>(k, v)\<leftarrow>es. cost k v)"

lemma total_cost_simps [simp]:
  "total_cost cost [] = 0" "total_cost cost ((k, v) # es) = cost k v + total_cost cost es"
  "total_cost cost (es @ es') = total_cost cost es + total_cost cost es'"
  by (simp_all add: total_cost_def)

lemma total_cost_remove:
  "distinct_keys es \<Longrightarrow> map_of es k = Some v \<Longrightarrow> total_cost cost (alist_remove k es) + cost k v = total_cost cost es"
proof (induction es)
  case (Cons p es)
  obtain k' v' where p: "p = (k', v')" by (cases p)
  show ?case
  proof (cases "k' = k")
    case True
    then have "alist_remove k es = es" using Cons.prems p by (intro length_alist_remove_absent) (auto simp: distinct_keys_def)
    then show ?thesis using True Cons.prems p by (simp add: alist_remove_def)
  next
    case False
    then have "total_cost cost (alist_remove k es) + cost k v = total_cost cost es" using Cons p by (auto simp: distinct_keys_def)
    then show ?thesis using False p by (simp add: alist_remove_def)
  qed
qed simp

lemma total_cost_take_mono: "m \<le> n \<Longrightarrow> total_cost cost (take m es) \<le> total_cost cost (take n es)"
  by (metis add.commute le_add1 take_add total_cost_simps(3) le_add_diff_inverse)

text \<open>The count is the sum of the costs, up to \<open>extra\<close> bytes that are charged already or not yet.\<close>

definition accounts :: "('c, 'k, 'v) lru_ops \<Rightarrow> ('c \<Rightarrow> nat) \<Rightarrow> ('k \<Rightarrow> 'v \<Rightarrow> nat) \<Rightarrow> nat \<Rightarrow> ('k \<times> 'v) list \<Rightarrow> 'c byte_bounded \<Rightarrow> bool" where
  "accounts ops cap cost extra es b \<longleftrightarrow>
     lru_iter ops (bc_entries b) = es \<and> distinct_keys es \<and> bc_bytes b = total_cost cost es + extra
     \<and> length es \<le> cap (bc_entries b) \<and> 0 < cap (bc_entries b)"

definition cache_ok :: "('c, 'k, 'v) lru_ops \<Rightarrow> ('c \<Rightarrow> nat) \<Rightarrow> ('k \<Rightarrow> 'v \<Rightarrow> nat) \<Rightarrow> 'c byte_bounded \<Rightarrow> bool" where
  "cache_ok ops cap cost b \<longleftrightarrow>
     accounts ops cap cost 0 (lru_iter ops (bc_entries b)) b \<and> bc_bytes b \<le> bc_max b"

lemma lru_get_ok:
  "lru_ok ops cap \<Longrightarrow> fst (lru_get ops k c) = map_of (lru_iter ops c) k
     \<and> lru_iter ops (snd (lru_get ops k c)) =
         (case map_of (lru_iter ops c) k of None \<Rightarrow> lru_iter ops c | Some v \<Rightarrow> alist_put k v (lru_iter ops c))
     \<and> cap (snd (lru_get ops k c)) = cap c"
  unfolding lru_ok_def by (elim conjE) (erule allE [of _ c], erule allE [of _ k], blast)

lemma lru_pop_ok:
  "lru_ok ops cap \<Longrightarrow> fst (lru_pop ops k c) = map_of (lru_iter ops c) k
     \<and> lru_iter ops (snd (lru_pop ops k c)) = alist_remove k (lru_iter ops c) \<and> cap (snd (lru_pop ops k c)) = cap c"
  unfolding lru_ok_def by blast

lemma lru_pop_lru_ok:
  "lru_ok ops cap \<Longrightarrow> lru_iter ops c \<noteq> [] \<Longrightarrow> fst (lru_pop_lru ops c) = Some (last (lru_iter ops c))
     \<and> lru_iter ops (snd (lru_pop_lru ops c)) = butlast (lru_iter ops c) \<and> cap (snd (lru_pop_lru ops c)) = cap c"
  unfolding lru_ok_def by blast

lemma lru_push_ok:
  "lru_ok ops cap \<Longrightarrow> map_of (lru_iter ops c) k = None \<Longrightarrow>
     cap (snd (lru_push ops k v c)) = cap c
     \<and> (if length (lru_iter ops c) < cap c
        then fst (lru_push ops k v c) = None \<and> lru_iter ops (snd (lru_push ops k v c)) = (k, v) # lru_iter ops c
        else fst (lru_push ops k v c) = Some (last (lru_iter ops c))
          \<and> lru_iter ops (snd (lru_push ops k v c)) = (k, v) # butlast (lru_iter ops c))"
  unfolding lru_ok_def by (elim conjE) (drule spec [of _ c], drule spec [of _ c], drule spec [of _ c], drule spec [of _ k], drule spec [of _ k], simp)

lemma lru_new_ok: "lru_ok ops cap \<Longrightarrow> lru_iter ops (lru_new ops n) = [] \<and> cap (lru_new ops n) = n"
  unfolding lru_ok_def by blast

text \<open>The part of the entries that fits: the most recent ones.\<close>

function fitting :: "('k \<Rightarrow> 'v \<Rightarrow> nat) \<Rightarrow> nat \<Rightarrow> ('k \<times> 'v) list \<Rightarrow> ('k \<times> 'v) list" where
  "fitting cost limit es = (if limit < total_cost cost es then fitting cost limit (butlast es) else es)"
  by pat_completeness auto
termination
proof (relation "measure (\<lambda>(_, _, es). length es)")
  fix cost :: "'k \<Rightarrow> 'v \<Rightarrow> nat" and limit es
  assume "limit < total_cost cost es"
  then have "es \<noteq> []" by auto
  then show "((cost, limit, butlast es), cost, limit, es) \<in> measure (\<lambda>(_, _, es). length es)" by simp
qed simp

declare fitting.simps [simp del]

lemma fitting_take:
  "\<exists>n\<le>length es. fitting cost limit es = take n es \<and> total_cost cost (take n es) \<le> limit
     \<and> (\<forall>m. n < m \<and> m \<le> length es \<longrightarrow> limit < total_cost cost (take m es))"
proof (induction cost limit es rule: fitting.induct)
  case (1 cost limit es)
  show ?case
  proof (cases "limit < total_cost cost es")
    case True
    then have "es \<noteq> []" by auto
    obtain n where n: "n \<le> length (butlast es)" "fitting cost limit (butlast es) = take n (butlast es)"
        "total_cost cost (take n (butlast es)) \<le> limit"
        "\<forall>m. n < m \<and> m \<le> length (butlast es) \<longrightarrow> limit < total_cost cost (take m (butlast es))"
      using "1.IH" [OF True] by blast
    have cut: "take m (butlast es) = take m es" if "m \<le> length (butlast es)" for m
    proof -
      have "m \<le> length es - 1" using that by simp
      then show ?thesis by (simp add: butlast_conv_take min_absorb1)
    qed
    have "limit < total_cost cost (take m es)" if m: "n < m" "m \<le> length es" for m
    proof (cases "m = length es")
      case False
      then have "m \<le> length (butlast es)" using m(2) by simp
      then show ?thesis using n(4) m(1) cut by metis
    qed (use True in simp)
    then show ?thesis using n(1-3) True cut [OF n(1)] by (intro exI [of _ n]) (simp add: fitting.simps [of cost limit es])
  next
    case False
    then show ?thesis by (intro exI [of _ "length es"]) (simp add: fitting.simps [of cost limit es])
  qed
qed

lemma evict_accounts:
  assumes lru: "lru_ok ops cap"
  shows "accounts ops cap cost 0 es b \<Longrightarrow>
     \<exists>b'. evict ops cost limit b = Some b' \<and> accounts ops cap cost 0 (fitting cost limit es) b'
        \<and> bc_max b' = bc_max b \<and> cap (bc_entries b') = cap (bc_entries b)"
proof (induction cost limit es arbitrary: b rule: fitting.induct)
  case (1 cost limit es)
  show ?case
  proof (cases "limit < total_cost cost es")
    case True
    then have ne: "es \<noteq> []" by auto
    obtain k v where last: "last es = (k, v)" by (cases "last es")
    have es: "es = butlast es @ [(k, v)]" using ne last by (metis append_butlast_last_id)
    obtain r c where rc: "lru_pop_lru ops (bc_entries b) = (r, c)" by fastforce
    have pop: "r = Some (k, v)" "lru_iter ops c = butlast es" "cap c = cap (bc_entries b)"
      using lru_pop_lru_ok [OF lru, of "bc_entries b"] "1.prems" ne last rc by (auto simp: accounts_def)
    let ?b = "b\<lparr>bc_entries := c, bc_bytes := total_cost cost (butlast es)\<rparr>"
    have total: "total_cost cost es = total_cost cost (butlast es) + cost k v" by (subst es) simp
    have rel: "release_bytes (cost k v) (b\<lparr>bc_entries := c\<rparr>) = Some ?b"
      using "1.prems" total by (simp add: accounts_def release_bytes_def)
    have "distinct_keys (butlast es)" using "1.prems" by (simp add: accounts_def distinct_keys_def map_butlast distinct_butlast)
    then have "accounts ops cap cost 0 (butlast es) ?b"
      using "1.prems" pop by (auto simp: accounts_def)
    from "1.IH" [OF True this] obtain b' where b': "evict ops cost limit ?b = Some b'"
        "accounts ops cap cost 0 (fitting cost limit (butlast es)) b'" "bc_max b' = bc_max ?b"
        "cap (bc_entries b') = cap (bc_entries ?b)" by blast
    have "evict ops cost limit b = evict ops cost limit ?b"
      using True "1.prems" rc pop(1) rel by (simp add: evict.simps [of ops cost limit b] accounts_def)
    then show ?thesis using b' True pop(3) by (simp add: fitting.simps [of cost limit es])
  next
    case False
    then show ?thesis using "1.prems" by (simp add: evict.simps [of ops cost limit b] fitting.simps [of cost limit es] accounts_def)
  qed
qed

lemma remove_accounts:
  assumes lru: "lru_ok ops cap" and ok: "accounts ops cap cost 0 es b"
  shows "\<exists>b'. remove_entry ops cost k b = Some b' \<and> accounts ops cap cost 0 (alist_remove k es) b'
     \<and> bc_max b' = bc_max b \<and> cap (bc_entries b') = cap (bc_entries b) \<and> bc_bytes b' \<le> bc_bytes b"
proof -
  obtain r c where rc: "lru_pop ops k (bc_entries b) = (r, c)" by fastforce
  have pop: "r = map_of es k" "lru_iter ops c = alist_remove k es" "cap c = cap (bc_entries b)"
    using lru_pop_ok [OF lru, of k "bc_entries b"] ok rc by (auto simp: accounts_def)
  have len: "length (alist_remove k es) \<le> cap (bc_entries b)"
    using ok length_alist_remove_le [of k es] by (simp add: accounts_def)
  show ?thesis
  proof (cases "map_of es k")
    case None
    then have "alist_remove k es = es" by (intro length_alist_remove_absent) (simp add: map_of_eq_None_iff)
    then show ?thesis using None rc pop ok by (simp add: remove_entry_def accounts_def)
  next
    case (Some v)
    have "total_cost cost (alist_remove k es) + cost k v = total_cost cost es"
      using ok Some by (intro total_cost_remove) (auto simp: accounts_def)
    then show ?thesis using Some rc pop ok len by (auto simp: remove_entry_def release_bytes_def accounts_def)
  qed
qed

lemma push_accounts:
  assumes lru: "lru_ok ops cap" and ok: "accounts ops cap cost extra es b" and new: "k \<notin> fst ` set es"
  shows "\<exists>b'. push_entry ops cost k v b = Some b' \<and> bc_max b' = bc_max b \<and> cap (bc_entries b') = cap (bc_entries b)
     \<and> (let kept = (if length es < cap (bc_entries b) then es else butlast es)
        in lru_iter ops (bc_entries b') = (k, v) # kept \<and> distinct_keys ((k, v) # kept)
           \<and> bc_bytes b' = total_cost cost kept + extra \<and> length ((k, v) # kept) \<le> cap (bc_entries b'))"
proof -
  obtain r c where rc: "lru_push ops k v (bc_entries b) = (r, c)" by fastforce
  have absent: "map_of es k = None" using new by (simp add: map_of_eq_None_iff)
  have iter: "lru_iter ops (bc_entries b) = es" using ok by (simp add: accounts_def)
  note push = lru_push_ok [OF lru, of "bc_entries b" k v, unfolded iter, OF absent, unfolded rc, simplified]
  show ?thesis
  proof (cases "length es < cap (bc_entries b)")
    case True
    then show ?thesis using push rc ok new by (auto simp: push_entry_def accounts_def Let_def distinct_keys_def)
  next
    case False
    then have ne: "es \<noteq> []" using ok by (auto simp: accounts_def)
    obtain k' v' where last: "last es = (k', v')" by (cases "last es")
    have es: "es = butlast es @ [(k', v')]" using ne last by (metis append_butlast_last_id)
    have total: "total_cost cost es = total_cost cost (butlast es) + cost k' v'" by (subst es) simp
    have "set (butlast es) \<subseteq> set es" using in_set_butlastD by fast
    then have "k \<notin> fst ` set (butlast es)" using new by blast
    moreover have "distinct_keys (butlast es)" using ok by (simp add: accounts_def distinct_keys_def map_butlast distinct_butlast)
    ultimately have "distinct_keys ((k, v) # butlast es)" by (simp add: distinct_keys_def)
    then show ?thesis using False push rc ok total last
      by (auto simp: push_entry_def release_bytes_def accounts_def Let_def)
  qed
qed

lemma fitting_unique:
  assumes "n \<le> length es" and "total_cost cost (take n es) \<le> limit"
    and "\<forall>m. n < m \<and> m \<le> length es \<longrightarrow> limit < total_cost cost (take m es)"
  shows "fitting cost limit es = take n es"
proof -
  obtain n' where n': "n' \<le> length es" "fitting cost limit es = take n' es" "total_cost cost (take n' es) \<le> limit"
      "\<forall>m. n' < m \<and> m \<le> length es \<longrightarrow> limit < total_cost cost (take m es)"
    using fitting_take by blast
  have "n' = n" using assms n'(1,3,4) by (metis linorder_neqE_nat not_le)
  then show ?thesis using n'(2) by simp
qed

lemma fitting_take_commute: "fitting cost limit (take m es) = take m (fitting cost limit es)"
proof -
  obtain n where n: "n \<le> length es" "fitting cost limit es = take n es" "total_cost cost (take n es) \<le> limit"
      "\<forall>m. n < m \<and> m \<le> length es \<longrightarrow> limit < total_cost cost (take m es)"
    using fitting_take by blast
  have "fitting cost limit (take m es) = take (min m n) (take m es)"
  proof (rule fitting_unique)
    show "total_cost cost (take (min m n) (take m es)) \<le> limit"
      using n(3) total_cost_take_mono [of "min m n" n cost es] by (simp add: min.commute)
    show "\<forall>j. min m n < j \<and> j \<le> length (take m es) \<longrightarrow> limit < total_cost cost (take j (take m es))"
      using n(4) by (auto simp: min_def split: if_splits)
  qed (use n(1) in simp)
  then show ?thesis using n(2) by (simp add: min.commute)
qed

lemma fitting_Cons:
  assumes "cost k v \<le> limit"
  shows "fitting cost limit ((k, v) # es) = (k, v) # fitting cost (limit - cost k v) es"
proof -
  obtain n where n: "n \<le> length es" "fitting cost (limit - cost k v) es = take n es"
      "total_cost cost (take n es) \<le> limit - cost k v"
      "\<forall>m. n < m \<and> m \<le> length es \<longrightarrow> limit - cost k v < total_cost cost (take m es)"
    using fitting_take by blast
  have "limit < total_cost cost (take m ((k, v) # es))" if "Suc n < m" "m \<le> length ((k, v) # es)" for m
    using n(4) that assms by (cases m) auto
  then have "fitting cost limit ((k, v) # es) = take (Suc n) ((k, v) # es)"
    using n(1,3) assms by (intro fitting_unique) auto
  then show ?thesis using n(2) by simp
qed

lemma take_cap: "length xs \<le> cap \<Longrightarrow> 0 < cap \<Longrightarrow> (if length xs < cap then xs else butlast xs) = take (cap - 1) xs"
  by (auto simp: butlast_conv_take)

section \<open>What an insertion does\<close>

text \<open>The specification: the new entry comes first, after it as many of the other entries, from the most recently used
  on, as fit into the bytes and the capacity; an entry that is larger than the whole cache only replaces its old one.\<close>

definition lru_insert :: "nat \<Rightarrow> ('k \<Rightarrow> 'v \<Rightarrow> nat) \<Rightarrow> nat \<Rightarrow> 'k \<Rightarrow> 'v \<Rightarrow> ('k \<times> 'v) list \<Rightarrow> ('k \<times> 'v) list" where
  "lru_insert capacity cost max_cost k v es =
     (let rest = alist_remove k es
      in if max_cost < cost k v then rest else (k, v) # fitting cost (max_cost - cost k v) (take (capacity - 1) rest))"

lemma fitting_fits: "total_cost cost (fitting cost limit es) \<le> limit \<and> length (fitting cost limit es) \<le> length es"
  using fitting_take [of es cost limit] by auto

text \<open>Eviction first: \<^verbatim>\<open>ByteCache\<close>.\<close>

lemma byte_cache_insert_spec:
  assumes lru: "lru_ok ops cap" and ok: "cache_ok ops cap stored_cost b"
  shows "\<exists>b'. byte_cache_insert ops k v bytes b = Some b' \<and> cache_ok ops cap stored_cost b' \<and> bc_max b' = bc_max b
     \<and> cap (bc_entries b') = cap (bc_entries b)
     \<and> lru_iter ops (bc_entries b') =
         lru_insert (cap (bc_entries b)) stored_cost (bc_max b) k (v, bytes) (lru_iter ops (bc_entries b))"
proof -
  let ?es = "lru_iter ops (bc_entries b)"
  let ?rest = "alist_remove k ?es"
  obtain b1 where b1: "remove_entry ops stored_cost k b = Some b1" "accounts ops cap stored_cost 0 ?rest b1"
      "bc_max b1 = bc_max b" "cap (bc_entries b1) = cap (bc_entries b)" "bc_bytes b1 \<le> bc_bytes b"
    using remove_accounts [OF lru] ok unfolding cache_ok_def by blast
  show ?thesis
  proof (cases "bytes \<le> bc_max b")
    case False
    then show ?thesis using b1 ok
      by (auto simp: byte_cache_insert_def byte_cache_remove_def byte_cache_fits_def cache_ok_def lru_insert_def stored_cost_def accounts_def Let_def)
  next
    case True
    let ?limit = "bc_max b - bytes"
    let ?fit = "fitting stored_cost ?limit ?rest"
    obtain b2 where b2: "evict ops stored_cost ?limit b1 = Some b2" "accounts ops cap stored_cost 0 ?fit b2"
        "bc_max b2 = bc_max b" "cap (bc_entries b2) = cap (bc_entries b)"
      using evict_accounts [OF lru b1(2)] b1(3,4) by metis
    let ?kept = "take (cap (bc_entries b) - 1) ?fit"
    have cap: "0 < cap (bc_entries b)" "length ?fit \<le> cap (bc_entries b)" using b2(2,4) by (auto simp: accounts_def)
    have new: "k \<notin> fst ` set ?fit"
    proof -
      obtain n where "?fit = take n ?rest" using fitting_take by blast
      then have "fst ` set ?fit \<subseteq> fst ` set ?rest" using set_take_subset [of n ?rest] by auto
      then show ?thesis using keys_alist_remove [of k ?es] by auto
    qed
    obtain b3 where b3: "push_entry ops stored_cost k (v, bytes) b2 = Some b3" "bc_max b3 = bc_max b"
        "cap (bc_entries b3) = cap (bc_entries b)" "lru_iter ops (bc_entries b3) = (k, v, bytes) # ?kept"
        "distinct_keys ((k, v, bytes) # ?kept)" "bc_bytes b3 = total_cost stored_cost ?kept"
        "length ((k, v, bytes) # ?kept) \<le> cap (bc_entries b3)"
      using push_accounts [OF lru b2(2) new, of "(v, bytes)"] b2(3,4) take_cap [OF cap(2,1)] by (auto simp: Let_def)
    have "total_cost stored_cost ?kept \<le> ?limit"
      using fitting_fits [of stored_cost ?limit "take (cap (bc_entries b) - 1) ?rest"] by (simp only: fitting_take_commute)
    then have "total_cost stored_cost ?kept + bytes \<le> bc_max b" using True by linarith
    then have "cache_ok ops cap stored_cost (b3\<lparr>bc_bytes := bc_bytes b3 + bytes\<rparr>)"
      using b3 True cap(1) by (simp add: cache_ok_def accounts_def stored_cost_def)
    moreover have "byte_cache_insert ops k v bytes b = Some (b3\<lparr>bc_bytes := bc_bytes b3 + bytes\<rparr>)"
      using True b1(1,3) b2(1) b3(1) by (simp add: byte_cache_insert_def byte_cache_remove_def byte_cache_fits_def)
    ultimately show ?thesis
      using b3 True by (simp add: lru_insert_def stored_cost_def fitting_take_commute Let_def)
  qed
qed

text \<open>Insertion first: the cache of file contents.\<close>

lemma file_cache_insert_spec:
  assumes lru: "lru_ok ops cap" and ok: "cache_ok ops cap (cached_bytes own) b"
  shows "\<exists>b'. file_cache_insert ops own k v b = Some b' \<and> cache_ok ops cap (cached_bytes own) b' \<and> bc_max b' = bc_max b
     \<and> cap (bc_entries b') = cap (bc_entries b)
     \<and> lru_iter ops (bc_entries b') =
         lru_insert (cap (bc_entries b)) (cached_bytes own) (bc_max b) k v (lru_iter ops (bc_entries b))"
proof -
  let ?cost = "cached_bytes own"
  let ?es = "lru_iter ops (bc_entries b)"
  let ?rest = "alist_remove k ?es"
  obtain b1 where b1: "remove_entry ops ?cost k b = Some b1" "accounts ops cap ?cost 0 ?rest b1"
      "bc_max b1 = bc_max b" "cap (bc_entries b1) = cap (bc_entries b)" "bc_bytes b1 \<le> bc_bytes b"
    using remove_accounts [OF lru] ok unfolding cache_ok_def by blast
  show ?thesis
  proof (cases "?cost k v \<le> bc_max b")
    case False
    then show ?thesis using b1 ok
      by (auto simp: file_cache_insert_def file_cache_remove_def cache_ok_def lru_insert_def accounts_def Let_def)
  next
    case True
    let ?b1 = "b1\<lparr>bc_bytes := bc_bytes b1 + ?cost k v\<rparr>"
    let ?kept = "take (cap (bc_entries b) - 1) ?rest"
    have acc: "accounts ops cap ?cost (?cost k v) ?rest ?b1" using b1(2) by (simp add: accounts_def)
    have cap: "0 < cap (bc_entries b)" "length ?rest \<le> cap (bc_entries b)" using b1(2,4) by (auto simp: accounts_def)
    have new: "k \<notin> fst ` set ?rest" by (simp add: keys_alist_remove)
    obtain b2 where b2: "push_entry ops ?cost k v ?b1 = Some b2" "bc_max b2 = bc_max b"
        "cap (bc_entries b2) = cap (bc_entries b)" "lru_iter ops (bc_entries b2) = (k, v) # ?kept"
        "distinct_keys ((k, v) # ?kept)" "bc_bytes b2 = total_cost ?cost ?kept + ?cost k v"
        "length ((k, v) # ?kept) \<le> cap (bc_entries b2)"
      using push_accounts [OF lru acc new, of v] b1(3,4) take_cap [OF cap(2,1)] by (auto simp: Let_def)
    have "accounts ops cap ?cost 0 ((k, v) # ?kept) b2" using b2 cap(1) by (simp add: accounts_def)
    from evict_accounts [OF lru this, of "bc_max b2"] obtain b3 where b3: "evict ops ?cost (bc_max b2) b2 = Some b3"
        "accounts ops cap ?cost 0 (fitting ?cost (bc_max b2) ((k, v) # ?kept)) b3" "bc_max b3 = bc_max b2"
        "cap (bc_entries b3) = cap (bc_entries b2)" by blast
    have iter: "lru_iter ops (bc_entries b3) = (k, v) # fitting ?cost (bc_max b - ?cost k v) ?kept"
      using b3(2) b2(2) True by (simp add: accounts_def fitting_Cons)
    have "total_cost ?cost (fitting ?cost (bc_max b2) ((k, v) # ?kept)) \<le> bc_max b2" using fitting_fits by blast
    then have "cache_ok ops cap ?cost b3" using b3(2,3) by (simp add: cache_ok_def accounts_def)
    moreover have "file_cache_insert ops own k v b = Some b3"
      using True b1(1,3) b2(1) b3(1) by (simp add: file_cache_insert_def file_cache_remove_def Let_def)
    ultimately show ?thesis using iter b2(2,3) b3(3,4) True by (simp add: lru_insert_def Let_def)
  qed
qed

lemma get_accounts:
  assumes lru: "lru_ok ops cap" and ok: "cache_ok ops cap cost b" and get: "lru_get ops k (bc_entries b) = (r, c)"
  shows "cache_ok ops cap cost (b\<lparr>bc_entries := c\<rparr>) \<and> r = map_of (lru_iter ops (bc_entries b)) k
     \<and> set (lru_iter ops c) = set (lru_iter ops (bc_entries b)) \<and> map_of (lru_iter ops c) = map_of (lru_iter ops (bc_entries b))"
proof -
  let ?es = "lru_iter ops (bc_entries b)"
  have get': "r = map_of ?es k" "cap c = cap (bc_entries b)"
      "lru_iter ops c = (case map_of ?es k of None \<Rightarrow> ?es | Some v \<Rightarrow> alist_put k v ?es)"
    using lru_get_ok [OF lru, of k "bc_entries b"] get by simp_all
  show ?thesis
  proof (cases "map_of ?es k")
    case (Some v)
    have keys: "distinct_keys ?es" using ok by (simp add: cache_ok_def accounts_def)
    have total: "total_cost cost (alist_put k v ?es) = total_cost cost ?es"
      using total_cost_remove [OF keys Some, of cost] by (simp add: alist_put_def)
    have len: "length (alist_put k v ?es) = length ?es" using keys Some by (intro length_alist_put_present) (auto simp: keys_map_of)
    have "map_of (alist_put k v ?es) = map_of ?es" using Some by auto
    moreover have "set (alist_put k v ?es) = set ?es"
      using distinct_keys_set_map_of [OF keys] distinct_keys_set_map_of [OF distinct_keys_put [OF keys, of k v]] calculation by (intro set_eqI) (metis surj_pair)
    ultimately show ?thesis using Some get' total len keys ok by (simp add: cache_ok_def accounts_def)
  qed (use get' ok in \<open>simp add: cache_ok_def accounts_def\<close>)
qed

lemma remove_ok:
  assumes "lru_ok ops cap" and "cache_ok ops cap cost b"
  shows "\<exists>b'. remove_entry ops cost k b = Some b' \<and> cache_ok ops cap cost b'
     \<and> lru_iter ops (bc_entries b') = alist_remove k (lru_iter ops (bc_entries b)) \<and> bc_max b' = bc_max b
     \<and> cap (bc_entries b') = cap (bc_entries b)"
proof -
  obtain b' where "remove_entry ops cost k b = Some b'" "accounts ops cap cost 0 (alist_remove k (lru_iter ops (bc_entries b))) b'"
      "bc_max b' = bc_max b" "cap (bc_entries b') = cap (bc_entries b)" "bc_bytes b' \<le> bc_bytes b"
    using remove_accounts [OF assms(1)] assms(2) unfolding cache_ok_def by blast
  then show ?thesis using assms(2) by (auto simp: cache_ok_def accounts_def)
qed

section \<open>The byte cache as a component\<close>

datatype ('k, 'v) cache_event = CacheGet 'k | CacheInsert 'k 'v nat | CacheRemove 'k

fun cache_event_step :: "('c, 'k, 'v \<times> nat) lru_ops \<Rightarrow> ('k, 'v) cache_event \<Rightarrow> 'c ByteCache \<Rightarrow> 'c ByteCache option" where
  "cache_event_step ops (CacheGet k) b = Some (snd (byte_cache_get ops k b))"
| "cache_event_step ops (CacheInsert k v bytes) b = byte_cache_insert ops k v bytes b"
| "cache_event_step ops (CacheRemove k) b = byte_cache_remove ops k b"

definition cache_start :: "('c, 'k, 'v \<times> nat) lru_ops \<Rightarrow> 'c ByteCache \<Rightarrow> bool" where
  "cache_start ops b \<longleftrightarrow> (\<exists>n m. byte_cache_new ops n m = Some b)"

definition cache_step :: "('c, 'k, 'v \<times> nat) lru_ops \<Rightarrow> 'c ByteCache \<Rightarrow> 'c ByteCache \<Rightarrow> bool" where
  "cache_step ops b b' \<longleftrightarrow> (\<exists>e. cache_event_step ops e b = Some b')"

lemma cache_event_ok:
  assumes "lru_ok ops cap" and "cache_ok ops cap stored_cost b"
  shows "\<exists>b'. cache_event_step ops e b = Some b' \<and> cache_ok ops cap stored_cost b'"
proof (cases e)
  case (CacheGet k)
  obtain r c where "lru_get ops k (bc_entries b) = (r, c)" by fastforce
  then show ?thesis using CacheGet get_accounts [OF assms] by (simp add: byte_cache_get_def)
next
  case (CacheInsert k v bytes)
  then show ?thesis using byte_cache_insert_spec [OF assms] by fastforce
next
  case (CacheRemove k)
  then show ?thesis using remove_ok [OF assms] by (fastforce simp: byte_cache_remove_def)
qed

lemma cache_start_ok: "lru_ok ops cap \<Longrightarrow> cache_start ops b \<Longrightarrow> cache_ok ops cap stored_cost b"
  using lru_new_ok [of ops cap] by (auto simp: cache_start_def byte_cache_new_def cache_ok_def accounts_def split: if_splits)

interpretation byte_cache: component "cache_start ops" "cache_step ops" "\<lambda>b. lru_ok ops cap \<longrightarrow> cache_ok ops cap stored_cost b"
  for ops :: "('c, 'k, 'v \<times> nat) lru_ops" and cap
proof
  show "lru_ok ops cap \<longrightarrow> cache_ok ops cap stored_cost b" if "cache_start ops b" for b
    using cache_start_ok that by blast
  show "lru_ok ops cap \<longrightarrow> cache_ok ops cap stored_cost b'"
    if "cache_step ops b b'" "lru_ok ops cap \<longrightarrow> cache_ok ops cap stored_cost b" for b b'
    using that cache_event_ok unfolding cache_step_def by (metis option.inject)
qed

text \<open>A map of the library as a list, most recently used first, with its capacity.\<close>

definition list_lru :: "(nat \<times> ('k \<times> 'v) list, 'k, 'v) lru_ops" where
  "list_lru = \<lparr>lru_new = (\<lambda>n. (n, [])),
     lru_get = (\<lambda>k (n, es). case map_of es k of None \<Rightarrow> (None, (n, es)) | Some v \<Rightarrow> (Some v, (n, alist_put k v es))),
     lru_pop = (\<lambda>k (n, es). (map_of es k, (n, alist_remove k es))),
     lru_pop_lru = (\<lambda>(n, es). if es = [] then (None, (n, es)) else (Some (last es), (n, butlast es))),
     lru_push = (\<lambda>k v (n, es). case map_of es k of
         Some old \<Rightarrow> (Some (k, old), (n, alist_put k v es))
       | None \<Rightarrow> if length es < n then (None, (n, (k, v) # es)) else (Some (last es), (n, (k, v) # butlast es))),
     lru_iter = snd\<rparr>"

lemma list_lru_ok: "lru_ok list_lru fst"
  by (auto simp: lru_ok_def list_lru_def split: option.split)

text \<open>Claim C18. Given a map that behaves as the library documents, every operation of a byte cache that was built from
  \<^verbatim>\<open>new\<close> returns: the eviction loop ends and no subtraction fails. The count of bytes is the sum of the charged
  costs and within the limit, the entries are within the capacity, and an insertion keeps exactly the most recently
  used entries that fit beside the new one.\<close>

theorem byte_cache_refines_lru:
  assumes "lru_ok ops cap" and "reachable (cache_start ops) (cache_step ops) b"
  shows "bc_bytes b = total_cost stored_cost (lru_iter ops (bc_entries b)) \<and> bc_bytes b \<le> bc_max b
     \<and> length (lru_iter ops (bc_entries b)) \<le> cap (bc_entries b)
     \<and> (\<exists>b'. cache_event_step ops e b = Some b')
     \<and> (\<exists>b'. byte_cache_insert ops k v bytes b = Some b'
          \<and> lru_iter ops (bc_entries b') =
              lru_insert (cap (bc_entries b)) stored_cost (bc_max b) k (v, bytes) (lru_iter ops (bc_entries b)))"
proof -
  have ok: "cache_ok ops cap stored_cost b" using byte_cache.reachable_invar [OF assms(2), of cap] assms(1) by blast
  then show ?thesis
    using cache_event_ok [OF assms(1) ok, of e] byte_cache_insert_spec [OF assms(1) ok, of k v bytes]
    by (auto simp: cache_ok_def accounts_def)
qed

theorem byte_cache_refines_lru_witness:
  "\<exists>b b'. byte_cache_new list_lru 2 10 = Some b
     \<and> byte_cache_insert list_lru ''a'' (1 :: nat) 4 b = Some b' \<and> lru_iter list_lru (bc_entries b') = [(''a'', 1, 4)]"
proof -
  obtain b where b: "byte_cache_new (list_lru :: (_, string, nat \<times> nat) lru_ops) 2 10 = Some b" by (simp add: byte_cache_new_def)
  then have "cache_start list_lru b" unfolding cache_start_def by blast
  then have "reachable (cache_start list_lru) (cache_step list_lru) b" by (rule reachable_start)
  from byte_cache_refines_lru [OF list_lru_ok this, of _ "''a''" 1 4] b show ?thesis
    by (auto simp: byte_cache_new_def list_lru_def lru_insert_def alist_remove_def stored_cost_def fitting.simps)
qed

section \<open>Reading files through the cache\<close>

text \<open>The cache together with what was read so far: the contents by path that reads have returned from disk.\<close>

type_synonym ('c, 'm) file_system = "'c FileContentCache \<times> (string \<times> 'm CachedFileContent) set"

inductive file_step :: "('c, string, 'm CachedFileContent) lru_ops \<Rightarrow> (string \<Rightarrow> string) \<Rightarrow> nat
    \<Rightarrow> ('c, 'm) file_system \<Rightarrow> ('c, 'm) file_system \<Rightarrow> bool" for ops lossy own where
  file_lookup: "file_cache_lookup ops own path epoch opened b = Some (r, b') \<Longrightarrow> file_step ops lossy own (b, H) (b', H)"
| file_fill: "file_cache_fill ops lossy own path epoch stamp (Inr bytes) b = Some (Inr cached, b') \<Longrightarrow>
     file_step ops lossy own (b, H) (b', insert (path, cached) H)"

definition file_start :: "('c, string, 'm CachedFileContent) lru_ops \<Rightarrow> ('c, 'm) file_system \<Rightarrow> bool" where
  "file_start ops s \<longleftrightarrow> s = (file_cache_new ops MAX_CACHED_FILES MAX_CACHED_BYTES, {})"

definition file_inv :: "('c, string, 'm CachedFileContent) lru_ops \<Rightarrow> ('c \<Rightarrow> nat) \<Rightarrow> nat \<Rightarrow> ('c, 'm) file_system \<Rightarrow> bool" where
  "file_inv ops cap own s \<longleftrightarrow>
     cache_ok ops cap (cached_bytes own) (fst s) \<and> bc_max (fst s) = MAX_CACHED_BYTES
     \<and> set (lru_iter ops (bc_entries (fst s))) \<subseteq> snd s
     \<and> (\<forall>(p, c)\<in>snd s. cf_lines c = line_spans (cf_content c))"

lemma lookup_cases:
  assumes lru: "lru_ok ops cap" and ok: "cache_ok ops cap (cached_bytes own) b"
  shows "\<exists>r b'. file_cache_lookup ops own path epoch opened b = Some (r, b') \<and> cache_ok ops cap (cached_bytes own) b'
     \<and> bc_max b' = bc_max b \<and> set (lru_iter ops (bc_entries b')) \<subseteq> set (lru_iter ops (bc_entries b))
     \<and> (\<forall>c. r = ReadHit c \<longrightarrow> (path, c) \<in> set (lru_iter ops (bc_entries b)) \<and> opened = Inr (cf_stamp c) \<and> cf_epoch c = epoch)
     \<and> (\<forall>stamp. r = ReadMiss stamp \<longrightarrow> opened = Inr stamp \<and> path \<notin> fst ` set (lru_iter ops (bc_entries b')))
     \<and> (\<forall>err. opened = Inl (Inl err) \<longrightarrow> path \<notin> fst ` set (lru_iter ops (bc_entries b')))"
proof -
  have gone: "\<exists>b''. file_cache_remove ops own path b' = Some b'' \<and> cache_ok ops cap (cached_bytes own) b''
      \<and> bc_max b'' = bc_max b' \<and> set (lru_iter ops (bc_entries b'')) \<subseteq> set (lru_iter ops (bc_entries b'))
      \<and> path \<notin> fst ` set (lru_iter ops (bc_entries b''))" if "cache_ok ops cap (cached_bytes own) b'" for b'
    using remove_ok [OF lru that, of path] by (auto simp: file_cache_remove_def set_alist_remove keys_alist_remove)
  consider (open_error) e where "opened = Inl (Inl e)" | (metadata_error) e where "opened = Inl (Inr e)"
    | (opened) stamp where "opened = Inr stamp"
    by (cases opened) (metis sum.exhaust)+
  then show ?thesis
  proof cases
    case open_error
    then show ?thesis using gone [OF ok] by (auto simp: file_cache_lookup_def)
  next
    case metadata_error
    then show ?thesis using ok by (auto simp: file_cache_lookup_def)
  next
    case opened
    obtain found c where get: "lru_get ops path (bc_entries b) = (found, c)" by fastforce
    note got = get_accounts [OF lru ok get]
    have ok1: "cache_ok ops cap (cached_bytes own) (b\<lparr>bc_entries := c\<rparr>)" using got by blast
    show ?thesis
    proof (cases "\<exists>content. found = Some content \<and> cf_epoch content = epoch \<and> cf_stamp content = stamp")
      case True
      then obtain content where "found = Some content" "cf_epoch content = epoch" "cf_stamp content = stamp" by blast
      moreover from this have "(path, content) \<in> set (lru_iter ops (bc_entries b))" using got map_of_SomeD by metis
      ultimately show ?thesis using opened get got by (auto simp: file_cache_lookup_def)
    next
      case False
      then have "file_cache_lookup ops own path epoch opened b =
          map_option (\<lambda>b'. (ReadMiss stamp, b')) (file_cache_remove ops own path (b\<lparr>bc_entries := c\<rparr>))"
        using opened get by (auto simp: file_cache_lookup_def Let_def split: option.split)
      then show ?thesis using gone [OF ok1] got opened by auto
    qed
  qed
qed

lemma lru_insert_subset: "set (lru_insert n cost m k v es) \<subseteq> insert (k, v) (set es)"
proof -
  obtain j where "fitting cost (m - cost k v) (take (n - 1) (alist_remove k es)) = take j (take (n - 1) (alist_remove k es))"
    using fitting_take by blast
  then show ?thesis
    using set_take_subset [of j "take (n - 1) (alist_remove k es)"] set_take_subset [of "n - 1" "alist_remove k es"]
    by (auto simp: lru_insert_def set_alist_remove Let_def)
qed

lemma file_step_inv:
  assumes lru: "lru_ok ops cap" and inv: "file_inv ops cap own s" and step: "file_step ops lossy own s s'"
  shows "file_inv ops cap own s'"
  using step inv
proof cases
  case (file_lookup path epoch opened b r b' H)
  then show ?thesis using inv lookup_cases [OF lru, of own b path epoch opened] by (auto simp: file_inv_def)
next
  case (file_fill path epoch stamp bytes b cached b' H)
  have ok: "cache_ok ops cap (cached_bytes own) b" using inv file_fill by (simp add: file_inv_def)
  have "file_cache_insert ops own path cached b = Some b'" "cf_lines cached = line_spans (cf_content cached)"
    using file_fill(3) by (auto simp: file_cache_fill_def Let_def)
  then show ?thesis using inv file_fill(1,2) file_cache_insert_spec [OF lru ok, of path cached] lru_insert_subset
    by (fastforce simp: file_inv_def)
qed

lemma file_start_inv: "lru_ok ops cap \<Longrightarrow> file_start ops s \<Longrightarrow> file_inv ops cap own s"
  using lru_new_ok [of ops cap MAX_CACHED_FILES]
  by (auto simp: file_start_def file_inv_def file_cache_new_def cache_ok_def accounts_def MAX_CACHED_FILES_def)

interpretation file_cache: component "file_start ops" "file_step ops lossy own" "\<lambda>s. lru_ok ops cap \<longrightarrow> file_inv ops cap own s"
  for ops :: "('c, string, 'm CachedFileContent) lru_ops" and cap lossy own
proof
  show "lru_ok ops cap \<longrightarrow> file_inv ops cap own s" if "file_start ops s" for s
    using file_start_inv that by blast
  show "lru_ok ops cap \<longrightarrow> file_inv ops cap own s'"
    if "file_step ops lossy own s s'" "lru_ok ops cap \<longrightarrow> file_inv ops cap own s" for s s'
    using that file_step_inv by blast
qed

text \<open>Claim C34. A read through the cache of file contents always gets an answer. A cached content is served only when
  it was read from that path under the stamp that the file has now and for the same index epoch, with the spans of its
  lines; otherwise the file is read again and the old entry is gone. The cache never holds more than its 64 MiB.\<close>

theorem file_cache_serves_current:
  assumes "lru_ok ops cap" and "reachable (file_start ops) (file_step ops lossy own) (b, H)"
  shows "\<exists>r b'. file_cache_lookup ops own path epoch opened b = Some (r, b')
     \<and> (\<forall>c. r = ReadHit c \<longrightarrow> (path, c) \<in> H \<and> opened = Inr (cf_stamp c) \<and> cf_epoch c = epoch \<and> cf_lines c = line_spans (cf_content c))
     \<and> (\<forall>stamp. r = ReadMiss stamp \<longrightarrow> opened = Inr stamp \<and> path \<notin> fst ` set (lru_iter ops (bc_entries b')))
     \<and> bc_bytes b' \<le> MAX_CACHED_BYTES"
proof -
  have inv: "file_inv ops cap own (b, H)" using file_cache.reachable_invar [OF assms(2), of cap] assms(1) by blast
  then have ok: "cache_ok ops cap (cached_bytes own) b" "bc_max b = MAX_CACHED_BYTES"
      "set (lru_iter ops (bc_entries b)) \<subseteq> H" "\<forall>(p, c)\<in>H. cf_lines c = line_spans (cf_content c)"
    by (simp_all add: file_inv_def)
  obtain r b' where r: "file_cache_lookup ops own path epoch opened b = Some (r, b')" "cache_ok ops cap (cached_bytes own) b'"
      "bc_max b' = bc_max b"
      "\<forall>c. r = ReadHit c \<longrightarrow> (path, c) \<in> set (lru_iter ops (bc_entries b)) \<and> opened = Inr (cf_stamp c) \<and> cf_epoch c = epoch"
      "\<forall>stamp. r = ReadMiss stamp \<longrightarrow> opened = Inr stamp \<and> path \<notin> fst ` set (lru_iter ops (bc_entries b'))"
    using lookup_cases [OF assms(1) ok(1), of path epoch opened] by blast
  have "bc_bytes b' \<le> MAX_CACHED_BYTES" using r(2,3) ok(2) by (simp add: cache_ok_def)
  then show ?thesis using r(1,4,5) ok(3,4) by blast
qed

theorem file_cache_serves_current_witness:
  "\<exists>r b'. file_cache_lookup list_lru 8 ''f'' 0 (Inr (3 :: nat)) (file_cache_new list_lru MAX_CACHED_FILES MAX_CACHED_BYTES) = Some (r, b')
     \<and> bc_bytes b' \<le> MAX_CACHED_BYTES"
proof -
  have "reachable (file_start list_lru) (file_step list_lru id 8)
      (file_cache_new (list_lru :: (_, string, nat CachedFileContent) lru_ops) MAX_CACHED_FILES MAX_CACHED_BYTES, {})"
    by (rule reachable_start) (simp add: file_start_def)
  from file_cache_serves_current [OF list_lru_ok this, of "''f''" 0 "Inr 3"] show ?thesis by blast
qed

end
