(* ===== verification/Query_Cache.thy ===== *)
theory Query_Cache
  imports Byte_Caches "HOL-Library.Word"
begin

text \<open>
  The caches of query results and of query vectors in the daemon (\<^verbatim>\<open>QueryResultCache\<close>, \<^verbatim>\<open>NeuralQueryCache\<close> and their
  users in \<^verbatim>\<open>src/src/daemon.rs\<close>). A search notes the revision of the cache when it starts and may store its results only
  if no invalidation came in between; an index run invalidates all entries of its workspace.

  The theorem shows that no cached result is older than the last invalidation of any of its workspaces.
\<close>

section \<open>The cache of query results\<close>

text \<open>\<open>'s\<close> are the signatures of the search contexts.\<close>

record 's QueryCacheKey =
  workspace_ids :: "string list"
  signatures :: "'s list"
  all_indices :: bool
  query_text :: string
  query_limit :: "nat option"
  query_context :: nat
  query_type_filter :: "string option"
  query_include_globs :: "string list"
  query_exclude_globs :: "string list"
  query_scope :: "string option"
  query_skip_gitignore :: bool
  emb_dim :: nat
  wants_neural :: bool
  force_neural :: bool
  reranker :: string

definition MAX_QUERY_CACHE_ENTRIES :: nat where "MAX_QUERY_CACHE_ENTRIES = 128"
definition MAX_QUERY_CACHE_BYTES :: nat where "MAX_QUERY_CACHE_BYTES = 64 * 1024 * 1024"
definition MAX_CACHEABLE_HITS :: nat where "MAX_CACHEABLE_HITS = 2000"

record 'c QueryResultCache =
  results :: "'c ByteCache"
  revision :: "64 word"

type_synonym ('c, 's) query_ops = "('c, 's QueryCacheKey, SearchHit list \<times> nat) lru_ops"

definition query_cache_default :: "('c, 's) query_ops \<Rightarrow> 'c QueryResultCache option" where
  "query_cache_default ops =
     map_option (\<lambda>b. \<lparr>results = b, revision = 0\<rparr>) (byte_cache_new ops MAX_QUERY_CACHE_ENTRIES MAX_QUERY_CACHE_BYTES)"

definition query_cache_get ::
    "('c, 's) query_ops \<Rightarrow> 's QueryCacheKey \<Rightarrow> 'c QueryResultCache \<Rightarrow> SearchHit list option \<times> 'c QueryResultCache" where
  "query_cache_get ops k q = (case byte_cache_get ops k (results q) of (r, b) \<Rightarrow> (r, q\<lparr>results := b\<rparr>))"

text \<open>\<open>bytes_of\<close> is the memory that a key and its hits occupy, which depends on the capacities of their buffers.\<close>

definition query_cache_insert ::
    "('c, 's) query_ops \<Rightarrow> ('s QueryCacheKey \<Rightarrow> SearchHit list \<Rightarrow> nat) \<Rightarrow> 's QueryCacheKey \<Rightarrow> SearchHit list
       \<Rightarrow> 'c QueryResultCache \<Rightarrow> 'c QueryResultCache option" where
  "query_cache_insert ops bytes_of k hits q =
     map_option (\<lambda>b. q\<lparr>results := b\<rparr>) (byte_cache_insert ops k hits (bytes_of k hits) (results q))"

fun remove_keys :: "('c, 's) query_ops \<Rightarrow> 's QueryCacheKey list \<Rightarrow> 'c ByteCache \<Rightarrow> 'c ByteCache option" where
  "remove_keys ops [] b = Some b"
| "remove_keys ops (k # ks) b = Option.bind (byte_cache_remove ops k b) (remove_keys ops ks)"

definition remove_workspace :: "('c, 's) query_ops \<Rightarrow> string \<Rightarrow> 'c QueryResultCache \<Rightarrow> 'c QueryResultCache option" where
  "remove_workspace ops workspace_id q =
     (let keys = filter (\<lambda>k. list_ex (\<lambda>i. i = workspace_id) (workspace_ids k)) (byte_cache_keys ops (results q))
      in map_option (\<lambda>b. \<lparr>results = b, revision = revision q + 1\<rparr>) (remove_keys ops keys (results q)))"

text \<open>The operations of the daemon, which can have the cache turned off.\<close>

definition query_cache_revision :: "bool \<Rightarrow> 'c QueryResultCache \<Rightarrow> 64 word" where
  "query_cache_revision enabled q = (if enabled then revision q else 0)"

definition cached_query_results ::
    "('c, 's) query_ops \<Rightarrow> bool \<Rightarrow> 's QueryCacheKey \<Rightarrow> 64 word \<Rightarrow> 'c QueryResultCache
       \<Rightarrow> SearchHit list option \<times> 'c QueryResultCache" where
  "cached_query_results ops enabled k noted q =
     (if \<not> enabled then (None, q) else if revision q \<noteq> noted then (None, q) else query_cache_get ops k q)"

definition store_query_results ::
    "('c, 's) query_ops \<Rightarrow> ('s QueryCacheKey \<Rightarrow> SearchHit list \<Rightarrow> nat) \<Rightarrow> bool \<Rightarrow> 's QueryCacheKey \<Rightarrow> SearchHit list
       \<Rightarrow> 64 word \<Rightarrow> 'c QueryResultCache \<Rightarrow> 'c QueryResultCache option" where
  "store_query_results ops bytes_of enabled k hits noted q =
     (if \<not> enabled then Some q
      else if revision q \<noteq> noted \<or> MAX_CACHEABLE_HITS < length hits
           \<or> \<not> byte_cache_fits (bytes_of k hits) (results q) then Some q
      else query_cache_insert ops bytes_of k hits q)"

section \<open>The cache of query vectors\<close>

definition MAX_NEURAL_QUERY_CACHE_ENTRIES :: nat where "MAX_NEURAL_QUERY_CACHE_ENTRIES = 128"
definition MAX_NEURAL_QUERY_CACHE_BYTES :: nat where "MAX_NEURAL_QUERY_CACHE_BYTES = 4 * 1024 * 1024"

definition neural_cache_default :: "('c, string, f32 list \<times> nat) lru_ops \<Rightarrow> 'c ByteCache option" where
  "neural_cache_default ops = byte_cache_new ops MAX_NEURAL_QUERY_CACHE_ENTRIES MAX_NEURAL_QUERY_CACHE_BYTES"

definition neural_cache_get ::
    "('c, string, f32 list \<times> nat) lru_ops \<Rightarrow> string \<Rightarrow> 'c ByteCache \<Rightarrow> f32 list option \<times> 'c ByteCache" where
  "neural_cache_get ops query b = byte_cache_get ops (trim query) b"

definition neural_cache_insert ::
    "('c, string, f32 list \<times> nat) lru_ops \<Rightarrow> (string \<Rightarrow> f32 list \<Rightarrow> nat) \<Rightarrow> string \<Rightarrow> f32 list \<Rightarrow> 'c ByteCache \<Rightarrow> 'c ByteCache option" where
  "neural_cache_insert ops bytes_of query v b =
     (let q = trim query in byte_cache_insert ops q v (bytes_of q v) b)"

text \<open>A vector is stored only when the search was not cancelled and its vector is complete.\<close>

definition store_completed_neural_query ::
    "('c, string, f32 list \<times> nat) lru_ops \<Rightarrow> (string \<Rightarrow> f32 list \<Rightarrow> nat) \<Rightarrow> bool \<Rightarrow> string \<Rightarrow> f32 list option \<Rightarrow> 'c ByteCache
       \<Rightarrow> 'c ByteCache option" where
  "store_completed_neural_query ops bytes_of cancelled query completed b =
     (if cancelled then Some b
      else case completed of None \<Rightarrow> Some b | Some v \<Rightarrow> neural_cache_insert ops bytes_of query v b)"

section \<open>Searches and invalidations\<close>

text \<open>The cache with a clock: the number of invalidations so far, when each workspace was last invalidated, and when the
  search of each cached entry began.\<close>

record ('c, 's) query_system =
  query_cache :: "'c QueryResultCache"
  invalidations :: nat
  last_invalid :: "string \<Rightarrow> nat"
  born :: "'s QueryCacheKey \<Rightarrow> nat"

definition may_store :: "('s QueryCacheKey \<Rightarrow> SearchHit list \<Rightarrow> nat) \<Rightarrow> 's QueryCacheKey \<Rightarrow> SearchHit list \<Rightarrow> 64 word
    \<Rightarrow> 'c QueryResultCache \<Rightarrow> bool" where
  "may_store bytes_of k hits noted q \<longleftrightarrow>
     revision q = noted \<and> length hits \<le> MAX_CACHEABLE_HITS \<and> byte_cache_fits (bytes_of k hits) (results q)"

text \<open>A search that began at the time \<open>t\<close> holds the revision of that time.\<close>

inductive query_step :: "('c, 's) query_ops \<Rightarrow> ('s QueryCacheKey \<Rightarrow> SearchHit list \<Rightarrow> nat)
    \<Rightarrow> ('c, 's) query_system \<Rightarrow> ('c, 's) query_system \<Rightarrow> bool" for ops bytes_of where
  query_lookup: "cached_query_results ops True k noted (query_cache s) = (r, q) \<Longrightarrow>
     query_step ops bytes_of s (s\<lparr>query_cache := q\<rparr>)"
| query_store: "t \<le> invalidations s \<Longrightarrow>
     store_query_results ops bytes_of True k hits (of_nat t) (query_cache s) = Some q \<Longrightarrow>
     query_step ops bytes_of s (s\<lparr>query_cache := q,
       born := (if may_store bytes_of k hits (of_nat t) (query_cache s) then (born s)(k := t) else born s)\<rparr>)"
| query_invalidate: "remove_workspace ops w (query_cache s) = Some q \<Longrightarrow>
     query_step ops bytes_of s (s\<lparr>query_cache := q, invalidations := invalidations s + 1,
       last_invalid := (last_invalid s)(w := invalidations s + 1)\<rparr>)"

definition query_start :: "('c, 's) query_ops \<Rightarrow> ('c, 's) query_system \<Rightarrow> bool" where
  "query_start ops s \<longleftrightarrow>
     query_cache_default ops = Some (query_cache s) \<and> invalidations s = 0 \<and> last_invalid s = (\<lambda>_. 0)"

definition cached_keys :: "('c, 's) query_ops \<Rightarrow> 'c QueryResultCache \<Rightarrow> 's QueryCacheKey set" where
  "cached_keys ops q = fst ` set (lru_iter ops (bc_entries (results q)))"

definition query_inv :: "('c, 's) query_ops \<Rightarrow> ('c \<Rightarrow> nat) \<Rightarrow> ('c, 's) query_system \<Rightarrow> bool" where
  "query_inv ops cap s \<longleftrightarrow>
     cache_ok ops cap stored_cost (results (query_cache s))
     \<and> revision (query_cache s) = of_nat (invalidations s)
     \<and> (\<forall>w. last_invalid s w \<le> invalidations s)
     \<and> (invalidations s < 2 ^ 64 \<longrightarrow>
          (\<forall>k\<in>cached_keys ops (query_cache s). \<forall>w\<in>set (workspace_ids k). last_invalid s w \<le> born s k))"

lemma store_eq:
  "store_query_results ops bytes_of True k hits noted q =
     (if may_store bytes_of k hits noted q then query_cache_insert ops bytes_of k hits q else Some q)"
  by (auto simp: store_query_results_def may_store_def)

lemma remove_keys_ok:
  assumes lru: "lru_ok ops cap"
  shows "cache_ok ops cap stored_cost b \<Longrightarrow>
     \<exists>b'. remove_keys ops ks b = Some b' \<and> cache_ok ops cap stored_cost b'
        \<and> fst ` set (lru_iter ops (bc_entries b')) = fst ` set (lru_iter ops (bc_entries b)) - set ks"
proof (induction ks arbitrary: b)
  case (Cons k ks)
  obtain b1 where b1: "byte_cache_remove ops k b = Some b1" "cache_ok ops cap stored_cost b1"
      "lru_iter ops (bc_entries b1) = alist_remove k (lru_iter ops (bc_entries b))"
    using remove_ok [OF lru Cons.prems, of k] unfolding byte_cache_remove_def by blast
  then show ?case using Cons.IH [OF b1(2)] by (auto simp: keys_alist_remove)
qed simp

lemma remove_workspace_ok:
  assumes lru: "lru_ok ops cap" and ok: "cache_ok ops cap stored_cost (results q)"
  shows "\<exists>q'. remove_workspace ops w q = Some q' \<and> cache_ok ops cap stored_cost (results q') \<and> revision q' = revision q + 1
     \<and> cached_keys ops q' = {k \<in> cached_keys ops q. w \<notin> set (workspace_ids k)}"
proof -
  let ?keys = "filter (\<lambda>k. list_ex (\<lambda>i. i = w) (workspace_ids k)) (byte_cache_keys ops (results q))"
  obtain b where "remove_keys ops ?keys (results q) = Some b" "cache_ok ops cap stored_cost b"
      "fst ` set (lru_iter ops (bc_entries b)) = fst ` set (lru_iter ops (bc_entries (results q))) - set ?keys"
    using remove_keys_ok [OF lru ok] by blast
  then show ?thesis by (auto simp: remove_workspace_def byte_cache_keys_def list_ex_iff cached_keys_def)
qed

lemma insert_keys: "fst ` set (lru_insert n cost m k v es) \<subseteq> insert k (fst ` set es)"
  using lru_insert_subset [of n cost m k v es] by auto

lemma query_step_inv:
  assumes lru: "lru_ok ops cap" and inv: "query_inv ops cap s" and step: "query_step ops bytes_of s s'"
  shows "query_inv ops cap s'"
  using step
proof cases
  case (query_lookup k noted r q)
  let ?b = "results (query_cache s)"
  obtain x c where get: "lru_get ops k (bc_entries ?b) = (x, c)" by fastforce
  have ok: "cache_ok ops cap stored_cost ?b" using inv by (simp add: query_inv_def)
  consider "q = query_cache s" | "q = (query_cache s)\<lparr>results := ?b\<lparr>bc_entries := c\<rparr>\<rparr>"
    using query_lookup(2) get by (auto simp: cached_query_results_def query_cache_get_def byte_cache_get_def split: if_splits)
  then have "cached_keys ops q = cached_keys ops (query_cache s) \<and> cache_ok ops cap stored_cost (results q) \<and> revision q = revision (query_cache s)"
    using get_accounts [OF lru ok get] ok by cases (auto simp: cached_keys_def)
  then show ?thesis using query_lookup(1) inv by (simp add: query_inv_def)
next
  case (query_store t k hits q)
  let ?b = "results (query_cache s)"
  show ?thesis
  proof (cases "may_store bytes_of k hits (of_nat t) (query_cache s)")
    case False
    then show ?thesis using query_store inv by (auto simp: store_eq query_inv_def)
  next
    case True
    have ok: "cache_ok ops cap stored_cost ?b" using inv by (simp add: query_inv_def)
    obtain b where b: "byte_cache_insert ops k hits (bytes_of k hits) ?b = Some b" "cache_ok ops cap stored_cost b"
        "fst ` set (lru_iter ops (bc_entries b)) \<subseteq> insert k (fst ` set (lru_iter ops (bc_entries ?b)))"
      using byte_cache_insert_spec [OF lru ok, of k hits "bytes_of k hits"] insert_keys by metis
    have q: "q = (query_cache s)\<lparr>results := b\<rparr>"
      using query_store(3) True b(1) by (simp add: store_eq query_cache_insert_def)
    have "t = invalidations s" if "invalidations s < 2 ^ 64"
    proof -
      have "(of_nat (invalidations s) :: 64 word) = of_nat t" using True inv by (simp add: may_store_def query_inv_def)
      then have "unat (of_nat (invalidations s) :: 64 word) = unat (of_nat t :: 64 word)" by simp
      then show ?thesis using that query_store(2) by (simp add: unat_of_nat)
    qed
    moreover have "cached_keys ops q \<subseteq> insert k (cached_keys ops (query_cache s))" using b(3) q by (simp add: cached_keys_def)
    ultimately show ?thesis using query_store(1) inv b(2) q True by (auto simp: query_inv_def)
  qed
next
  case (query_invalidate w q)
  have ok: "cache_ok ops cap stored_cost (results (query_cache s))" using inv by (simp add: query_inv_def)
  have "cache_ok ops cap stored_cost (results q)" "revision q = revision (query_cache s) + 1"
      "cached_keys ops q = {k \<in> cached_keys ops (query_cache s). w \<notin> set (workspace_ids k)}"
    using query_invalidate(2) remove_workspace_ok [OF lru ok, of w] by auto
  then show ?thesis using query_invalidate(1) inv by (auto simp: query_inv_def le_Suc_eq)
qed

lemma query_start_inv:
  assumes "lru_ok ops cap" and "query_start ops s"
  shows "query_inv ops cap s"
proof -
  obtain b where b: "byte_cache_new ops MAX_QUERY_CACHE_ENTRIES MAX_QUERY_CACHE_BYTES = Some b"
      "query_cache s = \<lparr>results = b, revision = 0\<rparr>"
    using assms(2) by (auto simp: query_start_def query_cache_default_def)
  then have "cache_ok ops cap stored_cost b" using cache_start_ok [OF assms(1)] unfolding cache_start_def by blast
  then show ?thesis using assms(2) b(2) by (simp add: query_inv_def query_start_def)
qed

interpretation query_results: component "query_start ops" "query_step ops bytes_of" "\<lambda>s. lru_ok ops cap \<longrightarrow> query_inv ops cap s"
  for ops :: "('c, 's) query_ops" and cap bytes_of
proof
  show "lru_ok ops cap \<longrightarrow> query_inv ops cap s" if "query_start ops s" for s
    using query_start_inv that by blast
  show "lru_ok ops cap \<longrightarrow> query_inv ops cap s'"
    if "query_step ops bytes_of s s'" "lru_ok ops cap \<longrightarrow> query_inv ops cap s" for s s'
    using that query_step_inv by blast
qed

section \<open>Properties\<close>

text \<open>Claim C12. As long as there were fewer than two to the power of 64 invalidations, a lookup returns only results of
  a search that began after the last invalidation of each of its workspaces, however searches and index runs were
  interleaved. Lookups, stores and invalidations never fail.\<close>

theorem query_results_not_stale:
  assumes "lru_ok ops cap" and "reachable (query_start ops) (query_step ops bytes_of) s" and "invalidations s < 2 ^ 64"
  shows "(fst (cached_query_results ops True k noted (query_cache s)) = Some hits \<longrightarrow>
            (\<forall>w\<in>set (workspace_ids k). last_invalid s w \<le> born s k))
     \<and> store_query_results ops bytes_of True k new_hits noted (query_cache s) \<noteq> None
     \<and> remove_workspace ops w (query_cache s) \<noteq> None"
proof -
  let ?b = "results (query_cache s)"
  have inv: "query_inv ops cap s" using query_results.reachable_invar [OF assms(2), of cap] assms(1) by blast
  then have ok: "cache_ok ops cap stored_cost ?b" by (simp add: query_inv_def)
  obtain x c where get: "lru_get ops k (bc_entries ?b) = (x, c)" by fastforce
  have "k \<in> cached_keys ops (query_cache s)"
    if "fst (cached_query_results ops True k noted (query_cache s)) = Some hits"
  proof -
    have "x \<noteq> None" using that get by (auto simp: cached_query_results_def query_cache_get_def byte_cache_get_def split: if_splits)
    then show ?thesis using get_accounts [OF assms(1) ok get] by (auto simp: cached_keys_def keys_map_of)
  qed
  then have "\<forall>w\<in>set (workspace_ids k). last_invalid s w \<le> born s k"
    if "fst (cached_query_results ops True k noted (query_cache s)) = Some hits"
    using that inv assms(3) by (simp add: query_inv_def)
  moreover have "store_query_results ops bytes_of True k new_hits noted (query_cache s) \<noteq> None"
    using byte_cache_insert_spec [OF assms(1) ok, of k new_hits "bytes_of k new_hits"]
    by (auto simp: store_eq query_cache_insert_def)
  moreover have "remove_workspace ops w (query_cache s) \<noteq> None" using remove_workspace_ok [OF assms(1) ok, of w] by auto
  ultimately show ?thesis by blast
qed

definition demo_key :: "unit QueryCacheKey" where
  "demo_key = \<lparr>workspace_ids = [''w''], signatures = [], all_indices = False, query_text = ''q'', query_limit = None,
     query_context = 2, query_type_filter = None, query_include_globs = [], query_exclude_globs = [], query_scope = None,
     query_skip_gitignore = False, emb_dim = 256, wants_neural = False, force_neural = False, reranker = []\<rparr>"

definition demo_query_system :: "(nat \<times> (unit QueryCacheKey \<times> SearchHit list \<times> nat) list, unit) query_system" where
  "demo_query_system = \<lparr>query_cache = \<lparr>results = \<lparr>bc_entries = (128, []), bc_bytes = 0, bc_max = MAX_QUERY_CACHE_BYTES\<rparr>, revision = 0\<rparr>,
     invalidations = 0, last_invalid = (\<lambda>_. 0), born = (\<lambda>_. 0)\<rparr>"

theorem query_results_not_stale_witness:
  "store_query_results list_lru (\<lambda>_ _. 5) True demo_key [] 0 (query_cache demo_query_system) \<noteq> None
   \<and> remove_workspace list_lru ''w'' (query_cache demo_query_system) \<noteq> None"
proof -
  have "reachable (query_start list_lru) (query_step list_lru (\<lambda>_ _. 5)) demo_query_system"
    by (rule reachable_start) (simp add: query_start_def demo_query_system_def query_cache_default_def byte_cache_new_def
        list_lru_def MAX_QUERY_CACHE_ENTRIES_def)
  from query_results_not_stale [OF list_lru_ok this, of demo_key 0 _ "[]" "''w''"] show ?thesis
    by (simp add: demo_query_system_def)
qed

end
