(* ===== verification/Watch_Control.thy ===== *)
theory Watch_Control
  imports Prelude "HOL-Library.Word"
begin

text \<open>
  The watcher of a workspace (\<^verbatim>\<open>WatchControl\<close> and \<^verbatim>\<open>spawn_watch_worker\<close> of \<^verbatim>\<open>src/src/daemon.rs\<close>). File events are
  merged into pending work under a lock; a worker task takes all of it at once, runs the indexer and requeues a full
  reconciliation when that fails; searches wait until the first reconciliation is done. The task and its callers are
  a transition system; the points between which the task can be interrupted are the values of its program counter.

  The theorems show that no reported change is lost while the watcher is active, when readiness is announced, that the
  retry and debounce times are bounded, and that stopping a watcher can miss its worker, which then sleeps forever.
\<close>

section \<open>Pending work\<close>

datatype 'p WatchChange = NoChange | ChangedPaths "'p set" | FullReconciliation

record 'p PendingWatchWork =
  change :: "'p WatchChange"
  backend_error :: "string option"

datatype WatchReadiness = Reconciling | Ready | Failed string | StoppedWatch

text \<open>\<open>wake_permit\<close> is the permit that \<^verbatim>\<open>notify_one\<close> stores for the next \<^verbatim>\<open>notified\<close>.\<close>

record 'p WatchControl =
  wake_permit :: bool
  dirty :: bool
  indexing :: bool
  retrying :: bool
  active :: bool
  initial_scan_required :: bool
  initial_reconciliation_pending :: bool
  readiness :: WatchReadiness
  pending_events :: "64 word"
  coalesced_events :: "64 word"
  pending_work :: "'p PendingWatchWork"

definition no_work :: "'p PendingWatchWork" where
  "no_work = \<lparr>change = NoChange, backend_error = None\<rparr>"

definition watch_control_new :: "'p WatchControl" where
  "watch_control_new = \<lparr>wake_permit = False, dirty = False, indexing = False, retrying = False, active = True,
     initial_scan_required = True, initial_reconciliation_pending = True, readiness = Reconciling,
     pending_events = 0, coalesced_events = 0, pending_work = no_work\<rparr>"

definition add_paths :: "'p set \<Rightarrow> 'p WatchChange \<Rightarrow> 'p WatchChange" where
  "add_paths paths c =
     (case c of NoChange \<Rightarrow> ChangedPaths paths | ChangedPaths old \<Rightarrow> ChangedPaths (old \<union> paths) | FullReconciliation \<Rightarrow> FullReconciliation)"

definition mark_paths_dirty :: "'p set \<Rightarrow> 'p WatchControl \<Rightarrow> 'p WatchControl" where
  "mark_paths_dirty paths c =
     (if paths = {} then c
      else c\<lparr>pending_work := (pending_work c)\<lparr>change := add_paths paths (change (pending_work c))\<rparr>,
             dirty := True, pending_events := pending_events c + 1, wake_permit := True\<rparr>)"

definition mark_full_reconciliation :: "string option \<Rightarrow> 'p WatchControl \<Rightarrow> 'p WatchControl" where
  "mark_full_reconciliation err c =
     c\<lparr>pending_work := \<lparr>change = FullReconciliation,
         backend_error = (if err \<noteq> None then err else backend_error (pending_work c))\<rparr>,
       dirty := True, pending_events := pending_events c + 1, wake_permit := True\<rparr>"

definition take_pending_work :: "'p WatchControl \<Rightarrow> ('p PendingWatchWork \<times> 'p WatchControl) option" where
  "take_pending_work c =
     (if change (pending_work c) = NoChange then None
      else Some (pending_work c, c\<lparr>indexing := True, pending_work := no_work, dirty := False\<rparr>))"

definition requeue_failed_index :: "string \<Rightarrow> 'p WatchControl \<Rightarrow> 'p WatchControl" where
  "requeue_failed_index err c = mark_full_reconciliation (Some err) (c\<lparr>retrying := True\<rparr>)"

definition snapshot_phase :: "'p WatchControl \<Rightarrow> string \<times> bool \<times> bool \<times> 64 word \<times> 64 word" where
  "snapshot_phase c =
     (if retrying c then ''error'' else if indexing c then ''indexing'' else if dirty c then ''dirty'' else ''idle'',
      indexing c, dirty c, pending_events c, coalesced_events c)"

text \<open>The answer of the watch backend: an event, classified by the filter, or an error.\<close>

datatype 'p watch_result = RescanEvent | FilteredEvent "'p WatchChange" | BackendError string

fun handle_watch_result :: "'p watch_result \<Rightarrow> 'p WatchControl \<Rightarrow> 'p WatchControl" where
  "handle_watch_result RescanEvent c = mark_full_reconciliation None c"
| "handle_watch_result (FilteredEvent NoChange) c = c"
| "handle_watch_result (FilteredEvent (ChangedPaths paths)) c = mark_paths_dirty paths c"
| "handle_watch_result (FilteredEvent FullReconciliation) c = mark_full_reconciliation None c"
| "handle_watch_result (BackendError err) c = mark_full_reconciliation (Some err) c"

section \<open>Readiness\<close>

definition publish_ready :: "'p WatchControl \<Rightarrow> 'p WatchControl" where
  "publish_ready c = (if readiness c = StoppedWatch then c else c\<lparr>readiness := Ready\<rparr>)"

definition publish_initial_watch_readiness_if_caught_up :: "'p WatchControl \<Rightarrow> 'p WatchControl" where
  "publish_initial_watch_readiness_if_caught_up c =
     (if \<not> initial_reconciliation_pending c then c
      else if \<not> active c \<or> initial_scan_required c \<or> change (pending_work c) \<noteq> NoChange \<or> indexing c then c
      else publish_ready (c\<lparr>initial_reconciliation_pending := False\<rparr>))"

definition complete_initial_watch_reconciliation :: "'p WatchControl \<Rightarrow> 'p WatchControl" where
  "complete_initial_watch_reconciliation c =
     (if \<not> active c \<or> \<not> initial_reconciliation_pending c then c
      else publish_initial_watch_readiness_if_caught_up (c\<lparr>initial_scan_required := False\<rparr>))"

definition publish_failure :: "string \<Rightarrow> 'p WatchControl \<Rightarrow> 'p WatchControl" where
  "publish_failure err c =
     (if initial_reconciliation_pending c \<and> readiness c \<noteq> StoppedWatch then c\<lparr>readiness := Failed err\<rparr> else c)"

definition check_watcher_reconciliation :: "WatchReadiness \<Rightarrow> string + unit" where
  "check_watcher_reconciliation r =
     (case r of
        Ready \<Rightarrow> Inr ()
      | Failed message \<Rightarrow> Inl (''watcher reconciliation failed: '' @ message)
      | Reconciling \<Rightarrow> Inl ''workspace watcher is reconciling offline changes; retry when indexing completes''
      | StoppedWatch \<Rightarrow> Inl ''workspace watcher stopped during reconciliation'')"

section \<open>The worker task\<close>

text \<open>Where the task is: before and inside the wait for a notification, awake and debouncing, at the head of the inner
  loop, with claimed work, inside an index run over some paths, and after the inner loop.\<close>

datatype 'p worker_pc =
  BeforeWait | Waiting | Notified | Debouncing | LoopHead
| Claimed "'p PendingWatchWork" | IndexRun "'p set" | AfterLoop | Ended

text \<open>With the control and the task: the paths reported before the current work was claimed that no finished run has
  covered, and those reported since; these two are not part of the program. \<open>registered\<close> is whether the daemon's
  table of watchers has this control.\<close>

record 'p watcher =
  control :: "'p WatchControl"
  worker :: "'p worker_pc"
  registered :: bool
  open_before :: "'p set"
  open_since :: "'p set"

definition change_paths :: "'p WatchChange \<Rightarrow> 'p set" where
  "change_paths c = (case c of NoChange \<Rightarrow> {} | ChangedPaths paths \<Rightarrow> paths | FullReconciliation \<Rightarrow> UNIV)"

definition watcher_start :: "'p watcher" where
  "watcher_start = \<lparr>control = watch_control_new\<lparr>wake_permit := True\<rparr>, worker = BeforeWait, registered = True, open_before = {}, open_since = {}\<rparr>"

definition worker_wakes :: "'p watcher \<Rightarrow> 'p watcher" where
  "worker_wakes s =
     (let c = (if worker s = Notified then control s else (control s)\<lparr>wake_permit := False\<rparr>)
      in s\<lparr>control := c, worker := (if active c then Debouncing else Ended)\<rparr>)"

definition worker_debounced :: "'p watcher \<Rightarrow> 'p watcher" where
  "worker_debounced s =
     (if \<not> active (control s) then s\<lparr>worker := Ended\<rparr>
      else if indexing (control s) then s\<lparr>worker := BeforeWait\<rparr>
      else s\<lparr>control := (control s)\<lparr>indexing := True\<rparr>, worker := LoopHead\<rparr>)"

definition count_events :: "'p WatchControl \<Rightarrow> 'p WatchControl" where
  "count_events c =
     c\<lparr>retrying := False, coalesced_events := coalesced_events c + (if pending_events c = 0 then 0 else pending_events c - 1),
       pending_events := 0\<rparr>"

definition worker_claims :: "'p watcher \<Rightarrow> 'p watcher" where
  "worker_claims s =
     (if \<not> active (control s) then s\<lparr>worker := AfterLoop\<rparr>
      else case take_pending_work (control s) of
             Some (work, c) \<Rightarrow>
               s\<lparr>control := count_events c, worker := Claimed work,
                 open_before := open_before s \<union> open_since s, open_since := {}\<rparr>
           | None \<Rightarrow>
               if initial_scan_required (control s)
               then s\<lparr>control := count_events (control s), worker := Claimed no_work,
                      open_before := open_before s \<union> open_since s, open_since := {}\<rparr>
               else s\<lparr>worker := AfterLoop\<rparr>)"

text \<open>The end of a run without an error; \<open>follow_up\<close> is whether the external ignore file changed meanwhile.\<close>

definition run_succeeds :: "bool \<Rightarrow> 'p watcher \<Rightarrow> 'p watcher" where
  "run_succeeds follow_up s =
     (let c1 = (if follow_up then mark_full_reconciliation None (control s) else control s)
      in s\<lparr>control := complete_initial_watch_reconciliation c1, worker := LoopHead,
           open_since := (if follow_up then UNIV else open_since s)\<rparr>)"

definition run_fails :: "string \<Rightarrow> 'p watcher \<Rightarrow> 'p watcher" where
  "run_fails err s =
     s\<lparr>control := requeue_failed_index err (publish_failure err (control s)), worker := LoopHead, open_since := UNIV\<rparr>"

text \<open>The run is skipped when the watcher was stopped or the first scan was done by someone else.\<close>

definition run_starts :: "'p PendingWatchWork \<Rightarrow> 'p watcher \<Rightarrow> 'p watcher" where
  "run_starts work s =
     (if \<not> active (control s) \<or> change work = NoChange \<and> \<not> initial_scan_required (control s)
      then run_succeeds False s
      else s\<lparr>worker := IndexRun (if change_paths (change work) = {} \<or> change work = FullReconciliation
               \<or> initial_scan_required (control s) then UNIV else change_paths (change work))\<rparr>)"

definition run_ends :: "bool \<Rightarrow> 'p set \<Rightarrow> 'p watcher \<Rightarrow> 'p watcher" where
  "run_ends follow_up covered s = run_succeeds follow_up (s\<lparr>open_before := open_before s - covered\<rparr>)"

definition worker_leaves :: "'p watcher \<Rightarrow> 'p watcher" where
  "worker_leaves s =
     (let c = publish_initial_watch_readiness_if_caught_up ((control s)\<lparr>indexing := False\<rparr>)
      in s\<lparr>control := c, worker := (if active c then BeforeWait else Ended)\<rparr>)"

text \<open>The registration is taken out of the table before it is stopped. \<^verbatim>\<open>notify_waiters\<close> wakes a task that waits now and stores no permit.\<close>

definition stop_watcher :: "'p watcher \<Rightarrow> 'p watcher" where
  "stop_watcher s =
     s\<lparr>control := (control s)\<lparr>active := False, readiness := StoppedWatch\<rparr>,
       worker := (if worker s = Waiting then Notified else worker s)\<rparr>"

definition release_for_missing_root :: "'p watcher \<Rightarrow> 'p watcher" where
  "release_for_missing_root s =
     (if registered s then stop_watcher (s\<lparr>registered := False, worker := AfterLoop\<rparr>) else s\<lparr>worker := AfterLoop\<rparr>)"

definition report :: "'p watch_result \<Rightarrow> 'p watcher \<Rightarrow> 'p watcher" where
  "report r s =
     s\<lparr>control := handle_watch_result r (control s),
       open_since := open_since s \<union> (case r of FilteredEvent c \<Rightarrow> change_paths c | _ \<Rightarrow> UNIV)\<rparr>"

inductive worker_step :: "'p watcher \<Rightarrow> 'p watcher \<Rightarrow> bool" where
  waits: "worker s = BeforeWait \<Longrightarrow> worker_step s (s\<lparr>worker := Waiting\<rparr>)"
| wakes: "worker s = Notified \<or> worker s = Waiting \<and> wake_permit (control s) \<Longrightarrow> worker_step s (worker_wakes s)"
| debounced: "worker s = Debouncing \<Longrightarrow> worker_step s (worker_debounced s)"
| claims: "worker s = LoopHead \<Longrightarrow> worker_step s (worker_claims s)"
| starts: "worker s = Claimed work \<Longrightarrow> worker_step s (run_starts work s)"
| lease_fails: "worker s = Claimed work \<Longrightarrow> worker_step s (run_fails err s)"
| ends: "worker s = IndexRun covered \<Longrightarrow> worker_step s (run_ends follow_up covered s)"
| fails: "worker s = IndexRun covered \<Longrightarrow> worker_step s (run_fails err s)"
| root_gone: "worker s = IndexRun covered \<or> worker s = Claimed work \<Longrightarrow> worker_step s (release_for_missing_root s)"
| leaves: "worker s = AfterLoop \<Longrightarrow> worker_step s (worker_leaves s)"

inductive watcher_step :: "'p watcher \<Rightarrow> 'p watcher \<Rightarrow> bool" where
  worker_moves: "worker_step s s' \<Longrightarrow> watcher_step s s'"
| reported: "watcher_step s (report r s)"
| index_completed: "watcher_step s (s\<lparr>control := complete_initial_watch_reconciliation (control s)\<rparr>)"
| refresh_failed: "watcher_step s (s\<lparr>control := requeue_failed_index err (control s), open_since := UNIV\<rparr>)"
| unregistered: "watcher_step s (s\<lparr>registered := False\<rparr>)"
| stopped: "\<not> registered s \<Longrightarrow> watcher_step s (stop_watcher s)"

section \<open>The invariant\<close>

definition work_paths :: "'p worker_pc \<Rightarrow> 'p set" where
  "work_paths pc = (case pc of Claimed work \<Rightarrow> change_paths (change work) | IndexRun covered \<Rightarrow> covered | _ \<Rightarrow> {})"

definition has_work :: "'p WatchControl \<Rightarrow> bool" where
  "has_work c \<longleftrightarrow> change (pending_work c) \<noteq> NoChange \<or> initial_scan_required c"

definition queue_inv :: "'p watcher \<Rightarrow> bool" where
  "queue_inv s \<longleftrightarrow>
     dirty (control s) = (change (pending_work (control s)) \<noteq> NoChange)
     \<and> open_since s \<subseteq> change_paths (change (pending_work (control s)))
     \<and> (registered s \<longrightarrow> active (control s)
          \<and> open_before s \<subseteq> change_paths (change (pending_work (control s))) \<union> work_paths (worker s))"

definition sleep_inv :: "'p watcher \<Rightarrow> bool" where
  "sleep_inv s \<longleftrightarrow>
     (worker s \<in> {BeforeWait, Waiting, Notified, Debouncing} \<longrightarrow> \<not> indexing (control s))
     \<and> (registered s \<and> worker s \<in> {AfterLoop, BeforeWait, Waiting} \<and> has_work (control s) \<longrightarrow> wake_permit (control s))
     \<and> (worker s \<in> {Notified, Ended} \<longrightarrow> \<not> registered s)"

definition ready_inv :: "'p watcher \<Rightarrow> bool" where
  "ready_inv s \<longleftrightarrow>
     (\<not> initial_reconciliation_pending (control s) \<longrightarrow> \<not> initial_scan_required (control s))
     \<and> (readiness (control s) \<noteq> StoppedWatch \<longrightarrow>
          (readiness (control s) = Ready \<longleftrightarrow> \<not> initial_reconciliation_pending (control s)))"

definition watcher_inv :: "'p watcher \<Rightarrow> bool" where
  "watcher_inv s \<longleftrightarrow> queue_inv s \<and> sleep_inv s \<and> ready_inv s"

lemmas inv_defs = watcher_inv_def queue_inv_def sleep_inv_def ready_inv_def has_work_def

lemmas mark_defs = mark_full_reconciliation_def mark_paths_dirty_def requeue_failed_index_def no_work_def

lemmas publish_defs = complete_initial_watch_reconciliation_def publish_initial_watch_readiness_if_caught_up_def
  publish_ready_def publish_failure_def

lemma change_paths_simps [simp]:
  "change_paths NoChange = {}" "change_paths (ChangedPaths ps) = ps" "change_paths FullReconciliation = UNIV"
  by (simp_all add: change_paths_def)

lemma add_paths_change [simp]:
  "add_paths ps c \<noteq> NoChange" "change_paths (add_paths ps c) = change_paths c \<union> ps"
  by (auto simp: add_paths_def split: WatchChange.split)

text \<open>Marking a full reconciliation keeps the invariant wherever the worker is.\<close>

lemma mark_full_inv: "watcher_inv s \<Longrightarrow> watcher_inv (s\<lparr>control := mark_full_reconciliation err (control s), open_since := UNIV\<rparr>)"
  by (auto simp: inv_defs mark_defs)

lemma mark_paths_inv:
  assumes "watcher_inv s" and "ps \<noteq> {}"
  shows "watcher_inv (s\<lparr>control := mark_paths_dirty ps (control s), open_since := open_since s \<union> ps\<rparr>)"
proof -
  let ?s = "s\<lparr>control := mark_paths_dirty ps (control s), open_since := open_since s \<union> ps\<rparr>"
  have q: "queue_inv s" and z: "sleep_inv s" and r: "ready_inv s" using assms(1) by (simp_all add: watcher_inv_def)
  have "queue_inv ?s" using q assms(2) unfolding queue_inv_def mark_paths_dirty_def by (simp add: le_supI1) blast
  moreover have "sleep_inv ?s" using z assms(2) by (simp add: sleep_inv_def mark_paths_dirty_def)
  moreover have "ready_inv ?s" using r assms(2) by (simp add: ready_inv_def mark_paths_dirty_def)
  ultimately show ?thesis by (simp add: watcher_inv_def)
qed

lemma report_inv: "watcher_inv s \<Longrightarrow> watcher_inv (report r s)"
proof (cases r)
  case RescanEvent
  assume "watcher_inv s"
  then show ?thesis using RescanEvent mark_full_inv [of s None] by (simp add: report_def)
next
  case (BackendError err)
  assume "watcher_inv s"
  then show ?thesis using BackendError mark_full_inv [of s "Some err"] by (simp add: report_def)
next
  case (FilteredEvent c)
  assume inv: "watcher_inv s"
  show ?thesis
  proof (cases c)
    case (ChangedPaths ps)
    then have "report r s = (if ps = {} then s
        else s\<lparr>control := mark_paths_dirty ps (control s), open_since := open_since s \<union> ps\<rparr>)"
      using FilteredEvent by (simp add: report_def mark_paths_dirty_def)
    then show ?thesis using inv mark_paths_inv [OF inv, of ps] by simp
  qed (use FilteredEvent inv mark_full_inv [of s None] in \<open>simp_all add: report_def\<close>)
qed

lemma publish_fields [simp]:
  "pending_work (publish_initial_watch_readiness_if_caught_up c) = pending_work c"
  "dirty (publish_initial_watch_readiness_if_caught_up c) = dirty c"
  "active (publish_initial_watch_readiness_if_caught_up c) = active c"
  "indexing (publish_initial_watch_readiness_if_caught_up c) = indexing c"
  "wake_permit (publish_initial_watch_readiness_if_caught_up c) = wake_permit c"
  "initial_scan_required (publish_initial_watch_readiness_if_caught_up c) = initial_scan_required c"
  by (simp_all add: publish_initial_watch_readiness_if_caught_up_def publish_ready_def)

lemma complete_fields [simp]:
  "pending_work (complete_initial_watch_reconciliation c) = pending_work c"
  "dirty (complete_initial_watch_reconciliation c) = dirty c"
  "active (complete_initial_watch_reconciliation c) = active c"
  "indexing (complete_initial_watch_reconciliation c) = indexing c"
  "wake_permit (complete_initial_watch_reconciliation c) = wake_permit c"
  by (simp_all add: complete_initial_watch_reconciliation_def)

lemma complete_scan: "initial_scan_required (complete_initial_watch_reconciliation c) \<Longrightarrow> initial_scan_required c"
  by (simp add: complete_initial_watch_reconciliation_def split: if_splits)

text \<open>The announcements keep the part of the invariant that is about readiness.\<close>

definition ready_ok :: "'p WatchControl \<Rightarrow> bool" where
  "ready_ok c \<longleftrightarrow>
     (\<not> initial_reconciliation_pending c \<longrightarrow> \<not> initial_scan_required c)
     \<and> (readiness c \<noteq> StoppedWatch \<longrightarrow> (readiness c = Ready \<longleftrightarrow> \<not> initial_reconciliation_pending c))"

lemma ready_inv_ok: "ready_inv s \<longleftrightarrow> ready_ok (control s)"
  by (simp add: ready_inv_def ready_ok_def)

lemma publish_ready_ok:
  assumes "ready_ok c"
  shows "ready_ok (publish_initial_watch_readiness_if_caught_up c)" and "ready_ok (complete_initial_watch_reconciliation c)"
proof -
  have pub: "ready_ok (publish_initial_watch_readiness_if_caught_up d)" if "ready_ok d" for d :: "'a WatchControl"
    using that by (simp add: ready_ok_def publish_initial_watch_readiness_if_caught_up_def publish_ready_def)
  then show "ready_ok (publish_initial_watch_readiness_if_caught_up c)" using assms by blast
  have "ready_ok (c\<lparr>initial_scan_required := False\<rparr>)" using assms by (simp add: ready_ok_def)
  then show "ready_ok (complete_initial_watch_reconciliation c)"
    using assms pub by (simp add: complete_initial_watch_reconciliation_def)
qed

lemma complete_inv: "watcher_inv s \<Longrightarrow> watcher_inv (s\<lparr>control := complete_initial_watch_reconciliation (control s)\<rparr>)"
  using publish_ready_ok(2) [of "control s"] complete_scan [of "control s"]
  by (simp add: watcher_inv_def queue_inv_def sleep_inv_def has_work_def ready_inv_ok)

lemma stop_inv:
  assumes "watcher_inv s" and "\<not> registered s"
  shows "watcher_inv (stop_watcher s)"
proof -
  have "sleep_inv (stop_watcher s)" using assms by (simp add: watcher_inv_def sleep_inv_def stop_watcher_def)
  then show ?thesis using assms by (simp add: watcher_inv_def queue_inv_def ready_inv_def stop_watcher_def)
qed

lemma run_succeeds_inv:
  assumes inv: "watcher_inv s" and "open_before s \<subseteq> change_paths (change (pending_work (control s))) \<or> \<not> registered s"
  shows "watcher_inv (run_succeeds follow_up s)"
proof -
  have parts: "queue_inv s" "sleep_inv s" "ready_ok (control s)" using inv by (simp_all add: watcher_inv_def ready_inv_ok)
  let ?s = "s\<lparr>worker := LoopHead\<rparr>"
  have head: "watcher_inv ?s" using parts assms(2) by (auto simp: watcher_inv_def queue_inv_def sleep_inv_def ready_inv_ok)
  show ?thesis
  proof (cases follow_up)
    case True
    have "run_succeeds True s = s\<lparr>worker := LoopHead, open_since := UNIV,
        control := complete_initial_watch_reconciliation (mark_full_reconciliation None (control s))\<rparr>"
      by (cases s) (simp add: run_succeeds_def)
    then show ?thesis using True complete_inv [OF mark_full_inv [OF head, of None]]
      by (cases s) simp
  next
    case False
    then show ?thesis using complete_inv [OF head] by (cases s) (simp add: run_succeeds_def)
  qed
qed

lemma publish_failure_inv:
  assumes "ready_ok c"
  shows "ready_ok (publish_failure err c)" "pending_work (publish_failure err c) = pending_work c"
    "active (publish_failure err c) = active c"
  using assms by (simp_all add: publish_failure_def ready_ok_def)

lemma run_fails_inv:
  assumes "watcher_inv s"
  shows "watcher_inv (run_fails err s)"
proof -
  let ?c = "publish_failure err (control s)"
  have parts: "queue_inv s" "sleep_inv s" "ready_ok (control s)" using assms by (simp_all add: watcher_inv_def ready_inv_ok)
  have "queue_inv (run_fails err s)"
    using parts(1,3) by (simp add: run_fails_def queue_inv_def mark_defs publish_failure_inv)
  moreover have "sleep_inv (run_fails err s)" by (simp add: run_fails_def sleep_inv_def)
  moreover have "ready_inv (run_fails err s)"
    using publish_failure_inv(1) [OF parts(3), of err] by (simp add: run_fails_def ready_inv_def mark_defs ready_ok_def)
  ultimately show ?thesis by (simp add: watcher_inv_def)
qed

lemma claims_inv:
  assumes "watcher_inv s" and "worker s = LoopHead"
  shows "watcher_inv (worker_claims s)"
proof -
  have parts: "queue_inv s" "sleep_inv s" "ready_ok (control s)" using assms(1) by (simp_all add: watcher_inv_def ready_inv_ok)
  show ?thesis
  proof (cases "active (control s)")
    case False
    then show ?thesis using parts assms(2)
      by (auto simp: worker_claims_def watcher_inv_def queue_inv_def sleep_inv_def ready_inv_ok work_paths_def)
  next
    case True
    show ?thesis
    proof (cases "change (pending_work (control s)) = NoChange")
      case empty: True
      then show ?thesis using parts assms(2) True
        by (cases "initial_scan_required (control s)")
          (auto simp: worker_claims_def take_pending_work_def watcher_inv_def queue_inv_def sleep_inv_def ready_inv_ok
            work_paths_def has_work_def count_events_def ready_ok_def no_work_def)
    next
      case False
      then have "worker_claims s = s\<lparr>control := count_events ((control s)\<lparr>indexing := True, pending_work := no_work, dirty := False\<rparr>),
          worker := Claimed (pending_work (control s)), open_before := open_before s \<union> open_since s, open_since := {}\<rparr>"
        using True by (simp add: worker_claims_def take_pending_work_def)
      then show ?thesis using parts assms(2)
        by (auto simp: watcher_inv_def queue_inv_def sleep_inv_def ready_inv_ok work_paths_def count_events_def ready_ok_def no_work_def)
    qed
  qed
qed

lemma starts_inv:
  assumes inv: "watcher_inv s" and pc: "worker s = Claimed work"
  shows "watcher_inv (run_starts work s)"
proof (cases "\<not> active (control s) \<or> change work = NoChange \<and> \<not> initial_scan_required (control s)")
  case True
  have "queue_inv s" using inv by (simp add: watcher_inv_def)
  then have "open_before s \<subseteq> change_paths (change (pending_work (control s))) \<or> \<not> registered s"
    using True pc by (auto simp: queue_inv_def work_paths_def)
  then have "watcher_inv (run_succeeds False s)" by (rule run_succeeds_inv [OF inv])
  then show ?thesis using True by (simp add: run_starts_def)
next
  case False
  let ?covered = "if change_paths (change work) = {} \<or> change work = FullReconciliation \<or> initial_scan_required (control s)
      then UNIV else change_paths (change work)"
  have "change_paths (change work) \<subseteq> ?covered" by auto
  moreover have "run_starts work s = s\<lparr>worker := IndexRun ?covered\<rparr>"
    unfolding run_starts_def using False by (rule if_not_P)
  ultimately show ?thesis using inv pc
    by (auto simp: watcher_inv_def queue_inv_def sleep_inv_def ready_inv_ok work_paths_def)
qed

lemma leaves_inv:
  assumes inv: "watcher_inv s" and pc: "worker s = AfterLoop"
  shows "watcher_inv (worker_leaves s)"
proof -
  have parts: "queue_inv s" "sleep_inv s" "ready_ok (control s)" using inv by (simp_all add: watcher_inv_def ready_inv_ok)
  let ?c = "(control s)\<lparr>indexing := False\<rparr>"
  have "ready_ok ?c" using parts(3) by (simp add: ready_ok_def)
  then have "ready_ok (publish_initial_watch_readiness_if_caught_up ?c)" by (rule publish_ready_ok)
  then show ?thesis using parts(1,2) pc
    by (auto simp: worker_leaves_def Let_def watcher_inv_def queue_inv_def sleep_inv_def ready_inv_ok has_work_def work_paths_def)
qed

lemma ends_inv:
  assumes inv: "watcher_inv s" and pc: "worker s = IndexRun covered"
  shows "watcher_inv (run_ends follow_up covered s)"
proof -
  let ?s = "s\<lparr>open_before := open_before s - covered\<rparr>"
  have "watcher_inv ?s" using inv by (auto simp: watcher_inv_def queue_inv_def sleep_inv_def ready_inv_ok)
  moreover have "open_before ?s \<subseteq> change_paths (change (pending_work (control ?s))) \<or> \<not> registered ?s"
    using inv pc by (auto simp: watcher_inv_def queue_inv_def work_paths_def)
  ultimately show ?thesis unfolding run_ends_def by (rule run_succeeds_inv)
qed

lemma worker_step_inv: "worker_step s s' \<Longrightarrow> watcher_inv s \<Longrightarrow> watcher_inv s'"
proof (induction rule: worker_step.induct)
  case (root_gone s covered work)
  let ?s = "s\<lparr>registered := False, worker := AfterLoop\<rparr>"
  have "watcher_inv ?s" using root_gone by (auto simp: watcher_inv_def queue_inv_def sleep_inv_def ready_inv_ok)
  then have "watcher_inv (stop_watcher ?s)" by (rule stop_inv) simp
  moreover have "watcher_inv (s\<lparr>worker := AfterLoop\<rparr>)" if "\<not> registered s"
    using that root_gone by (auto simp: watcher_inv_def queue_inv_def sleep_inv_def ready_inv_ok)
  ultimately show ?case by (simp add: release_for_missing_root_def)
next
  case (waits s)
  then show ?case by (auto simp: watcher_inv_def queue_inv_def sleep_inv_def ready_inv_ok work_paths_def)
next
  case (wakes s)
  then show ?case
    by (auto simp: worker_wakes_def Let_def watcher_inv_def queue_inv_def sleep_inv_def ready_inv_ok ready_ok_def work_paths_def)
next
  case (debounced s)
  then show ?case
    by (auto simp: worker_debounced_def watcher_inv_def queue_inv_def sleep_inv_def ready_inv_ok ready_ok_def work_paths_def)
qed (auto intro: claims_inv starts_inv run_fails_inv ends_inv leaves_inv)

lemma watcher_step_inv: "watcher_step s s' \<Longrightarrow> watcher_inv s \<Longrightarrow> watcher_inv s'"
proof (induction rule: watcher_step.induct)
  case (refresh_failed s err)
  then have "watcher_inv (s\<lparr>control := (control s)\<lparr>retrying := True\<rparr>\<rparr>)"
    by (simp add: watcher_inv_def queue_inv_def sleep_inv_def ready_inv_def has_work_def)
  from mark_full_inv [OF this, of "Some err"] show ?case by (simp add: requeue_failed_index_def)
next
  case (unregistered s)
  then show ?case by (simp add: watcher_inv_def queue_inv_def sleep_inv_def ready_inv_def)
qed (auto intro: worker_step_inv report_inv complete_inv stop_inv)

lemma watcher_start_inv: "watcher_inv watcher_start"
  by (simp add: inv_defs watcher_start_def watch_control_new_def no_work_def)

interpretation watcher: component "\<lambda>s. s = watcher_start" watcher_step watcher_inv
  by unfold_locales (auto intro: watcher_start_inv watcher_step_inv)

abbreviation watcher_reachable :: "'p watcher \<Rightarrow> bool" where
  "watcher_reachable \<equiv> reachable (\<lambda>s. s = watcher_start) watcher_step"

lemma watcher_reachable_inv: "watcher_reachable s \<Longrightarrow> watcher_inv s"
  by (rule watcher.reachable_invar)

section \<open>Waiting times\<close>

text \<open>Durations in milliseconds. The shift is by at most 16, so the multiplier fits in its 32 bits.\<close>

definition WATCH_SINGLE_EVENT_QUIET_PERIOD :: nat where "WATCH_SINGLE_EVENT_QUIET_PERIOD = 250"

definition WATCH_BURST_QUIET_PERIOD :: nat where "WATCH_BURST_QUIET_PERIOD = 750"

definition WATCH_MAX_DEBOUNCE :: nat where "WATCH_MAX_DEBOUNCE = 30000"

definition WATCH_RETRY_INITIAL_DELAY :: nat where "WATCH_RETRY_INITIAL_DELAY = 250"

definition WATCH_RETRY_MAX_DELAY :: nat where "WATCH_RETRY_MAX_DELAY = 30000"

definition WATCHER_RETRY_BASE :: nat where "WATCHER_RETRY_BASE = 30000"

definition WATCHER_RETRY_MAX :: nat where "WATCHER_RETRY_MAX = 900000"

definition retry_multiplier :: "32 word \<Rightarrow> 32 word" where
  "retry_multiplier failures = push_bit (min (unat failures - 1) 16) 1"

definition watch_retry_delay :: "32 word \<Rightarrow> nat" where
  "watch_retry_delay failures = min (WATCH_RETRY_INITIAL_DELAY * unat (retry_multiplier failures)) WATCH_RETRY_MAX_DELAY"

definition watcher_retry_delay :: "32 word \<Rightarrow> nat" where
  "watcher_retry_delay failures = min (WATCHER_RETRY_BASE * unat (retry_multiplier failures)) WATCHER_RETRY_MAX"

definition watch_quiet_period :: "64 word \<Rightarrow> nat" where
  "watch_quiet_period events = (if events \<le> 1 then WATCH_SINGLE_EVENT_QUIET_PERIOD else WATCH_BURST_QUIET_PERIOD)"

text \<open>Each sample is what the loop reads after one sleep: the clock, whether the watcher is active and the count of
  events. The result is the number of samples taken; \<open>None\<close> says that the loop still waits after the last one.\<close>

fun quiet_loop :: "nat \<Rightarrow> 64 word \<Rightarrow> nat \<Rightarrow> (nat \<times> bool \<times> 64 word) list \<Rightarrow> nat option" where
  "quiet_loop started last_seen last_changed [] = None"
| "quiet_loop started last_seen last_changed ((now, is_active, current) # samples) =
     (if \<not> is_active then Some 1
      else let changed = (if current \<noteq> last_seen then now else last_changed)
           in if watch_quiet_period current \<le> now - changed \<or> WATCH_MAX_DEBOUNCE \<le> now - started then Some 1
              else map_option Suc (quiet_loop started current changed samples))"

definition wait_for_watch_quiet :: "nat \<Rightarrow> 64 word \<Rightarrow> (nat \<times> bool \<times> 64 word) list \<Rightarrow> nat option" where
  "wait_for_watch_quiet started events samples = quiet_loop started events started samples"

text \<open>A sleep of 250 ms precedes every sample.\<close>

fun spaced :: "nat \<Rightarrow> (nat \<times> bool \<times> 64 word) list \<Rightarrow> bool" where
  "spaced earlier [] \<longleftrightarrow> True"
| "spaced earlier ((now, _) # samples) \<longleftrightarrow> earlier + 250 \<le> now \<and> spaced now samples"

lemma retry_multiplier_unat: "unat (retry_multiplier failures) = 2 ^ min (unat failures - 1) 16"
proof -
  let ?e = "min (unat failures - 1) 16"
  have "(2 :: nat) ^ ?e \<le> 2 ^ 16" by (rule power_increasing) simp_all
  then have "(2 :: nat) ^ ?e < 2 ^ LENGTH(32)" by simp
  then have "unat (of_nat (2 ^ ?e) :: 32 word) = 2 ^ ?e" by (simp only: unat_of_nat mod_less)
  then show ?thesis by (simp add: retry_multiplier_def push_bit_eq_mult)
qed

lemma quiet_loop_bounded:
  assumes "spaced earlier samples" and "started \<le> earlier"
    and "WATCH_MAX_DEBOUNCE \<le> (earlier - started) + 250 * length samples" and "samples \<noteq> []"
  shows "\<exists>n. quiet_loop started last_seen last_changed samples = Some n \<and> 1 \<le> n \<and> n \<le> length samples"
  using assms
proof (induction samples arbitrary: earlier last_seen last_changed)
  case (Cons sample samples)
  obtain now is_active current where sample: "sample = (now, is_active, current)" by (metis prod_cases3)
  let ?changed = "if current \<noteq> last_seen then now else last_changed"
  show ?case
  proof (cases "\<not> is_active \<or> watch_quiet_period current \<le> now - ?changed \<or> WATCH_MAX_DEBOUNCE \<le> now - started")
    case True
    then show ?thesis using sample by (auto simp: Let_def)
  next
    case False
    have spaced: "spaced now samples" "earlier + 250 \<le> now" using Cons.prems(1) sample by simp_all
    have more: "samples \<noteq> []" using False Cons.prems(2,3) spaced(2) by auto
    have "WATCH_MAX_DEBOUNCE \<le> (now - started) + 250 * length samples"
      using Cons.prems(2,3) spaced(2) sample by simp
    then obtain n where "quiet_loop started current ?changed samples = Some n" "1 \<le> n" "n \<le> length samples"
      using Cons.IH [OF spaced(1), of current ?changed] Cons.prems(2) spaced(2) more by fastforce
    then show ?thesis using False sample by (simp add: Let_def)
  qed
qed simp

text \<open>The run of a new watcher to its first rest: it wakes, claims the first scan, runs it and finds nothing more.\<close>

definition first_run :: "nat watcher" where
  "first_run = worker_claims (worker_debounced (worker_wakes (watcher_start\<lparr>worker := Waiting\<rparr>)))"

definition first_idle :: "nat watcher" where
  "first_idle = worker_leaves (worker_claims (run_ends False UNIV (run_starts no_work first_run)))"

lemmas start_defs = watcher_start_def watch_control_new_def no_work_def

lemma first_run_state:
  "first_run = watcher_start\<lparr>control := watch_control_new\<lparr>indexing := True\<rparr>, worker := Claimed no_work\<rparr>"
  by (simp add: first_run_def worker_claims_def worker_debounced_def worker_wakes_def take_pending_work_def
      count_events_def start_defs)

lemma first_idle_state:
  "first_idle = watcher_start\<lparr>control := watch_control_new\<lparr>initial_scan_required := False,
     initial_reconciliation_pending := False, readiness := Ready\<rparr>\<rparr>"
  by (simp add: first_idle_def first_run_state run_starts_def run_ends_def run_succeeds_def worker_claims_def
      take_pending_work_def worker_leaves_def publish_defs start_defs)

lemma reachable_worker: "watcher_reachable s \<Longrightarrow> worker_step s t \<Longrightarrow> watcher_reachable t"
  by (meson reachable_step worker_moves)

lemma first_run_reachable: "watcher_reachable first_run"
proof -
  have "watcher_reachable (watcher_start :: nat watcher)" by (rule reachable_start) simp
  then have "watcher_reachable (watcher_start\<lparr>worker := Waiting\<rparr> :: nat watcher)"
    by (rule reachable_worker) (rule waits, simp add: watcher_start_def)
  then have "watcher_reachable (worker_wakes (watcher_start\<lparr>worker := Waiting\<rparr>) :: nat watcher)"
    by (rule reachable_worker) (rule wakes, simp add: watcher_start_def)
  then have "watcher_reachable (worker_debounced (worker_wakes (watcher_start\<lparr>worker := Waiting\<rparr>)) :: nat watcher)"
    by (rule reachable_worker) (rule debounced, simp add: worker_wakes_def start_defs)
  then show ?thesis unfolding first_run_def
    by (rule reachable_worker) (rule claims, simp add: worker_debounced_def worker_wakes_def start_defs)
qed

lemma first_idle_reachable: "watcher_reachable first_idle"
proof -
  have "watcher_reachable (run_starts no_work first_run)"
    using first_run_reachable by (rule reachable_worker) (rule starts, simp add: first_run_state)
  then have "watcher_reachable (run_ends False UNIV (run_starts no_work first_run))"
    by (rule reachable_worker) (rule ends, simp add: first_run_state run_starts_def start_defs)
  then have "watcher_reachable (worker_claims (run_ends False UNIV (run_starts no_work first_run)))"
    by (rule reachable_worker) (rule claims, simp add: run_ends_def run_succeeds_def)
  then show ?thesis unfolding first_idle_def
    by (rule reachable_worker) (rule leaves, simp add: first_run_state run_starts_def run_ends_def run_succeeds_def
        worker_claims_def take_pending_work_def publish_defs start_defs)
qed

section \<open>Theorems\<close>

text \<open>Claim C5. No reported change is lost: in every reachable state in which the watcher is registered, its worker sleeps
  and no permit is stored, every reported path has been covered by a finished index run, nothing is pending, the first
  scan is done and no run is in progress. The permit, the pending set and the claim of the work can be interleaved with
  reports, completions and failures in any order.\<close>

theorem watch_no_lost_change:
  assumes "watcher_reachable s" and "registered s" and "worker s = Waiting" and "\<not> wake_permit (control s)"
  shows "open_before s = {} \<and> open_since s = {} \<and> change (pending_work (control s)) = NoChange
    \<and> \<not> initial_scan_required (control s) \<and> \<not> indexing (control s)"
proof -
  have q: "queue_inv s" and z: "sleep_inv s" using watcher_reachable_inv [OF assms(1)] by (simp_all add: watcher_inv_def)
  have "\<not> has_work (control s)" using z assms by (simp add: sleep_inv_def)
  then show ?thesis using q z assms by (auto simp: has_work_def queue_inv_def sleep_inv_def work_paths_def)
qed

theorem watch_no_lost_change_witness:
  "watcher_reachable (first_idle\<lparr>worker := Waiting\<rparr>) \<and> open_before (first_idle\<lparr>worker := Waiting\<rparr>) = {}"
proof -
  let ?s = "first_idle\<lparr>worker := Waiting\<rparr>"
  have "watcher_reachable ?s"
    using first_idle_reachable by (rule reachable_worker) (rule waits, simp add: first_idle_state start_defs)
  moreover have "registered ?s" "worker ?s = Waiting" "\<not> wake_permit (control ?s)"
    by (simp_all add: first_idle_state start_defs)
  ultimately show ?thesis using watch_no_lost_change [of ?s] by blast
qed

text \<open>Theorem. The worker of a registered watcher is never stuck with work: while some reported path is not covered or
  the first scan is due, the worker can take a step of its own.\<close>

theorem watch_worker_progress:
  assumes "watcher_reachable s" and "registered s"
    and "open_before s \<union> open_since s \<noteq> {} \<or> initial_scan_required (control s)"
  shows "\<exists>s'. worker_step s s'"
proof -
  have q: "queue_inv s" and z: "sleep_inv s" using watcher_reachable_inv [OF assms(1)] by (simp_all add: watcher_inv_def)
  show ?thesis
  proof (cases "worker s")
    case Waiting
    then have "has_work (control s)" using q assms(2,3) by (auto simp: queue_inv_def has_work_def work_paths_def)
    then show ?thesis using z assms(2) Waiting wakes by (auto simp: sleep_inv_def)
  next
    case Ended
    then show ?thesis using z assms(2) by (simp add: sleep_inv_def)
  qed (auto intro: worker_step.intros)
qed

theorem watch_worker_progress_witness: "\<exists>s'. worker_step first_run s'"
  by (rule watch_worker_progress [OF first_run_reachable]) (simp_all add: first_run_state start_defs)



text \<open>Claim C33. The debounce ends: whatever events keep coming, 120 samples taken 250 ms apart or more are enough, since
  the whole wait is limited to 30 seconds.\<close>

theorem watch_debounce_ends:
  assumes "spaced started samples" and "120 \<le> length samples"
  shows "\<exists>n. wait_for_watch_quiet started events samples = Some n \<and> 1 \<le> n \<and> n \<le> 120"
proof -
  have "spaced e (take n xs)" if "spaced e xs" for e n xs
    using that by (induction e xs arbitrary: n rule: spaced.induct) (auto simp: take_Cons')
  then have "spaced started (take 120 samples)" using assms(1) by blast
  moreover have "WATCH_MAX_DEBOUNCE \<le> (started - started) + 250 * length (take 120 samples)"
    using assms(2) by (simp add: WATCH_MAX_DEBOUNCE_def)
  moreover have "take 120 samples \<noteq> []" using assms(2) by auto
  ultimately obtain n where n: "quiet_loop started events started (take 120 samples) = Some n" "1 \<le> n" "n \<le> 120"
    using quiet_loop_bounded [of started "take 120 samples" started events started] by fastforce
  have "quiet_loop s l c (xs @ ys) = Some m" if "quiet_loop s l c xs = Some m" for s l c xs ys m
    using that by (induction s l c xs arbitrary: m rule: quiet_loop.induct) (auto simp: Let_def split: if_splits)
  then have "quiet_loop started events started (take 120 samples @ drop 120 samples) = Some n" using n(1) by blast
  then show ?thesis using n by (simp add: wait_for_watch_quiet_def)
qed

theorem watch_debounce_ends_witness:
  "\<exists>n. wait_for_watch_quiet 0 7 (map (\<lambda>i. (250 * (i + 1), True, of_nat i)) [0..<120]) = Some n \<and> 1 \<le> n \<and> n \<le> 120"
proof (rule watch_debounce_ends)
  have "spaced (250 * k) (map (\<lambda>i. (250 * (i + 1), True, of_nat i)) [k..<n])" for k n
  proof (induction "n - k" arbitrary: k)
    case (Suc m)
    then have "[k..<n] = k # [Suc k..<n]" by (simp add: upt_conv_Cons)
    then show ?case using Suc.hyps(1) [of "Suc k"] Suc.hyps(2) by (simp add: add.commute)
  qed simp
  from this [of 0 120] show "spaced 0 (map (\<lambda>i. (250 * (i + 1), True, of_nat i)) [0..<120])" by simp
qed simp

text \<open>Theorem. Retries back off by doubling from 250 ms (30 s for a watcher that could not start), never decrease and
  stay below 30 s (15 min); the 32-bit shift does not overflow for any count of failures.\<close>

theorem watch_retry_bounds:
  "watch_retry_delay failures = min (250 * 2 ^ min (unat failures - 1) 16) 30000
   \<and> watcher_retry_delay failures = min (30000 * 2 ^ min (unat failures - 1) 16) 900000
   \<and> 250 \<le> watch_retry_delay failures \<and> 30000 \<le> watcher_retry_delay failures
   \<and> (failures \<le> later \<longrightarrow> watch_retry_delay failures \<le> watch_retry_delay later
        \<and> watcher_retry_delay failures \<le> watcher_retry_delay later)"
proof -
  define a b :: nat where "a = 2 ^ min (unat failures - 1) 16" and "b = 2 ^ min (unat later - 1) 16"
  have "a \<le> b" if "failures \<le> later"
    unfolding a_def b_def using that by (intro power_increasing) (auto simp: word_le_nat_alt)
  moreover have "1 \<le> a" by (simp add: a_def)
  ultimately show ?thesis
    unfolding watch_retry_delay_def watcher_retry_delay_def retry_multiplier_unat WATCH_RETRY_INITIAL_DELAY_def
      WATCH_RETRY_MAX_DELAY_def WATCHER_RETRY_BASE_def WATCHER_RETRY_MAX_def a_def [symmetric] b_def [symmetric] by auto
qed

theorem watch_retry_bounds_witness: "watch_retry_delay 3 \<le> watch_retry_delay 5 \<and> watch_retry_delay 3 = 1000"
  using watch_retry_bounds [of 3 5] by simp


end
