(* ===== verification/Top_Selection.thy ===== *)
theory Top_Selection
  imports Stable_Merge
begin

text \<open>
  Bounded selection: the best \<open>k\<close> of many candidates without keeping them all. Vector matches go through a heap of
  the best matches so far (\<^verbatim>\<open>src/src/vector_store.rs\<close>), files of a literal search through one heap per worker
  thread, merged at the end, and literal hits through truncated sorted lists (\<^verbatim>\<open>src/src/search_literal.rs\<close>,
  \<^verbatim>\<open>src/src/search.rs\<close>). The theorems show that each of them equals sorting all candidates and keeping the
  first \<open>k\<close>, however the work is divided among threads.
\<close>

section \<open>Orders of the candidates\<close>

text \<open>\<^verbatim>\<open>std::cmp::Reverse\<close>.\<close>

datatype 'a Reverse = Reverse (unreverse: 'a)

instantiation Reverse :: (linorder) linorder
begin

definition less_eq_Reverse :: "'a Reverse \<Rightarrow> 'a Reverse \<Rightarrow> bool" where
  "less_eq_Reverse a b \<longleftrightarrow> unreverse b \<le> unreverse a"

definition less_Reverse :: "'a Reverse \<Rightarrow> 'a Reverse \<Rightarrow> bool" where
  "less_Reverse a b \<longleftrightarrow> unreverse b < unreverse a"

instance
  by standard (auto simp: less_eq_Reverse_def less_Reverse_def Reverse.expand)

end

text \<open>Scores are compared with \<^verbatim>\<open>total_cmp\<close>, which orders all bit patterns linearly; nothing else of a score matters here.\<close>

datatype 's RankedVectorMatch = RankedVectorMatch (rv_key: nat) (rv_score: 's)

instantiation RankedVectorMatch :: (linorder) linorder
begin

definition less_eq_RankedVectorMatch :: "'a RankedVectorMatch \<Rightarrow> 'a RankedVectorMatch \<Rightarrow> bool" where
  "less_eq_RankedVectorMatch a b \<longleftrightarrow> rv_score a < rv_score b \<or> rv_score a = rv_score b \<and> rv_key b \<le> rv_key a"

definition less_RankedVectorMatch :: "'a RankedVectorMatch \<Rightarrow> 'a RankedVectorMatch \<Rightarrow> bool" where
  "less_RankedVectorMatch a b \<longleftrightarrow> rv_score a < rv_score b \<or> rv_score a = rv_score b \<and> rv_key b < rv_key a"

instance
  by standard (auto simp: less_eq_RankedVectorMatch_def less_RankedVectorMatch_def RankedVectorMatch.expand)

end

text \<open>The rank of a file: more matches first, then the smaller path (\<^verbatim>\<open>compare_rank\<close>).\<close>

datatype 'p file_rank = FileRank (rank_matches: nat) (rank_path: 'p)

instantiation file_rank :: (linorder) linorder
begin

definition less_eq_file_rank :: "'a file_rank \<Rightarrow> 'a file_rank \<Rightarrow> bool" where
  "less_eq_file_rank a b \<longleftrightarrow>
     rank_matches b < rank_matches a \<or> rank_matches a = rank_matches b \<and> rank_path a \<le> rank_path b"

definition less_file_rank :: "'a file_rank \<Rightarrow> 'a file_rank \<Rightarrow> bool" where
  "less_file_rank a b \<longleftrightarrow>
     rank_matches b < rank_matches a \<or> rank_matches a = rank_matches b \<and> rank_path a < rank_path b"

instance
  by standard (auto simp: less_eq_file_rank_def less_file_rank_def file_rank.expand)

end

section \<open>Binary heaps\<close>

text \<open>\<^verbatim>\<open>BinaryHeap\<close>: its elements in ascending order, the greatest last.\<close>

definition heap_push :: "('a \<Rightarrow> 'k::linorder) \<Rightarrow> 'a \<Rightarrow> 'a list \<Rightarrow> 'a list" where
  "heap_push rank x h = insort_key rank x h"

definition heap_peek :: "'a list \<Rightarrow> 'a option" where
  "heap_peek h = (if h = [] then None else Some (last h))"

definition heap_pop :: "'a list \<Rightarrow> 'a list" where
  "heap_pop h = butlast h"

definition insert_ranked :: "('a \<Rightarrow> 'k::linorder) \<Rightarrow> nat \<Rightarrow> 'a \<Rightarrow> 'a list \<Rightarrow> 'a list" where
  "insert_ranked rank max_files x h =
     (let h' = heap_push rank x h in if max_files < length h' then heap_pop h' else h')"

text \<open>How the items of a parallel iterator are divided: \<^verbatim>\<open>fold\<close> runs over each segment, \<^verbatim>\<open>reduce\<close> joins the
  results pairwise. \<open>visit\<close> is the order in which \<^verbatim>\<open>into_iter\<close> gives the elements of a heap, which is not specified.\<close>

datatype 'a division = Segment "'a list" | Joined "'a division" "'a division"

primrec items :: "'a division \<Rightarrow> 'a list" where
  "items (Segment xs) = xs"
| "items (Joined l r) = items l @ items r"

primrec fold_reduce :: "('b \<Rightarrow> 'a \<Rightarrow> 'b) \<Rightarrow> 'b \<Rightarrow> ('b \<Rightarrow> 'b \<Rightarrow> 'b) \<Rightarrow> 'a division \<Rightarrow> 'b" where
  "fold_reduce add unit join (Segment xs) = foldl add unit xs"
| "fold_reduce add unit join (Joined l r) = join (fold_reduce add unit join l) (fold_reduce add unit join r)"

definition select_best :: "('a list \<Rightarrow> 'a list) \<Rightarrow> ('a \<Rightarrow> 'k::linorder) \<Rightarrow> nat \<Rightarrow> 'a division \<Rightarrow> 'a list" where
  "select_best visit rank max_files d =
     fold_reduce (\<lambda>h x. insert_ranked rank max_files x h) []
       (\<lambda>l r. foldl (\<lambda>h x. insert_ranked rank max_files x h) l (visit r)) d"

text \<open>The heap of \<^verbatim>\<open>top_vector_matches\<close> holds \<open>Reverse\<close> values, so that its greatest element is the worst match.\<close>

definition top_step :: "nat \<Rightarrow> 's::linorder RankedVectorMatch Reverse list \<Rightarrow> 's RankedVectorMatch \<Rightarrow> 's RankedVectorMatch Reverse list" where
  "top_step wanted top_heap ranked =
     (if length top_heap < wanted then heap_push id (Reverse ranked) top_heap
      else case heap_peek top_heap of
             Some worst \<Rightarrow>
               if unreverse worst < ranked then heap_push id (Reverse ranked) (heap_pop top_heap) else top_heap
           | None \<Rightarrow> top_heap)"

definition top_vector_matches ::
    "('s::linorder RankedVectorMatch Reverse list \<Rightarrow> 's RankedVectorMatch Reverse list) \<Rightarrow> 's RankedVectorMatch list \<Rightarrow> nat
      \<Rightarrow> 's RankedVectorMatch list" where
  "top_vector_matches visit matches wanted =
     (if wanted = 0 then []
      else sort_key Reverse (map unreverse (visit (foldl (top_step wanted) [] matches))))"

text \<open>Hits of a literal search are kept sorted and truncated; \<open>position\<close> is the file, the first and the last line.\<close>

definition merge_hits :: "('h \<Rightarrow> 'k::linorder) \<Rightarrow> nat \<Rightarrow> 'h list \<Rightarrow> 'h list \<Rightarrow> 'h list" where
  "merge_hits position max_hits left_hits right_hits = take max_hits (sort_key position (left_hits @ right_hits))"

definition collect_hits :: "('h \<Rightarrow> 'k::linorder) \<Rightarrow> nat \<Rightarrow> 'h list division \<Rightarrow> 'h list" where
  "collect_hits position max_hits d = fold_reduce (merge_hits position max_hits) [] (merge_hits position max_hits) d"

abbreviation sorted_by :: "('a \<Rightarrow> 'k::linorder) \<Rightarrow> 'a list \<Rightarrow> bool" where
  "sorted_by f xs \<equiv> sorted (map f xs)"

lemma insort_merge_by: "insort_key f x ys = merge_by f [x] ys"
  by (induction ys) simp_all

section \<open>Heaps keep the best\<close>

lemma insert_ranked_take:
  assumes "sorted_by rank ys"
  shows "insert_ranked rank m x (take m ys) = take m (insort_key rank x ys)"
proof -
  have len: "length (insort_key rank x (take m ys)) = Suc (length (take m ys))" by simp
  have "insert_ranked rank m x (take m ys) = take m (insort_key rank x (take m ys))"
    unfolding insert_ranked_def heap_push_def heap_pop_def Let_def butlast_conv_take len by (auto simp: min_def not_less less_Suc_eq_le dest: antisym)
  also have "\<dots> = take m (insort_key rank x ys)"
    unfolding insort_merge_by using take_merge_le [of m "Suc m" m rank "[x]" ys] by simp
  finally show ?thesis .
qed

lemma fold_insert_ranked:
  "foldl (\<lambda>h x. insert_ranked rank m x h) (take m (sort_key rank ys)) xs = take m (sort_key rank (rev xs @ ys))"
proof (induction xs arbitrary: ys)
  case (Cons x xs)
  have "insert_ranked rank m x (take m (sort_key rank ys)) = take m (sort_key rank (x # ys))"
    by (simp add: insert_ranked_take)
  then show ?case using Cons.IH [of "x # ys"] by simp
qed simp

text \<open>Where no two candidates have the same rank, sorting only depends on which candidates there are.\<close>

lemma sort_key_inj_mset:
  assumes "mset xs = mset ys" and "inj_on rank (set xs)"
  shows "sort_key rank xs = sort_key rank ys"
proof (rule properties_for_sort_key)
  have sets: "set xs = set ys" using assms(1) by (rule mset_eq_setD)
  fix k
  assume "k \<in> set (sort_key rank ys)"
  then have k: "rank k = rank x \<longleftrightarrow> x = k" if "x \<in> set xs" for x
    using that assms(2) sets by (auto dest: inj_onD)
  have single: "filter (\<lambda>x. rank k = rank x) zs = replicate (count (mset zs) k) k" if "set zs = set xs" for zs
  proof -
    have "filter (\<lambda>x. rank k = rank x) zs = filter (\<lambda>x. x = k) zs" using that k by (auto intro: filter_cong)
    moreover have "filter (\<lambda>x. x = k) zs = replicate (count (mset zs) k) k" by (induction zs) auto
    ultimately show ?thesis by simp
  qed
  show "filter (\<lambda>x. rank k = rank x) (sort_key rank ys) = filter (\<lambda>x. rank k = rank x) xs"
    using single [of "sort_key rank ys"] single [of xs] sets assms(1) by simp
qed (use assms in simp_all)

section \<open>Divided work\<close>

text \<open>What a parallel fold relies on: \<open>best\<close> summarises any list of items, adding one item and joining two summaries
  are compatible with it, as long as the items are \<open>ok\<close>.\<close>

locale divided_fold =
  fixes ok :: "'a list \<Rightarrow> bool"
    and best :: "'a list \<Rightarrow> 'b"
    and add :: "'b \<Rightarrow> 'a \<Rightarrow> 'b"
    and join :: "'b \<Rightarrow> 'b \<Rightarrow> 'b"
  assumes ok_append: "ok (xs @ ys) \<Longrightarrow> ok xs \<and> ok ys"
    and best_add: "ok (xs @ [x]) \<Longrightarrow> add (best xs) x = best (xs @ [x])"
    and best_join: "ok (xs @ ys) \<Longrightarrow> join (best xs) (best ys) = best (xs @ ys)"
begin

lemma fold_best: "ok (xs @ ys) \<Longrightarrow> foldl add (best xs) ys = best (xs @ ys)"
proof (induction ys arbitrary: xs)
  case (Cons y ys)
  then have "ok (xs @ [y])" using ok_append [of "xs @ [y]" ys] by simp
  then show ?case using Cons.IH [of "xs @ [y]"] Cons.prems by (simp add: best_add)
qed simp

lemma fold_reduce_best: "ok (items d) \<Longrightarrow> fold_reduce add (best []) join d = best (items d)"
proof (induction d)
  case (Segment xs)
  then show ?case using fold_best [of "[]" xs] by simp
next
  case (Joined l r)
  then show ?case using ok_append [of "items l" "items r"] by (simp add: best_join)
qed

end

definition visits_all :: "('a list \<Rightarrow> 'a list) \<Rightarrow> bool" where
  "visits_all visit \<longleftrightarrow> (\<forall>h. mset (visit h) = mset h)"

lemma top_of_parts:
  assumes "mset us = mset (take m (sort_key rank ys))" and "inj_on rank (set (xs @ ys))"
  shows "take m (sort_key rank (us @ xs)) = take m (sort_key rank (xs @ ys))"
proof -
  have us: "set us \<subseteq> set ys" using assms(1) by (metis mset_eq_setD set_sort set_take_subset)
  have "sort_key rank (us @ xs) = sort_key rank (xs @ take m (sort_key rank ys))"
    using assms us by (intro sort_key_inj_mset) (auto intro: inj_on_subset)
  also have "take m \<dots> = take m (merge_by rank (sort_key rank xs) (take m (sort_key rank ys)))"
    by (simp add: sort_append_merge sort_key_id_if_sorted take_map [symmetric] sorted_wrt_take)
  also have "\<dots> = take m (sort_key rank (xs @ ys))"
    using take_merge_le [of m "max m (length xs)" m rank "sort_key rank xs"] by (simp add: sort_append_merge)
  finally show ?thesis .
qed

interpretation heap_selection: divided_fold "\<lambda>xs. visits_all visit \<and> inj_on rank (set xs)"
    "\<lambda>xs. take m (sort_key rank xs)" "\<lambda>h x. insert_ranked rank m x h"
    "\<lambda>l r. foldl (\<lambda>h x. insert_ranked rank m x h) l (visit r)"
  for visit :: "'a list \<Rightarrow> 'a list" and rank :: "'a \<Rightarrow> 'k::linorder" and m
proof unfold_locales
  fix xs ys :: "'a list" and x
  assume ok: "visits_all visit \<and> inj_on rank (set (xs @ [x]))"
  have "sort_key rank (x # xs) = sort_key rank (xs @ [x])" using ok by (intro sort_key_inj_mset) (auto simp: insert_commute)
  then show "insert_ranked rank m x (take m (sort_key rank xs)) = take m (sort_key rank (xs @ [x]))"
    by (simp add: insert_ranked_take)
next
  fix xs ys :: "'a list"
  assume ok: "visits_all visit \<and> inj_on rank (set (xs @ ys))"
  let ?us = "visit (take m (sort_key rank ys))"
  have "mset (rev ?us) = mset (take m (sort_key rank ys))" using ok by (simp add: visits_all_def)
  then show "foldl (\<lambda>h x. insert_ranked rank m x h) (take m (sort_key rank xs)) ?us = take m (sort_key rank (xs @ ys))"
    using ok by (simp add: fold_insert_ranked top_of_parts)
qed (auto intro: inj_on_subset)

interpretation hit_collection: divided_fold "\<lambda>_. True" "\<lambda>hss. take m (sort_key position (concat hss))"
    "merge_hits position m" "merge_hits position m"
  for position :: "'h \<Rightarrow> 'k::linorder" and m
proof unfold_locales
  have sorted: "sort_key position (take m (sort_key position zs)) = take m (sort_key position zs)" for zs
    by (rule sort_key_id_if_sorted) (simp add: take_map [symmetric] sorted_wrt_take)
  fix hss jss :: "'h list list" and hs
  show "merge_hits position m (take m (sort_key position (concat hss))) hs = take m (sort_key position (concat (hss @ [hs])))"
    using take_merge_le [of m m "length hs + m" position "sort_key position (concat hss)" "sort_key position hs"]
    by (simp add: merge_hits_def sort_append_merge sorted)
  show "merge_hits position m (take m (sort_key position (concat hss))) (take m (sort_key position (concat jss)))
      = take m (sort_key position (concat (hss @ jss)))"
    by (simp add: merge_hits_def take_sort_append)
qed simp_all

section \<open>The heap of vector matches\<close>

lemma Reverse_less_eq [simp]: "Reverse a \<le> Reverse b \<longleftrightarrow> b \<le> a" "Reverse a < Reverse b \<longleftrightarrow> b < a"
  by (simp_all add: less_eq_Reverse_def less_Reverse_def)

lemma insort_last: "x \<le> w \<Longrightarrow> insort x (hs @ [w]) = insort x hs @ [w]"
  by (induction hs) auto

lemma insort_greatest:
  fixes x :: "'a::linorder"
  assumes "sorted (h @ [x])"
  shows "insort x h = h @ [x]"
proof -
  have "insort x h = sort (x # h)" using assms by (simp add: sorted_append sorted_sort_id)
  also have "\<dots> = sort (h @ [x])" by (rule sort_key_inj_mset) simp_all
  also have "\<dots> = h @ [x]" using assms by (rule sorted_sort_id)
  finally show ?thesis .
qed

lemma top_step_insert:
  assumes "sorted h" and "0 < k" and "length h \<le> k"
  shows "top_step k h r = insert_ranked (\<lambda>x. x) k (Reverse r) h"
proof (cases "length h < k")
  case True
  then show ?thesis by (simp add: top_step_def insert_ranked_def Let_def heap_push_def id_def)
next
  case False
  then have full: "length h = k" "h \<noteq> []" using assms by auto
  then obtain hs w where h: "h = hs @ [w]" by (metis rev_exhaust)
  have ins: "insert_ranked (\<lambda>x. x) k (Reverse r) h = butlast (insort (Reverse r) h)"
    using full by (simp add: insert_ranked_def Let_def heap_push_def heap_pop_def)
  have step: "top_step k h r = (if unreverse w < r then insort (Reverse r) hs else h)"
    using full h by (simp add: top_step_def heap_peek_def heap_push_def heap_pop_def id_def)
  show ?thesis
  proof (cases "unreverse w < r")
    case True
    then have "Reverse r \<le> w" by (simp add: less_eq_Reverse_def)
    then show ?thesis using True h ins step by (simp add: insort_last)
  next
    case False
    then have "w \<le> Reverse r" by (simp add: less_eq_Reverse_def)
    then have "sorted (h @ [Reverse r])" using assms(1) h by (fastforce simp: sorted_append)
    then show ?thesis using False ins step by (simp add: insort_greatest)
  qed
qed

lemma top_heap:
  assumes "0 < k"
  shows "foldl (top_step k) [] matches = take k (sort (map Reverse matches))"
proof -
  have "foldl (top_step k) (take k (sort ys)) ms = take k (sort (map Reverse (rev ms) @ ys))" for ms ys
  proof (induction ms arbitrary: ys)
    case (Cons r ms)
    have "top_step k (take k (sort ys)) r = take k (sort (Reverse r # ys))"
      using assms by (simp add: top_step_insert insert_ranked_take sorted_wrt_take)
    then show ?case using Cons.IH [of "Reverse r # ys"] by simp
  qed simp
  from this [of "[]" matches] have "foldl (top_step k) [] matches = take k (sort (map Reverse (rev matches)))" by simp
  also have "sort (map Reverse (rev matches)) = sort (map Reverse matches)" by (rule sort_key_inj_mset) simp_all
  finally show ?thesis .
qed

lemma sort_Reverse: "sort_key Reverse (map unreverse rs) = map unreverse (sort rs)"
proof -
  have "insort_key Reverse (unreverse r) (map unreverse rs) = map unreverse (insort r rs)" for r and rs :: "'a Reverse list"
    by (induction rs) (auto simp: less_eq_Reverse_def)
  then show ?thesis by (induction rs) simp_all
qed

section \<open>Theorems\<close>

text \<open>Claim C19. Searching the best vector matches with a bounded heap gives what sorting all matches by descending score
  and ascending key and keeping the first gives, ties, duplicates and an empty request included, whatever the order in
  which the heap hands out its elements.\<close>

theorem top_vector_matches_exact:
  assumes "visits_all visit"
  shows "top_vector_matches visit matches k = take k (sort_key Reverse matches)"
proof (cases "k = 0")
  case False
  let ?h = "take k (sort (map Reverse matches))"
  have "top_vector_matches visit matches k = map unreverse (sort (visit ?h))"
    using False by (simp add: top_vector_matches_def top_heap sort_Reverse)
  also have "sort (visit ?h) = sort ?h" using assms by (intro sort_key_inj_mset) (simp_all add: visits_all_def)
  also have "\<dots> = ?h" by (simp add: sorted_sort_id sorted_wrt_take)
  also have "map unreverse ?h = take k (sort_key Reverse matches)"
    using sort_Reverse [of "map Reverse matches"] by (simp add: take_map [symmetric] comp_def)
  finally show ?thesis .
qed (simp add: top_vector_matches_def)

theorem top_vector_matches_exact_witness:
  "top_vector_matches rev [RankedVectorMatch 7 (1::int), RankedVectorMatch 3 5, RankedVectorMatch 2 5, RankedVectorMatch 1 0] 2
     = [RankedVectorMatch 2 5, RankedVectorMatch 3 5]"
proof -
  have "visits_all (rev :: int RankedVectorMatch Reverse list \<Rightarrow> _)" by (simp add: visits_all_def)
  from top_vector_matches_exact [OF this] show ?thesis
    by (simp add: less_eq_Reverse_def less_eq_RankedVectorMatch_def)
qed

text \<open>Theorem. The per-thread heaps of a file search, joined in any way, hold the best files of the whole workspace in
  order: the division of the candidates among threads and the order of the heaps do not show in the result.\<close>

theorem select_best_exact:
  assumes "visits_all visit" and "inj_on rank (set (items d))"
  shows "select_best visit rank max_files d = take max_files (sort_key rank (items d))"
  using heap_selection.fold_reduce_best [of visit rank d max_files] assms by (simp add: select_best_def)

theorem select_best_exact_witness:
  "select_best rev (\<lambda>(p, n). FileRank n p) 2 (Joined (Segment [(5::nat, 4), (2, 9)]) (Joined (Segment []) (Segment [(7, 4), (8, 3)])))
     = [(2, 9), (5, 4)]"
proof -
  let ?d = "Joined (Segment [(5::nat, 4), (2, 9)]) (Joined (Segment []) (Segment [(7, 4), (8, 3)]))"
  have "visits_all (rev :: (nat \<times> nat) list \<Rightarrow> _)" by (simp add: visits_all_def)
  moreover have "inj_on (\<lambda>(p, n). FileRank n p) (set (items ?d))" by (simp add: inj_on_def)
  ultimately have "select_best rev (\<lambda>(p, n). FileRank n p) 2 ?d = take 2 (sort_key (\<lambda>(p, n). FileRank n p) (items ?d))"
    by (rule select_best_exact)
  also have "\<dots> = [(2, 9), (5, 4)]" by (simp add: less_eq_file_rank_def)
  finally show ?thesis .
qed

text \<open>Theorem. Merging the hits of the files in bounded, sorted lists per thread gives the same hits in the same order
  as sorting all hits at once, also among hits at equal positions.\<close>

theorem collect_hits_exact: "collect_hits position max_hits d = take max_hits (sort_key position (concat (items d)))"
  using hit_collection.fold_reduce_best [of position max_hits d] by (simp add: collect_hits_def)

end
