(* ===== verification/Literal_Matcher.thy ===== *)
theory Literal_Matcher
  imports Chunking "HOL-Library.Sublist"
begin

text \<open>
  Counting the lines of a file that contain a query, without keeping the file in memory
  (\<^verbatim>\<open>LineMatcher\<close> and \<^verbatim>\<open>LineCounter\<close> of \<^verbatim>\<open>src/src/search_literal.rs\<close>). The file arrives in pieces that may cut
  characters, is decoded leniently, folded to lower case and run through the matcher of Knuth, Morris and Pratt.

  The theorems show that the table of the matcher is the failure function, that neither its construction nor a scan
  leaves the bounds of an array or runs forever, and that the count is the number of lines of the decoded file that
  contain the query, however the file was cut into pieces; a NUL byte near the start marks a binary file.
\<close>

section \<open>The matcher\<close>

record LineMatcher =
  needle :: string
  prefix_table :: "nat list"

text \<open>\<open>None\<close> is a panic, an index that is out of range, or a loop that does not end.\<close>

definition at :: "'a list \<Rightarrow> nat \<Rightarrow> 'a option" where
  "at xs i = (if i < length xs then Some (xs ! i) else None)"

partial_function (option) fall_back :: "string \<Rightarrow> nat list \<Rightarrow> char \<Rightarrow> nat \<Rightarrow> nat option" where
  "fall_back nd table b matched =
     (if matched = 0 then Some 0
      else Option.bind (at nd matched) (\<lambda>c.
        if c = b then Some matched
        else Option.bind (at table (matched - 1)) (fall_back nd table b)))"

definition kmp_step :: "string \<Rightarrow> nat list \<Rightarrow> char \<Rightarrow> nat \<Rightarrow> nat option" where
  "kmp_step nd table b matched =
     Option.bind (fall_back nd table b matched) (\<lambda>m.
       map_option (\<lambda>c. if c = b then m + 1 else m) (at nd m))"

definition fill_entry :: "string \<Rightarrow> nat list \<Rightarrow> nat \<Rightarrow> nat list option" where
  "fill_entry nd table i =
     Option.bind (at table (i - 1)) (\<lambda>m.
       Option.bind (at nd i) (\<lambda>b.
         map_option (\<lambda>m'. table[i := m']) (kmp_step nd table b m)))"

fun fill_table :: "string \<Rightarrow> nat list \<Rightarrow> nat list \<Rightarrow> nat list option" where
  "fill_table nd table [] = Some table"
| "fill_table nd table (i # is) = Option.bind (fill_entry nd table i) (\<lambda>t. fill_table nd t is)"

definition line_matcher_new :: "string \<Rightarrow> LineMatcher option" where
  "line_matcher_new query_lower =
     map_option (\<lambda>table. \<lparr>needle = query_lower, prefix_table = table\<rparr>)
       (fill_table query_lower (replicate (length query_lower) 0) [1..<length query_lower])"

section \<open>The failure function\<close>

text \<open>\<open>m\<close> is the length of the longest beginning of the needle that \<open>s\<close> ends with.\<close>

definition matches_to :: "string \<Rightarrow> string \<Rightarrow> nat \<Rightarrow> bool" where
  "matches_to nd s m \<longleftrightarrow> m \<le> length nd \<and> suffix (take m nd) s \<and> (\<forall>k\<le>length nd. suffix (take k nd) s \<longrightarrow> k \<le> m)"

definition table_ok :: "string \<Rightarrow> nat list \<Rightarrow> nat \<Rightarrow> bool" where
  "table_ok nd table c \<longleftrightarrow>
     c \<le> length table \<and> c \<le> length nd \<and> (\<forall>k. 1 \<le> k \<and> k \<le> c \<longrightarrow> matches_to nd (tl (take k nd)) (table ! (k - 1)))"

lemma at_Some [simp]: "i < length xs \<Longrightarrow> at xs i = Some (xs ! i)"
  by (simp add: at_def)

lemma matches_to_unique: "matches_to nd s m \<Longrightarrow> matches_to nd s m' \<Longrightarrow> m = m'"
  by (simp add: matches_to_def) (meson antisym)

lemma matches_to_Nil: "matches_to nd [] 0"
  by (auto simp: matches_to_def suffix_Nil)

lemma table_entry_less:
  assumes "table_ok nd table c" and "1 \<le> k" and "k \<le> c"
  shows "table ! (k - 1) < k"
proof -
  have "matches_to nd (tl (take k nd)) (table ! (k - 1))" using assms by (simp add: table_ok_def)
  then have "length (take (table ! (k - 1)) nd) \<le> length (tl (take k nd))" "table ! (k - 1) \<le> length nd"
    by (auto simp: matches_to_def dest: suffix_length_le)
  then show ?thesis using assms by (auto simp: table_ok_def)
qed

text \<open>Beginnings of the needle at the end of \<open>s\<close> that are shorter than the one of length \<open>m\<close> are at its end.\<close>

lemma shorter_match:
  assumes "suffix (take m nd) s" and "j < m" and "m \<le> length nd"
  shows "suffix (take j nd) s \<longleftrightarrow> suffix (take j nd) (tl (take m nd))"
proof -
  obtain x xs where m: "take m nd = x # xs" using assms(2,3) by (cases "take m nd") auto
  have len: "length (take j nd) \<le> length xs" 
  proof -
    have "m = Suc (length xs)" using assms(3) m by (metis length_Cons length_take min.absorb2)
    then show ?thesis using assms(2) by simp
  qed
  have "suffix xs s" using assms(1) m by (metis suffix_ConsI suffix_order.order_trans suffix_order.order_refl)
  then have "suffix (take j nd) s \<longleftrightarrow> suffix (take j nd) xs"
    using len by (meson suffix_length_suffix suffix_order.order_trans)
  then show ?thesis using m by simp
qed

lemma fall_back_spec:
  assumes "table_ok nd table c" and "m \<le> c" and "m < length nd" and "suffix (take m nd) s"
    and "\<And>j. j < length nd \<Longrightarrow> suffix (take j nd) s \<Longrightarrow> nd ! j = b \<Longrightarrow> j \<le> m"
  shows "\<exists>r. fall_back nd table b m = Some r \<and> r \<le> m \<and> suffix (take r nd) s \<and> (r = 0 \<or> nd ! r = b)
    \<and> (\<forall>j<length nd. suffix (take j nd) s \<longrightarrow> nd ! j = b \<longrightarrow> j \<le> r)"
  using assms(2-5)
proof (induction m rule: less_induct)
  case (less m)
  show ?case
  proof (cases "m = 0 \<or> nd ! m = b")
    case True
    then have "fall_back nd table b m = Some m"
      using less.prems(2) by (subst fall_back.simps) auto
    then show ?thesis using True less.prems by auto
  next
    case False
    let ?p = "table ! (m - 1)"
    have entry: "matches_to nd (tl (take m nd)) ?p" "?p < m"
      using assms(1) False less.prems(1) table_entry_less [OF assms(1), of m] by (auto simp: table_ok_def)
    have here: "m - 1 < length table" using assms(1) False less.prems(1) by (auto simp: table_ok_def)
    have step: "fall_back nd table b m = fall_back nd table b ?p"
      using False less.prems(2) here by (subst fall_back.simps) auto
    have short: "suffix (take j nd) s \<longleftrightarrow> suffix (take j nd) (tl (take m nd))" if "j < m" for j
      using that less.prems by (intro shorter_match) auto
    have "suffix (take ?p nd) s" using entry short by (simp add: matches_to_def)
    moreover have "j \<le> ?p" if "j < length nd" "suffix (take j nd) s" "nd ! j = b" for j
    proof -
      have "j \<noteq> m" using that(3) False by blast
      moreover have "j \<le> m" using less.prems(4) that by blast
      ultimately have "j < m" by simp
      then show ?thesis using entry(1) short that by (simp add: matches_to_def)
    qed
    ultimately show ?thesis
      using less.IH [of ?p] entry(2) less.prems step by fastforce
  qed
qed

lemma take_Suc_suffix: "k < length nd \<Longrightarrow> suffix (take (Suc k) nd) (s @ [b]) \<longleftrightarrow> suffix (take k nd) s \<and> nd ! k = b"
  by (auto simp: take_Suc_conv_app_nth suffix_def)

lemma kmp_step_spec:
  assumes ok: "table_ok nd table c" and m: "matches_to nd s m" and "m \<le> c" and "m < length nd"
  shows "\<exists>m'. kmp_step nd table b m = Some m' \<and> matches_to nd (s @ [b]) m'"
proof -
  have "suffix (take m nd) s" using m by (simp add: matches_to_def)
  moreover have "j \<le> m" if "j < length nd" "suffix (take j nd) s" for j using m that by (simp add: matches_to_def)
  ultimately obtain r where r: "fall_back nd table b m = Some r" "r \<le> m" "suffix (take r nd) s" "r = 0 \<or> nd ! r = b"
      "\<And>j. j < length nd \<Longrightarrow> suffix (take j nd) s \<Longrightarrow> nd ! j = b \<Longrightarrow> j \<le> r"
    using fall_back_spec [OF ok assms(3,4), of s b] by blast
  have len: "r < length nd" using r(2) assms(4) by simp
  have upper: "k \<le> (if nd ! r = b then r + 1 else r)" if k: "k \<le> length nd" "suffix (take k nd) (s @ [b])" for k
  proof (cases k)
    case (Suc j)
    then have "suffix (take j nd) s" "nd ! j = b" "j < length nd" using k take_Suc_suffix [of j nd s b] by auto
    then show ?thesis using r(4) r(5) [of j] Suc by auto
  qed simp
  have "suffix (take (if nd ! r = b then r + 1 else r) nd) (s @ [b])"
    using r(3,4) len take_Suc_suffix [of r nd s b] by auto
  then have "matches_to nd (s @ [b]) (if nd ! r = b then r + 1 else r)"
    using upper len by (auto simp: matches_to_def)
  then show ?thesis using r(1) len by (simp add: kmp_step_def)
qed

lemma fill_entry_spec:
  assumes ok: "table_ok nd table i" and i: "1 \<le> i" "i < length nd" and len: "length table = length nd"
  shows "\<exists>t. fill_entry nd table i = Some t \<and> table_ok nd t (Suc i) \<and> length t = length nd"
proof -
  let ?m = "table ! (i - 1)"
  have m: "matches_to nd (tl (take i nd)) ?m" "?m < i"
    using ok i table_entry_less [OF ok, of i] by (auto simp: table_ok_def)
  obtain m' where m': "kmp_step nd table (nd ! i) ?m = Some m'" "matches_to nd (tl (take i nd) @ [nd ! i]) m'"
    using kmp_step_spec [OF ok m(1), of "nd ! i"] m(2) i(2) by auto
  have next_part: "tl (take (Suc i) nd) = tl (take i nd) @ [nd ! i]"
  proof -
    have "take (Suc i) nd = take i nd @ [nd ! i]" using i(2) by (rule take_Suc_conv_app_nth)
    then show ?thesis using i by (cases "take i nd") auto
  qed
  have "matches_to nd (tl (take k nd)) (table[i := m'] ! (k - 1))" if k: "1 \<le> k" "k \<le> Suc i" for k
  proof (cases "k = Suc i")
    case True
    then show ?thesis using m'(2) i len next_part by simp
  next
    case False
    then show ?thesis using ok k by (auto simp: table_ok_def nth_list_update)
  qed
  then have "table_ok nd (table[i := m']) (Suc i)" using i len by (simp add: table_ok_def)
  then show ?thesis using m' i len by (simp add: fill_entry_def)
qed

lemma fill_table_spec:
  assumes "table_ok nd table i" and "1 \<le> i" and "i \<le> length nd" and "length table = length nd"
  shows "\<exists>t. fill_table nd table [i..<length nd] = Some t \<and> table_ok nd t (length nd)"
  using assms
proof (induction "length nd - i" arbitrary: i table)
  case (Suc n)
  then have i: "i < length nd" by simp
  obtain t where t: "fill_entry nd table i = Some t" "table_ok nd t (Suc i)" "length t = length nd"
    using fill_entry_spec [OF Suc.prems(1,2) i Suc.prems(4)] by blast
  obtain u where "fill_table nd t [Suc i..<length nd] = Some u" "table_ok nd u (length nd)"
    using Suc.hyps(1) [of "Suc i" t] Suc.hyps(2) t i by (metis Suc_leI Suc_diff_Suc diff_Suc_1 le_SucI nat.inject le_add1 plus_1_eq_Suc)
  then show ?case using t i by (simp add: upt_conv_Cons)
qed simp

definition matcher_ok :: "LineMatcher \<Rightarrow> bool" where
  "matcher_ok m \<longleftrightarrow> needle m \<noteq> [] \<and> table_ok (needle m) (prefix_table m) (length (needle m))"

lemma line_matcher_new_spec:
  assumes "query \<noteq> []"
  shows "\<exists>m. line_matcher_new query = Some m \<and> matcher_ok m \<and> needle m = query"
proof -
  have "table_ok query (replicate (length query) 0) 1"
    using assms matches_to_Nil [of query] by (cases query) (auto simp: table_ok_def le_Suc_eq Suc_le_eq)
  then obtain t where "fill_table query (replicate (length query) 0) [1..<length query] = Some t" "table_ok query t (length query)"
    using fill_table_spec [of query "replicate (length query) 0" 1] assms by (auto simp: Suc_le_eq)
  then show ?thesis using assms by (simp add: line_matcher_new_def matcher_ok_def)
qed

text \<open>A scan that stops at the first match.\<close>

lemma matches_to_full: "matches_to nd s (length nd) \<longleftrightarrow> suffix nd s"
  by (auto simp: matches_to_def)

section \<open>The counter\<close>

text \<open>A step over text panics, stops because the file is binary, or goes on.\<close>

datatype 'a scan = Panics | Stopped | Goes 'a

definition scan_bind :: "'a scan \<Rightarrow> ('a \<Rightarrow> 'b scan) \<Rightarrow> 'b scan" where
  "scan_bind r f = (case r of Panics \<Rightarrow> Panics | Stopped \<Rightarrow> Stopped | Goes x \<Rightarrow> f x)"

lemma scan_bind_simps [simp]: "scan_bind Panics f = Panics" "scan_bind Stopped f = Stopped" "scan_bind (Goes x) f = f x"
  by (simp_all add: scan_bind_def)

record LineCounter =
  lc_matched :: nat
  lc_matched_line :: bool
  lc_lines :: nat
  lc_sniffed :: nat

definition line_counter_new :: LineCounter where
  "line_counter_new = \<lparr>lc_matched = 0, lc_matched_line = False, lc_lines = 0, lc_sniffed = 0\<rparr>"

definition counter_byte :: "LineMatcher \<Rightarrow> char \<Rightarrow> LineCounter \<Rightarrow> LineCounter option" where
  "counter_byte m b c =
     map_option (\<lambda>k. c\<lparr>lc_matched := k, lc_matched_line := (k = length (needle m))\<rparr>)
       (kmp_step (needle m) (prefix_table m) b (lc_matched c))"

fun counter_bytes :: "LineMatcher \<Rightarrow> string \<Rightarrow> LineCounter \<Rightarrow> LineCounter option" where
  "counter_bytes m [] c = Some c"
| "counter_bytes m (b # bs) c =
     Option.bind (counter_byte m b c) (\<lambda>c'. if lc_matched_line c' then Some c' else counter_bytes m bs c')"

text \<open>The lower case of a character is a short list of characters; final sigma counts as sigma.\<close>

definition fold_sigma :: "string \<Rightarrow> string" where
  "fold_sigma ch = (if ch = [CHR 0xCF, CHR 0x82] then [CHR 0xCF, CHR 0x83] else ch)"

fun counter_lowers :: "LineMatcher \<Rightarrow> string list \<Rightarrow> LineCounter \<Rightarrow> LineCounter option" where
  "counter_lowers m [] c = Some c"
| "counter_lowers m (l # ls) c =
     Option.bind (counter_bytes m (fold_sigma l) c) (\<lambda>c'. if lc_matched_line c' then Some c' else counter_lowers m ls c')"

definition counter_fold :: "(string \<Rightarrow> string list) \<Rightarrow> LineMatcher \<Rightarrow> string \<Rightarrow> LineCounter \<Rightarrow> LineCounter option" where
  "counter_fold lower m ch c =
     (if char_is is_ascii ch then counter_byte m (to_ascii_lowercase_byte (hd ch)) c else counter_lowers m (lower ch) c)"

definition counter_character :: "(string \<Rightarrow> string list) \<Rightarrow> LineMatcher \<Rightarrow> string \<Rightarrow> LineCounter \<Rightarrow> LineCounter scan" where
  "counter_character lower m ch c =
     (if lc_sniffed c < TEXT_SNIFF_BYTES \<and> ch = [CHR 0x00] then Stopped
      else let c1 = c\<lparr>lc_sniffed := min (lc_sniffed c + length ch) TEXT_SNIFF_BYTES\<rparr>
           in if ch = [newline]
              then Goes (c1\<lparr>lc_lines := lc_lines c1 + (if lc_matched_line c1 then 1 else 0), lc_matched := 0, lc_matched_line := False\<rparr>)
              else if \<not> lc_matched_line c1
              then (case counter_fold lower m ch c1 of None \<Rightarrow> Panics | Some c2 \<Rightarrow> Goes c2)
              else Goes c1)"

fun counter_chars :: "(string \<Rightarrow> string list) \<Rightarrow> LineMatcher \<Rightarrow> string list \<Rightarrow> LineCounter \<Rightarrow> LineCounter scan" where
  "counter_chars lower m [] c = Goes c"
| "counter_chars lower m (ch # cs) c = scan_bind (counter_character lower m ch c) (counter_chars lower m cs)"

definition counter_text :: "(string \<Rightarrow> string list) \<Rightarrow> LineMatcher \<Rightarrow> string \<Rightarrow> LineCounter \<Rightarrow> LineCounter scan" where
  "counter_text lower m txt c =
     (if list_all is_ascii txt then counter_chars lower m (map (\<lambda>b. [b]) txt) c else counter_chars lower m (chars txt) c)"

definition counter_finish :: "LineCounter \<Rightarrow> nat" where
  "counter_finish c = lc_lines c + (if lc_matched_line c then 1 else 0)"

section \<open>Reading a file in pieces\<close>

text \<open>What happens at the head of the reading loop: the search is cancelled, the read is interrupted or fails, or gives
  some bytes; no bytes, or no further event, is the end of the file.\<close>

datatype 'e read_event = Cancelled | Interrupted | ReadFails 'e | ReadGives string

definition replacement_char :: string where
  "replacement_char = [CHR 0xEF, CHR 0xBF, CHR 0xBD]"

text \<open>The inner loop over the buffer. The result has the bytes of a character that is not complete yet.\<close>

lemma from_utf8_error_pos:
  "from_utf8 v bs = Utf8Error w e \<Longrightarrow> v \<le> w \<and> w - v \<le> length bs \<and> (\<forall>n. e = Some n \<longrightarrow> 0 < n)"
proof (induction v bs rule: from_utf8.induct)
  case (2 valid b bs)
  show ?case
  proof (cases "check_char (b # bs)")
    case (Complete n)
    then have "n \<le> length (b # bs)" by (auto simp: check_char_def tail_check_def Let_def Suc_le_eq split: if_splits)
    then show ?thesis using 2 Complete by auto
  qed (use 2 in \<open>auto simp: check_char_def tail_check_def Let_def split: if_splits\<close>)
qed simp

function decode_buffer :: "(string \<Rightarrow> string list) \<Rightarrow> LineMatcher \<Rightarrow> bool \<Rightarrow> string \<Rightarrow> LineCounter \<Rightarrow> (string \<times> LineCounter) scan" where
  "decode_buffer lower m at_end bytes c =
     (if bytes = [] then Goes ([], c)
      else case from_utf8 0 bytes of
             Utf8Ok \<Rightarrow> scan_bind (counter_text lower m bytes c) (\<lambda>c'. Goes ([], c'))
           | Utf8Error valid error_len \<Rightarrow>
               scan_bind (counter_text lower m (take valid bytes) c) (\<lambda>c'.
                 case error_len of
                   Some invalid \<Rightarrow>
                     scan_bind (counter_character lower m replacement_char c')
                       (\<lambda>c''. decode_buffer lower m at_end (drop (valid + invalid) bytes) c'')
                 | None \<Rightarrow>
                     if at_end then scan_bind (counter_character lower m replacement_char c') (\<lambda>c''. Goes ([], c''))
                     else Goes (drop valid bytes, c')))"
  by pat_completeness auto
termination
proof (relation "measure (\<lambda>(lower, m, at_end, bytes, c). length bytes)", goal_cases)
  case (2 lower m at_end bytes c valid error_len c' invalid c'')
  then show ?case using from_utf8_error_pos [of 0 bytes valid error_len] by (cases bytes) auto
qed simp

declare decode_buffer.simps [simp del]

record LineCount =
  count_matches :: nat
  is_lower_bound :: bool

text \<open>The outer loop. The outer option is a panic, then an error of the reader, then the answer: nothing for a binary
  file and a cancelled search.\<close>

fun count_loop :: "(string \<Rightarrow> string list) \<Rightarrow> LineMatcher \<Rightarrow> bool \<Rightarrow> string \<Rightarrow> LineCounter \<Rightarrow> 'e read_event list
    \<Rightarrow> ('e + LineCount option) option" where
  "count_loop lower m stop carry c [] =
     (case decode_buffer lower m True carry c of
        Panics \<Rightarrow> None
      | Stopped \<Rightarrow> Some (Inr None)
      | Goes (_, c') \<Rightarrow> Some (Inr (Some \<lparr>count_matches = counter_finish c', is_lower_bound = False\<rparr>)))"
| "count_loop lower m stop carry c (Cancelled # evs) = Some (Inr None)"
| "count_loop lower m stop carry c (Interrupted # evs) = count_loop lower m stop carry c evs"
| "count_loop lower m stop carry c (ReadFails e # evs) = Some (Inl e)"
| "count_loop lower m stop carry c (ReadGives bytes # evs) =
     (if bytes = [] then count_loop lower m stop carry c []
      else case decode_buffer lower m False (carry @ bytes) c of
             Panics \<Rightarrow> None
           | Stopped \<Rightarrow> Some (Inr None)
           | Goes (carry', c') \<Rightarrow>
               if stop \<and> TEXT_SNIFF_BYTES \<le> lc_sniffed c' \<and> (0 < lc_lines c' \<or> lc_matched_line c')
               then Some (Inr (Some \<lparr>count_matches = counter_finish c', is_lower_bound = True\<rparr>))
               else count_loop lower m stop carry' c' evs)"

definition count_lines :: "(string \<Rightarrow> string list) \<Rightarrow> LineMatcher \<Rightarrow> bool \<Rightarrow> 'e read_event list \<Rightarrow> ('e + LineCount option) option" where
  "count_lines lower m stop_after_first_match evs = count_loop lower m stop_after_first_match [] line_counter_new evs"

section \<open>What a scan computes\<close>

text \<open>Lower case of an ASCII character is as in the standard library.\<close>

definition lower_ok :: "(string \<Rightarrow> string list) \<Rightarrow> bool" where
  "lower_ok lower \<longleftrightarrow> (\<forall>b. is_ascii b \<longrightarrow> lower [b] = [[to_ascii_lowercase_byte b]])"

definition fold_literal_char :: "(string \<Rightarrow> string list) \<Rightarrow> string \<Rightarrow> string" where
  "fold_literal_char lower ch = concat (map fold_sigma (lower ch))"

definition fold_literal_case :: "(string \<Rightarrow> string list) \<Rightarrow> string \<Rightarrow> string" where
  "fold_literal_case lower txt =
     (if list_all is_ascii txt then to_ascii_lowercase txt else concat (map (fold_literal_char lower) (chars txt)))"

abbreviation folded :: "(string \<Rightarrow> string list) \<Rightarrow> string list \<Rightarrow> string" where
  "folded lower cs \<equiv> concat (map (fold_literal_char lower) cs)"

text \<open>A counter inside a line of which the bytes \<open>s\<close> have been seen.\<close>

definition at_line :: "LineMatcher \<Rightarrow> string \<Rightarrow> LineCounter \<Rightarrow> bool" where
  "at_line m s c \<longleftrightarrow>
     lc_matched_line c = sublist (needle m) s
     \<and> (\<not> lc_matched_line c \<longrightarrow> matches_to (needle m) s (lc_matched c) \<and> lc_matched c < length (needle m))"

lemma sublist_more: "sublist nd s \<Longrightarrow> sublist nd (s @ t)"
  by (meson sublist_appendI sublist_order.order_trans sublist_append_rightI)

lemma sublist_snoc: "sublist nd (s @ [b]) \<longleftrightarrow> sublist nd s \<or> suffix nd (s @ [b])"
proof
  assume "sublist nd (s @ [b])"
  then obtain p q where pq: "s @ [b] = p @ nd @ q" by (auto simp: sublist_def)
  show "sublist nd s \<or> suffix nd (s @ [b])"
  proof (cases q rule: rev_cases)
    case (snoc q' x)
    then have "s = p @ nd @ q'" using pq by (metis append.assoc butlast_snoc)
    then show ?thesis by (auto simp: sublist_def)
  qed (use pq in \<open>auto simp: suffix_def\<close>)
qed (auto intro: sublist_more dest: suffix_imp_sublist)

lemma counter_byte_spec:
  assumes "matcher_ok m" and "at_line m s c" and "\<not> lc_matched_line c"
  shows "\<exists>c'. counter_byte m b c = Some c' \<and> at_line m (s @ [b]) c' \<and> lc_lines c' = lc_lines c \<and> lc_sniffed c' = lc_sniffed c"
proof -
  let ?nd = "needle m"
  have ok: "table_ok ?nd (prefix_table m) (length ?nd)" "?nd \<noteq> []" using assms(1) by (simp_all add: matcher_ok_def)
  have pos: "matches_to ?nd s (lc_matched c)" "lc_matched c < length ?nd" "\<not> sublist ?nd s"
    using assms(2,3) by (auto simp: at_line_def)
  obtain k where k: "kmp_step ?nd (prefix_table m) b (lc_matched c) = Some k" "matches_to ?nd (s @ [b]) k"
    using kmp_step_spec [OF ok(1) pos(1)] pos(2) by auto
  have "k = length ?nd \<longleftrightarrow> suffix ?nd (s @ [b])"
    using k(2) matches_to_full [of ?nd "s @ [b]"] matches_to_unique by blast
  then have full: "k = length ?nd \<longleftrightarrow> sublist ?nd (s @ [b])" using pos(3) by (simp add: sublist_snoc)
  have "k \<le> length ?nd" using k(2) by (simp add: matches_to_def)
  then have "\<not> sublist ?nd (s @ [b]) \<longrightarrow> k < length ?nd" using full by auto
  then show ?thesis using k full by (simp add: counter_byte_def at_line_def)
qed

lemma at_line_matched: "at_line m s c \<Longrightarrow> lc_matched_line c \<Longrightarrow> at_line m (s @ t) c"
  by (simp add: at_line_def sublist_more)

lemma counter_bytes_spec:
  assumes "matcher_ok m" and "at_line m s c" and "\<not> lc_matched_line c"
  shows "\<exists>c'. counter_bytes m bs c = Some c' \<and> at_line m (s @ bs) c' \<and> lc_lines c' = lc_lines c \<and> lc_sniffed c' = lc_sniffed c"
  using assms(2,3)
proof (induction bs arbitrary: s c)
  case (Cons b bs)
  obtain c' where c': "counter_byte m b c = Some c'" "at_line m (s @ [b]) c'" "lc_lines c' = lc_lines c" "lc_sniffed c' = lc_sniffed c"
    using counter_byte_spec [OF assms(1) Cons.prems] by blast
  show ?case
  proof (cases "lc_matched_line c'")
    case True
    then have "at_line m (s @ b # bs) c'" using at_line_matched [OF c'(2), of bs] by simp
    then show ?thesis using c' True by simp
  next
    case False
    then show ?thesis using Cons.IH [OF c'(2)] c' by simp
  qed
qed simp

lemma counter_lowers_spec:
  assumes "matcher_ok m" and "at_line m s c" and "\<not> lc_matched_line c"
  shows "\<exists>c'. counter_lowers m ls c = Some c' \<and> at_line m (s @ concat (map fold_sigma ls)) c' \<and> lc_lines c' = lc_lines c
    \<and> lc_sniffed c' = lc_sniffed c"
  using assms(2,3)
proof (induction ls arbitrary: s c)
  case (Cons l ls)
  obtain c' where c': "counter_bytes m (fold_sigma l) c = Some c'" "at_line m (s @ fold_sigma l) c'" "lc_lines c' = lc_lines c"
      "lc_sniffed c' = lc_sniffed c"
    using counter_bytes_spec [OF assms(1) Cons.prems] by blast
  show ?case
  proof (cases "lc_matched_line c'")
    case True
    then have "at_line m (s @ concat (map fold_sigma (l # ls))) c'"
      using at_line_matched [OF c'(2), of "concat (map fold_sigma ls)"] by simp
    then show ?thesis using c' True by simp
  next
    case False
    then show ?thesis using Cons.IH [OF c'(2)] c' by simp
  qed
qed simp

lemma char_is_ascii_hd: "char_is is_ascii ch \<Longrightarrow> \<exists>b. ch = [b] \<and> is_ascii b"
  by (auto simp: char_is_def split: list.splits)

lemma fold_ascii_char: "lower_ok lower \<Longrightarrow> is_ascii b \<Longrightarrow> fold_literal_char lower [b] = [to_ascii_lowercase_byte b]"
  by (simp add: lower_ok_def fold_literal_char_def fold_sigma_def)

lemma counter_fold_spec:
  assumes "lower_ok lower" and "matcher_ok m" and "at_line m s c" and "\<not> lc_matched_line c"
  shows "\<exists>c'. counter_fold lower m ch c = Some c' \<and> at_line m (s @ fold_literal_char lower ch) c' \<and> lc_lines c' = lc_lines c
    \<and> lc_sniffed c' = lc_sniffed c"
proof (cases "char_is is_ascii ch")
  case True
  then obtain b where b: "ch = [b]" "is_ascii b" using char_is_ascii_hd by blast
  then show ?thesis
    using counter_byte_spec [OF assms(2-4), of "to_ascii_lowercase_byte b"] assms(1) True by (simp add: counter_fold_def fold_ascii_char)
next
  case False
  then show ?thesis using counter_lowers_spec [OF assms(2-4), of "lower ch"] by (simp add: counter_fold_def fold_literal_char_def)
qed

text \<open>The lines of a text as lists of characters; the last one may be empty.\<close>

fun char_lines :: "string list \<Rightarrow> string list \<Rightarrow> string list list" where
  "char_lines cur [] = [cur]"
| "char_lines cur (ch # cs) = (if ch = [newline] then cur # char_lines [] cs else char_lines (cur @ [ch]) cs)"

definition matching_lines :: "(string \<Rightarrow> string list) \<Rightarrow> string \<Rightarrow> string list list \<Rightarrow> nat" where
  "matching_lines lower nd ls = length (filter (\<lambda>l. sublist nd (folded lower l)) ls)"

text \<open>A NUL character that starts in the first \<open>room\<close> bytes.\<close>

fun nul_within :: "nat \<Rightarrow> string list \<Rightarrow> bool" where
  "nul_within room [] \<longleftrightarrow> False"
| "nul_within room (ch # cs) \<longleftrightarrow> 0 < room \<and> (ch = [CHR 0x00] \<or> nul_within (room - length ch) cs)"

lemma char_lines_nonempty [simp]: "char_lines cur cs \<noteq> []"
  by (induction cur cs rule: char_lines.induct) simp_all

lemma nul_within_0 [simp]: "\<not> nul_within 0 cs"
  by (cases cs) simp_all

lemma at_line_start: "matcher_ok m \<Longrightarrow> at_line m [] (c\<lparr>lc_matched := 0, lc_matched_line := False\<rparr>)"
  by (auto simp: at_line_def matcher_ok_def matches_to_Nil)

lemma at_line_fields [simp]:
  "at_line m s (c\<lparr>lc_sniffed := n\<rparr>) = at_line m s c" "at_line m s (c\<lparr>lc_lines := n\<rparr>) = at_line m s c"
  by (simp_all add: at_line_def)

lemma counter_chars_spec:
  assumes lower: "lower_ok lower" and m: "matcher_ok m" and "at_line m (folded lower cur) c" and "lc_sniffed c \<le> TEXT_SNIFF_BYTES"
  shows "if nul_within (TEXT_SNIFF_BYTES - lc_sniffed c) cs then counter_chars lower m cs c = Stopped
    else \<exists>c'. counter_chars lower m cs c = Goes c'
      \<and> counter_finish c' = lc_lines c + matching_lines lower (needle m) (char_lines cur cs)
      \<and> at_line m (folded lower (last (char_lines cur cs))) c'
      \<and> lc_sniffed c' = min (lc_sniffed c + length (concat cs)) TEXT_SNIFF_BYTES"
  using assms(3,4)
proof (induction cs arbitrary: cur c)
  case Nil
  then show ?case by (simp add: matching_lines_def counter_finish_def at_line_def)
next
  case (Cons ch cs)
  let ?c1 = "c\<lparr>lc_sniffed := min (lc_sniffed c + length ch) TEXT_SNIFF_BYTES\<rparr>"
  let ?nul = "lc_sniffed c < TEXT_SNIFF_BYTES \<and> ch = [CHR 0x00]"
  show ?case
  proof (cases ?nul)
    case True
    then show ?thesis by (simp add: counter_character_def)
  next
    case False
    have nul: "nul_within (TEXT_SNIFF_BYTES - lc_sniffed c) (ch # cs) = nul_within (TEXT_SNIFF_BYTES - lc_sniffed ?c1) cs"
      using False Cons.prems(2) by (cases "lc_sniffed c < TEXT_SNIFF_BYTES") (auto simp: min_def)
    have step: ?thesis if "counter_character lower m ch c = Goes c2" "at_line m (folded lower cur') c2"
        "lc_sniffed c2 = lc_sniffed ?c1" "char_lines cur (ch # cs) = pre @ char_lines cur' cs"
        "lc_lines c2 = lc_lines c + matching_lines lower (needle m) pre" for c2 cur' pre
    proof -
      have le: "lc_sniffed c2 \<le> TEXT_SNIFF_BYTES" using that(3) by simp
      have lines: "last (char_lines cur (ch # cs)) = last (char_lines cur' cs)"
        "matching_lines lower (needle m) (char_lines cur (ch # cs))
           = matching_lines lower (needle m) pre + matching_lines lower (needle m) (char_lines cur' cs)"
        using that(4) by (simp_all add: matching_lines_def)
      have bytes: "min (lc_sniffed c2 + length (concat cs)) TEXT_SNIFF_BYTES = min (lc_sniffed c + length (concat (ch # cs))) TEXT_SNIFF_BYTES"
        using that(3) by simp
      show ?thesis
        using Cons.IH [OF that(2) le] that(1,3,5) unfolding nul lines bytes by (auto simp: add.assoc split: if_splits)
    qed
    consider "ch = [newline]" | "ch \<noteq> [newline]" "lc_matched_line c" | "ch \<noteq> [newline]" "\<not> lc_matched_line c" by blast
    then show ?thesis
    proof cases
      case 1
      let ?c2 = "?c1\<lparr>lc_lines := lc_lines c + (if lc_matched_line c then 1 else 0), lc_matched := 0, lc_matched_line := False\<rparr>"
      have a: "counter_character lower m ch c = Goes ?c2" using False 1 by (simp add: counter_character_def Let_def)
      have b: "at_line m (folded lower []) ?c2" using at_line_start [OF m, of "?c2"] by simp
      have l: "lc_lines ?c2 = lc_lines c + matching_lines lower (needle m) [cur]"
        using Cons.prems(1) by (simp add: matching_lines_def at_line_def)
      show ?thesis by (rule step [of ?c2 "[]" "[cur]", OF a b _ _ l]) (simp_all add: 1)
    next
      case 2
      have "counter_character lower m ch c = Goes ?c1" using False 2 by (simp add: counter_character_def Let_def)
      moreover have "at_line m (folded lower (cur @ [ch])) ?c1"
        using at_line_matched [OF Cons.prems(1) 2(2), of "fold_literal_char lower ch"] by simp
      ultimately show ?thesis by (rule step [of ?c1 "cur @ [ch]" "[]"]) (simp_all add: matching_lines_def 2)
    next
      case 3
      obtain c2 where c2: "counter_fold lower m ch ?c1 = Some c2" "at_line m (folded lower cur @ fold_literal_char lower ch) c2"
          "lc_lines c2 = lc_lines c" "lc_sniffed c2 = lc_sniffed ?c1"
        using counter_fold_spec [OF lower m, of "folded lower cur" ?c1 ch] Cons.prems(1) 3(2) by auto
      have "counter_character lower m ch c = Goes c2" using False 3 c2(1) by (simp add: counter_character_def Let_def)
      then show ?thesis by (rule step [of c2 "cur @ [ch]" "[]"]) (use c2 3 in \<open>simp_all add: matching_lines_def\<close>)
    qed
  qed
qed

section \<open>Lenient decoding\<close>

text \<open>\<^verbatim>\<open>String::from_utf8_lossy\<close>: what is not a character becomes the replacement character.\<close>

lemma check_char_size:
  assumes "bs \<noteq> []"
  shows "check_char bs = Complete n \<Longrightarrow> 0 < n \<and> n \<le> length bs" and "check_char bs = Invalid n \<Longrightarrow> 0 < n \<and> n \<le> length bs"
  using assms by (cases bs; auto simp: check_char_def tail_check_def Let_def Suc_le_eq split: if_splits)+

function lossy_chars :: "string \<Rightarrow> string list" where
  "lossy_chars [] = []"
| "lossy_chars (b # bs) =
     (case check_char (b # bs) of
        Complete n \<Rightarrow> take n (b # bs) # lossy_chars (drop n (b # bs))
      | Invalid n \<Rightarrow> replacement_char # lossy_chars (drop n (b # bs))
      | CutOff \<Rightarrow> [replacement_char])"
  by pat_completeness auto
termination
proof (relation "measure length", goal_cases)
  case (2 b bs n)
  then show ?case using check_char_size(1) [of "b # bs" n] by simp
next
  case (3 b bs n)
  then show ?case using check_char_size(2) [of "b # bs" n] by simp
qed simp

lemma lossy_chars_nonempty:
  "bs \<noteq> [] \<Longrightarrow> lossy_chars bs =
     (case check_char bs of
        Complete n \<Rightarrow> take n bs # lossy_chars (drop n bs)
      | Invalid n \<Rightarrow> replacement_char # lossy_chars (drop n bs)
      | CutOff \<Rightarrow> [replacement_char])"
  by (induction bs) simp_all

lemma from_utf8_nonempty:
  "bs \<noteq> [] \<Longrightarrow> from_utf8 v bs =
     (case check_char bs of
        Complete n \<Rightarrow> from_utf8 (v + n) (drop n bs) | CutOff \<Rightarrow> Utf8Error v None | Invalid n \<Rightarrow> Utf8Error v (Some n))"
  by (induction bs) simp_all

text \<open>More bytes do not change the verdict on a character that was complete or invalid.\<close>

lemma tail_check_append: "tail_check bs k w \<noteq> CutOff \<Longrightarrow> tail_check (bs @ cs) k w = tail_check bs k w"
  by (simp add: tail_check_def nth_append split: if_splits)

lemma check_char_ranges:
  "code (hd bs) < 0x80 \<Longrightarrow> check_char bs = Complete 1"
  "0xC2 \<le> code (hd bs) \<Longrightarrow> code (hd bs) \<le> 0xDF \<Longrightarrow> check_char bs = tail_check bs 1 2"
  "0xE0 \<le> code (hd bs) \<Longrightarrow> code (hd bs) \<le> 0xF4 \<Longrightarrow> check_char bs =
     (if length bs \<le> 1 then CutOff else if \<not> second_ok (code (hd bs)) (code (bs ! 1)) then Invalid 1
      else tail_check bs 2 (if code (hd bs) \<le> 0xEF then 3 else 4))"
  "0x80 \<le> code (hd bs) \<Longrightarrow> code (hd bs) < 0xC2 \<or> 0xF4 < code (hd bs) \<Longrightarrow> check_char bs = Invalid 1"
  unfolding check_char_def Let_def by (simp_all, erule disjE, simp_all)

lemma first_byte_cases:
  obtains "code b < 0x80" | "0xC2 \<le> code b" "code b \<le> 0xDF" | "0xE0 \<le> code b" "code b \<le> 0xF4"
    | "0x80 \<le> code b" "code b < 0xC2 \<or> 0xF4 < code b"
  by linarith

lemma check_char_append:
  assumes "bs \<noteq> []" and "check_char bs \<noteq> CutOff"
  shows "check_char (bs @ cs) = check_char bs"
proof (cases "hd bs" rule: first_byte_cases)
  case 1
  then show ?thesis using assms(1) by (simp add: check_char_ranges(1))
next
  case 2
  then have "tail_check bs 1 2 \<noteq> CutOff" using assms(2) by (simp add: check_char_ranges(2))
  then have "tail_check (bs @ cs) 1 2 = tail_check bs 1 2" by (rule tail_check_append)
  then show ?thesis using 2 assms(1) by (simp add: check_char_ranges(2))
next
  case 3
  let ?w = "if code (hd bs) \<le> 0xEF then 3 else 4 :: nat"
  have more: "\<not> length bs \<le> 1" using assms(2) 3 by (auto simp: check_char_ranges(3))
  then have nth: "(bs @ cs) ! 1 = bs ! 1" "hd (bs @ cs) = hd bs" by (auto simp: nth_append assms(1))
  show ?thesis
  proof (cases "second_ok (code (hd bs)) (code (bs ! 1))")
    case True
    then have "tail_check bs 2 ?w \<noteq> CutOff" using assms(2) 3 more by (simp add: check_char_ranges(3))
    then have "tail_check (bs @ cs) 2 ?w = tail_check bs 2 ?w" by (rule tail_check_append)
    then show ?thesis using True 3 more nth by (simp add: check_char_ranges(3))
  qed (use 3 more nth in \<open>simp add: check_char_ranges(3)\<close>)
next
  case 4
  then show ?thesis using assms(1) by (simp add: check_char_ranges(4))
qed

lemma tail_check_Complete: "tail_check bs k w = Complete n \<Longrightarrow> n = w"
  by (simp add: tail_check_def split: if_splits)

lemma check_char_take:
  assumes "bs \<noteq> []" and "check_char bs = Complete n"
  shows "check_char (take n bs) = Complete n"
proof -
  have size: "0 < n" "n \<le> length bs" using check_char_size(1) [OF assms] by simp_all
  have hd: "hd (take n bs) = hd bs" using size by simp
  show ?thesis
  proof (cases "hd bs" rule: first_byte_cases)
    case 1
    then show ?thesis using assms hd by (simp add: check_char_ranges(1))
  next
    case 2
    then have "tail_check bs 1 2 = Complete n" using assms(2) by (simp add: check_char_ranges(2))
    then have "tail_check (take n bs) 1 2 = Complete n" using size by (auto simp: tail_check_def split: if_splits)
    then show ?thesis using 2 hd by (simp add: check_char_ranges(2))
  next
    case 3
    let ?w = "if code (hd bs) \<le> 0xEF then 3 else 4 :: nat"
    have t: "tail_check bs 2 ?w = Complete n" "second_ok (code (hd bs)) (code (bs ! 1))" "\<not> length bs \<le> 1"
      using assms(2) 3 by (auto simp: check_char_ranges(3) split: if_splits)
    then have "n = ?w" using tail_check_Complete by blast
    then have n: "3 \<le> n" by simp
    then have "tail_check (take n bs) 2 ?w = Complete n" using t(1) size \<open>n = ?w\<close> by (auto simp: tail_check_def split: if_splits)
    then show ?thesis using 3 hd t n size by (simp add: check_char_ranges(3))
  next
    case 4
    then show ?thesis using assms by (simp add: check_char_ranges(4))
  qed
qed

lemma check_char_first:
  assumes "bs \<noteq> []" and "check_char bs = Complete n"
  shows "n = utf8_width (hd bs)" and "first_char bs = take n bs"
proof -
  show width: "n = utf8_width (hd bs)"
  proof (cases "hd bs" rule: first_byte_cases)
    case 2
    then have "n = 2" using assms(2) tail_check_Complete [of bs 1 2 n] by (simp add: check_char_ranges(2))
    then show ?thesis using 2 by (simp add: utf8_width_def)
  next
    case 3
    let ?w = "if code (hd bs) \<le> 0xEF then 3 else 4 :: nat"
    have "tail_check bs 2 ?w = Complete n" using assms(2) 3 by (auto simp: check_char_ranges(3) split: if_splits)
    then have "n = ?w" by (rule tail_check_Complete)
    then show ?thesis using 3 by (simp add: utf8_width_def)
  qed (use assms in \<open>simp_all add: check_char_ranges utf8_width_def\<close>)
  show "first_char bs = take n bs" using width assms(1) by (cases bs) simp_all
qed

text \<open>A valid text is decoded into its characters.\<close>

lemma chars_first:
  assumes "s \<noteq> []"
  shows "chars s = first_char s # chars (drop (length (first_char s)) s)"
proof -
  have shift: "map snd (char_indices n s) = map snd (char_indices m s)" for n m s
  proof (induction n s arbitrary: m rule: char_indices.induct)
    case (2 off b bs)
    show ?case
      unfolding char_indices.simps(2) Let_def list.map snd_conv
      using "2.IH" [OF refl, of "m + length (first_char (b # bs))"] by (rule arg_cong)
  qed simp
  obtain b bs where s: "s = b # bs" using assms by (cases s) auto
  show ?thesis
    unfolding s chars_def char_indices.simps(2) Let_def list.map snd_conv using shift by metis
qed

lemma chars_Nil [simp]: "chars [] = []"
  by (simp add: chars_def)

lemma chars_take:
  assumes "bs \<noteq> []" and "check_char bs = Complete n"
  shows "chars (take (n + k) bs) = take n bs # chars (take k (drop n bs))"
proof -
  have n: "n = utf8_width (hd bs)" "0 < n" "n \<le> length bs" using check_char_first [OF assms] check_char_size(1) [OF assms] by simp_all
  have hd: "hd (take (n + k) bs) = hd bs" "take (n + k) bs \<noteq> []" using n assms(1) by (simp_all add: hd_take)
  have "first_char xs = take (utf8_width (hd xs)) xs" if "xs \<noteq> []" for xs using that by (cases xs) simp_all
  then have "first_char (take (n + k) bs) = take n bs" using n hd by (simp add: take_take)
  then show ?thesis using n chars_first [of "take (n + k) bs"] assms(1) by (simp add: drop_take)
qed

lemma lossy_append:
  assumes "bs \<noteq> []"
  shows "check_char bs = Complete n \<Longrightarrow> lossy_chars (bs @ cs) = take n bs # lossy_chars (drop n bs @ cs)"
    and "check_char bs = Invalid n \<Longrightarrow> lossy_chars (bs @ cs) = replacement_char # lossy_chars (drop n bs @ cs)"
  using assms check_char_append [OF assms, of cs] check_char_size [OF assms, of n] lossy_chars_nonempty [of "bs @ cs"] by auto

text \<open>The verdict of \<^verbatim>\<open>from_utf8\<close> on a piece tells how the piece and what follows are decoded.\<close>

lemma lossy_from_utf8:
  "from_utf8 v bs = Utf8Ok \<Longrightarrow> lossy_chars (bs @ cs) = chars bs @ lossy_chars cs"
  "from_utf8 v bs = Utf8Error w e \<Longrightarrow> lossy_chars (bs @ cs) = chars (take (w - v) bs) @
     (case e of Some n \<Rightarrow> replacement_char # lossy_chars (drop (w - v + n) bs @ cs) | None \<Rightarrow> lossy_chars (drop (w - v) bs @ cs))"
  "from_utf8 v bs = Utf8Error w None \<Longrightarrow> lossy_chars (drop (w - v) bs) = [replacement_char]"
proof (induction v bs rule: from_utf8.induct)
  case (2 v b bs)
  let ?bs = "b # bs"
  { case 1
    then obtain n where n: "check_char ?bs = Complete n" "from_utf8 (v + n) (drop n ?bs) = Utf8Ok"
      by (simp split: char_check.splits)
    then have size: "n \<le> length ?bs" using check_char_size(1) [of ?bs n] by simp
    have "lossy_chars (?bs @ cs) = take n ?bs # lossy_chars (drop n ?bs @ cs)"
      using n(1) by (intro lossy_append) simp_all
    also have "lossy_chars (drop n ?bs @ cs) = chars (drop n ?bs) @ lossy_chars cs" using "2.IH"(1) n by blast
    also have "take n ?bs # chars (drop n ?bs) @ lossy_chars cs = chars ?bs @ lossy_chars cs"
      using chars_take [of ?bs n "length ?bs"] n(1) by simp
    finally show ?case . }
  { case 2
    show ?case
    proof (cases "check_char ?bs")
      case (Complete n)
      then have size: "n \<le> length ?bs" "from_utf8 (v + n) (drop n ?bs) = Utf8Error w e" using 2 check_char_size(1) [of ?bs n] by simp_all
      have le: "v + n \<le> w" using from_utf8_error_pos [OF size(2)] by simp
      have first: "lossy_chars (?bs @ cs) = take n ?bs # lossy_chars (drop n ?bs @ cs)"
        using Complete by (intro lossy_append) simp_all
      have valid: "chars (take (w - v) ?bs) = take n ?bs # chars (take (w - (v + n)) (drop n ?bs))"
        using chars_take [OF _ Complete, of "w - (v + n)"] le by simp
      have rest: "drop (w - (v + n)) (drop n ?bs) = drop (w - v) ?bs"
        "drop (w - (v + n) + k) (drop n ?bs) = drop (w - v + k) ?bs" for k
        using le by (simp_all only: drop_drop) (simp_all add: add.commute)
      show ?thesis unfolding first valid "2.IH"(2) [OF Complete size(2)] rest by simp
    next
      case (Invalid n)
      then have "lossy_chars (?bs @ cs) = replacement_char # lossy_chars (drop n ?bs @ cs)"
        by (intro lossy_append) simp_all
      then show ?thesis using 2 Invalid by auto
    qed (use 2 in auto) }
  { case 3
    show ?case
    proof (cases "check_char ?bs")
      case (Complete n)
      then have size: "from_utf8 (v + n) (drop n ?bs) = Utf8Error w None" using 3 by simp
      have "v + n \<le> w" using from_utf8_error_pos [OF size] by simp
      then have "drop (w - (v + n)) (drop n ?bs) = drop (w - v) ?bs" by (simp only: drop_drop) (simp add: add.commute)
      then show ?thesis using "2.IH"(3) [OF Complete size] by simp
    qed (use 3 in auto) }
qed simp_all

section \<open>The pieces together\<close>

lemma counter_text_chars: "counter_text lower m txt c = counter_chars lower m (chars txt) c"
  by (simp add: counter_text_def chars_ascii)

lemma counter_chars_append: "counter_chars lower m (xs @ ys) c = scan_bind (counter_chars lower m xs c) (counter_chars lower m ys)"
  by (induction xs arbitrary: c) (simp_all add: scan_bind_def split: scan.splits)

lemma counter_chars_Cons:
  "counter_chars lower m (ch # cs) = (\<lambda>c. scan_bind (counter_character lower m ch c) (counter_chars lower m cs))"
  by (rule ext) simp

lemma scan_bind_assoc: "scan_bind (scan_bind r f) g = scan_bind r (\<lambda>x. scan_bind (f x) g)"
  by (simp add: scan_bind_def split: scan.splits)

lemma scan_bind_Goes: "scan_bind r Goes = r"
  by (simp add: scan_bind_def split: scan.splits)

lemma decode_buffer_end:
  "decode_buffer lower m True bytes c = scan_bind (counter_chars lower m (lossy_chars bytes) c) (\<lambda>c'. Goes ([], c'))"
proof (induction "length bytes" arbitrary: bytes c rule: less_induct)
  case less
  show ?case
  proof (cases "bytes = []")
    case False
    show ?thesis
    proof (cases "from_utf8 0 bytes")
      case Utf8Ok
      then have "lossy_chars bytes = chars bytes" using lossy_from_utf8(1) [of 0 bytes "[]"] by simp
      then show ?thesis using False Utf8Ok by (simp add: decode_buffer.simps [of lower m True bytes] counter_text_chars)
    next
      case (Utf8Error valid e)
      show ?thesis
      proof (cases e)
        case None
        then have "lossy_chars bytes = chars (take valid bytes) @ [replacement_char]"
          using lossy_from_utf8(2) [of 0 bytes valid e "[]"] lossy_from_utf8(3) [of 0 bytes valid] Utf8Error by simp
        then show ?thesis using False Utf8Error None
          by (simp add: decode_buffer.simps [of lower m True bytes] counter_text_chars counter_chars_append scan_bind_assoc scan_bind_Goes)
      next
        case (Some n)
        then have "lossy_chars bytes = chars (take valid bytes) @ replacement_char # lossy_chars (drop (valid + n) bytes)"
          using lossy_from_utf8(2) [of 0 bytes valid e "[]"] Utf8Error by simp
        moreover have "length (drop (valid + n) bytes) < length bytes"
          using from_utf8_error_pos [OF Utf8Error] Some False by (cases bytes) auto
        then have "decode_buffer lower m True (drop (valid + n) bytes)
            = (\<lambda>c. scan_bind (counter_chars lower m (lossy_chars (drop (valid + n) bytes)) c) (\<lambda>c'. Goes ([], c')))"
          by (intro ext less)
        ultimately show ?thesis using False Utf8Error Some
          by (simp add: decode_buffer.simps [of lower m True bytes] counter_text_chars counter_chars_append counter_chars_Cons
              scan_bind_assoc)
      qed
    qed
  qed (simp add: decode_buffer.simps)
qed

lemma decode_buffer_piece:
  "scan_bind (decode_buffer lower m False bytes c) (\<lambda>(carry, c'). counter_chars lower m (lossy_chars (carry @ extra)) c')
     = counter_chars lower m (lossy_chars (bytes @ extra)) c"
proof (induction "length bytes" arbitrary: bytes c rule: less_induct)
  case less
  show ?case
  proof (cases "bytes = []")
    case False
    show ?thesis
    proof (cases "from_utf8 0 bytes")
      case Utf8Ok
      then have "lossy_chars (bytes @ extra) = chars bytes @ lossy_chars extra" by (rule lossy_from_utf8(1))
      then show ?thesis using False Utf8Ok
        by (simp add: decode_buffer.simps [of lower m False bytes] counter_text_chars counter_chars_append scan_bind_assoc)
    next
      case (Utf8Error valid e)
      show ?thesis
      proof (cases e)
        case None
        then have "lossy_chars (bytes @ extra) = chars (take valid bytes) @ lossy_chars (drop valid bytes @ extra)"
          using lossy_from_utf8(2) [of 0 bytes valid e extra] Utf8Error by simp
        then show ?thesis using False Utf8Error None
          by (simp add: decode_buffer.simps [of lower m False bytes] counter_text_chars counter_chars_append scan_bind_assoc)
      next
        case (Some n)
        let ?rest = "drop (valid + n) bytes"
        have all: "lossy_chars (bytes @ extra) = chars (take valid bytes) @ replacement_char # lossy_chars (?rest @ extra)"
          using lossy_from_utf8(2) [of 0 bytes valid e extra] Utf8Error Some by simp
        have "length ?rest < length bytes" using from_utf8_error_pos [OF Utf8Error] Some False by (cases bytes) auto
        then have "scan_bind (decode_buffer lower m False ?rest c') (\<lambda>(carry, c'). counter_chars lower m (lossy_chars (carry @ extra)) c')
            = counter_chars lower m (lossy_chars (?rest @ extra)) c'" for c' by (rule less)
        then show ?thesis using False Utf8Error Some all
          by (simp add: decode_buffer.simps [of lower m False bytes] counter_text_chars counter_chars_append counter_chars_Cons
              scan_bind_assoc)
      qed
    qed
  qed (simp add: decode_buffer.simps)
qed

text \<open>The bytes that the events of an undisturbed reading give.\<close>

fun file_bytes :: "'e read_event list \<Rightarrow> string" where
  "file_bytes [] = []"
| "file_bytes (ReadGives bytes # evs) = (if bytes = [] then [] else bytes @ file_bytes evs)"
| "file_bytes (_ # evs) = file_bytes evs"

fun undisturbed :: "'e read_event \<Rightarrow> bool" where
  "undisturbed (ReadGives _) \<longleftrightarrow> True"
| "undisturbed Interrupted \<longleftrightarrow> True"
| "undisturbed _ \<longleftrightarrow> False"

definition full_count :: "LineCounter scan \<Rightarrow> ('e + LineCount option) option" where
  "full_count r =
     (case r of Panics \<Rightarrow> None | Stopped \<Rightarrow> Some (Inr None)
      | Goes c \<Rightarrow> Some (Inr (Some \<lparr>count_matches = counter_finish c, is_lower_bound = False\<rparr>)))"

lemma count_loop_end: "count_loop lower m stop carry c [] = full_count (counter_chars lower m (lossy_chars carry) c)"
  by (simp add: decode_buffer_end full_count_def scan_bind_def split: scan.splits)

lemma count_loop_full:
  "list_all undisturbed evs \<Longrightarrow>
     count_loop lower m False carry c evs = full_count (counter_chars lower m (lossy_chars (carry @ file_bytes evs)) c)"
proof (induction evs arbitrary: carry c)
  case Nil
  show ?case by (simp only: count_loop_end file_bytes.simps append_Nil2)
next
  case (Cons ev evs)
  show ?case
  proof (cases ev)
    case (ReadGives bytes)
    show ?thesis
    proof (cases "bytes = []")
      case True
      then show ?thesis using ReadGives count_loop_end [of lower m False carry c] by simp
    next
      case False
      have "counter_chars lower m (lossy_chars (carry @ bytes @ file_bytes evs)) c
          = scan_bind (decode_buffer lower m False (carry @ bytes) c)
              (\<lambda>(carry', c'). counter_chars lower m (lossy_chars (carry' @ file_bytes evs)) c')"
        using decode_buffer_piece [of lower m "carry @ bytes" c "file_bytes evs"] by simp
      then show ?thesis using Cons False ReadGives
        by (simp add: scan_bind_def full_count_def split: scan.splits prod.splits)
    qed
  qed (use Cons in simp_all)
qed

section \<open>Lines of characters and lines of bytes\<close>

definition char_ok :: "string \<Rightarrow> bool" where
  "char_ok ch \<longleftrightarrow> ch \<noteq> [] \<and> length ch = utf8_width (hd ch) \<and> (length ch = 1 \<or> list_all (\<lambda>b. \<not> is_ascii b) ch)"

lemma continuation_not_ascii: "is_continuation b \<Longrightarrow> \<not> is_ascii b"
  by (simp add: is_continuation_def is_ascii_def)

lemma check_char_ok:
  assumes "bs \<noteq> []" and "check_char bs = Complete n"
  shows "char_ok (take n bs)"
proof -
  have size: "0 < n" "n \<le> length bs" "n = utf8_width (hd bs)"
    using check_char_size(1) [OF assms] check_char_first(1) [OF assms] by simp_all
  have hd: "hd (take n bs) = hd bs" using size by simp
  have "n = 1 \<or> list_all (\<lambda>b. \<not> is_ascii b) (take n bs)"
  proof (cases "hd bs" rule: first_byte_cases)
    case 2
    then have "tail_check bs 1 2 = Complete n" using assms(2) by (simp add: check_char_ranges(2))
    then have "n = 2" "is_continuation (bs ! 1)" by (auto simp: tail_check_def split: if_splits)
    moreover have "\<not> is_ascii (hd bs)" using 2 by (simp add: is_ascii_def)
    ultimately show ?thesis using size by (cases bs; cases "tl bs") (auto simp: continuation_not_ascii numeral_2_eq_2)
  next
    case 3
    let ?w = "if code (hd bs) \<le> 0xEF then 3 else 4 :: nat"
    have "tail_check bs 2 ?w = Complete n" "second_ok (code (hd bs)) (code (bs ! 1))" "\<not> length bs \<le> 1"
      using assms(2) 3 by (auto simp: check_char_ranges(3) split: if_splits)
    then have "is_continuation (bs ! 2)" "n = ?w" "n = 4 \<Longrightarrow> is_continuation (bs ! 3)" "\<not> is_ascii (bs ! 1)"
      by (auto simp: tail_check_def second_ok_def is_ascii_def split: if_splits)
    moreover have "\<not> is_ascii (bs ! 0)" using 3 assms(1) by (cases bs) (auto simp: is_ascii_def)
    ultimately have "\<not> is_ascii (bs ! i)" if "i < n" for i
    proof -
      have "i = 0 \<or> i = 1 \<or> i = 2 \<or> i = 3 \<and> n = 4" using that \<open>n = ?w\<close> by (auto split: if_splits)
      then show ?thesis using \<open>\<not> is_ascii (bs ! 0)\<close> \<open>\<not> is_ascii (bs ! 1)\<close> \<open>is_continuation (bs ! 2)\<close>
          \<open>n = 4 \<Longrightarrow> is_continuation (bs ! 3)\<close> continuation_not_ascii by auto
    qed
    then show ?thesis using size by (auto simp: list_all_length)
  qed (use assms in \<open>simp_all add: check_char_ranges\<close>)
  moreover have "take n bs \<noteq> []" "length (take n bs) = n" using size assms(1) by simp_all
  ultimately show ?thesis using size(3) hd unfolding char_ok_def by simp
qed

lemma lossy_chars_ok: "list_all char_ok (lossy_chars bs)"
proof (induction bs rule: lossy_chars.induct)
  case (2 b bs)
  have "char_ok replacement_char" by (simp add: char_ok_def replacement_char_def utf8_width_def is_ascii_def)
  then show ?case using 2 check_char_ok [of "b # bs"] by (simp split: char_check.split)
qed simp

lemma chars_concat: "list_all char_ok cs \<Longrightarrow> chars (concat cs) = cs"
proof (induction cs)
  case (Cons ch cs)
  then have "first_char (ch @ concat cs) = take (length ch) (ch @ concat cs)" by (cases ch) (simp_all add: char_ok_def)
  then have "first_char (concat (ch # cs)) = ch" by simp
  then show ?case using Cons chars_first [of "concat (ch # cs)"] by (auto simp: char_ok_def)
qed simp

lemma char_newline: "char_ok ch \<Longrightarrow> newline \<in> set ch \<longleftrightarrow> ch = [newline]"
  by (cases ch) (auto simp: char_ok_def list_all_iff is_ascii_def)

text \<open>The line of bytes that stands for a line of characters.\<close>

definition line_text :: "string list \<Rightarrow> string" where
  "line_text l = (case strip_suffix (concat l) [CHR 0x0D] of None \<Rightarrow> concat l | Some l' \<Rightarrow> l')"

lemma split_char_lines:
  assumes "list_all char_ok cs" and "newline \<notin> set (concat cur)" and "list_all char_ok cur"
  shows "split_inclusive newline (concat cur @ concat cs) =
    map (\<lambda>l. concat l @ [newline]) (butlast (char_lines cur cs))
      @ (if concat (last (char_lines cur cs)) = [] then [] else [concat (last (char_lines cur cs))])"
  using assms
proof (induction cur cs rule: char_lines.induct)
  case (1 cur)
  then show ?case by (simp add: split_inclusive_no_sep)
next
  case (2 cur ch cs)
  show ?case
  proof (cases "ch = [newline]")
    case True
    then show ?thesis using 2 split_inclusive_sep [of newline "concat cur" "concat cs"] by simp
  next
    case False
    then have "newline \<notin> set (concat (cur @ [ch]))" using 2(3,4) char_newline [of ch] by simp
    then show ?thesis using 2(2) [OF False] 2(3,5) False by simp
  qed
qed

lemma char_lines_ok:
  assumes "list_all char_ok cs" and "list_all char_ok cur" and "newline \<notin> set (concat cur)"
  shows "list_all (\<lambda>l. list_all char_ok l \<and> newline \<notin> set (concat l)) (char_lines cur cs)"
  using assms
proof (induction cur cs rule: char_lines.induct)
  case (2 cur ch cs)
  then show ?case using char_newline [of ch] by (cases "ch = [newline]") simp_all
qed simp

lemma rust_lines_chars:
  assumes "list_all char_ok cs"
  shows "rust_lines (concat cs) = map line_text (butlast (char_lines [] cs))
    @ (if concat (last (char_lines [] cs)) = [] then [] else [concat (last (char_lines [] cs))])"
proof -
  let ?ls = "char_lines [] cs"
  have ok: "list_all (\<lambda>l. list_all char_ok l \<and> newline \<notin> set (concat l)) ?ls" using assms by (intro char_lines_ok) simp_all
  have "newline \<notin> set (concat (last ?ls))" using ok last_in_set [of ?ls] by (simp only: list_all_iff char_lines_nonempty) blast
  then have "strip_suffix (concat (last ?ls)) [newline] = None"
    by (metis in_set_conv_decomp not_Some_eq strip_suffix_Some)
  then have last: "strip_line_end (concat (last ?ls)) = concat (last ?ls)" by (simp add: strip_line_end_def)
  have strip: "strip_line_end (concat l @ [newline]) = line_text l" for l
    by (simp add: strip_line_end_def line_text_def strip_suffix_def)
  show ?thesis
    using split_char_lines [OF assms, of "[]"] last by (simp add: rust_lines_def strip)
qed

lemma fold_literal_case_chars:
  assumes "lower_ok lower"
  shows "fold_literal_case lower tx = folded lower (chars tx)"
proof (cases "list_all is_ascii tx")
  case True
  then have "folded lower (map (\<lambda>c. [c]) tx) = to_ascii_lowercase tx"
    using assms by (induction tx) (simp_all add: fold_ascii_char to_ascii_lowercase_def)
  then show ?thesis using True by (simp add: fold_literal_case_def chars_ascii)
qed (simp add: fold_literal_case_def)

text \<open>A carriage return at the end of a line does not matter to a query that does not end in one.\<close>

lemma line_text_match:
  assumes "lower_ok lower" and "list_all char_ok l" and "q \<noteq> []" and "last q \<noteq> CHR 0x0D"
  shows "sublist q (fold_literal_case lower (line_text l)) \<longleftrightarrow> sublist q (folded lower l)"
proof (cases "suffix [CHR 0x0D] (concat l)")
  case False
  then have "line_text l = concat l" by (simp add: line_text_def strip_suffix_def)
  then show ?thesis using assms by (simp add: fold_literal_case_chars chars_concat)
next
  case True
  then have "l \<noteq> []" by auto
  then obtain l' ch where l: "l = l' @ [ch]" by (metis rev_exhaust)
  have ch: "char_ok ch" using assms(2) l by simp
  have "last ch = CHR 0x0D" "ch \<noteq> []" using True l ch by (auto simp: char_ok_def suffix_def dest: arg_cong [where f = last])
  moreover have "is_ascii (CHR 0x0D)" by (simp add: is_ascii_def)
  ultimately have "length ch = 1" using ch last_in_set [of ch] by (metis char_ok_def list_all_iff)
  then have "ch = [CHR 0x0D]" using \<open>last ch = CHR 0x0D\<close> by (cases ch) simp_all
  then have parts: "line_text l = concat l'" "folded lower l = folded lower l' @ [CHR 0x0D]"
    using assms(1) l fold_ascii_char [of lower "CHR 0x0D"]
    by (simp_all add: line_text_def strip_suffix_def is_ascii_def to_ascii_lowercase_byte_def is_ascii_uppercase_def)
  have "\<not> suffix q (folded lower l' @ [CHR 0x0D])" using assms(3,4) by (auto simp: suffix_def dest: arg_cong [where f = last])
  then have "sublist q (folded lower l' @ [CHR 0x0D]) = sublist q (folded lower l')" by (simp only: sublist_snoc simp_thms)
  moreover have "fold_literal_case lower (line_text l) = folded lower l'"
    using assms(1,2) l parts(1) by (simp add: fold_literal_case_chars chars_concat)
  ultimately show ?thesis by (simp only: parts(2))
qed

section \<open>Stopping at the first match\<close>

lemma decode_buffer_prefix:
  assumes "decode_buffer lower m False bytes c = Goes (carry, c')"
  shows "\<exists>xs. counter_chars lower m xs c = Goes c' \<and> (\<forall>extra. lossy_chars (bytes @ extra) = xs @ lossy_chars (carry @ extra))"
  using assms
proof (induction "length bytes" arbitrary: bytes c rule: less_induct)
  case less
  show ?case
  proof (cases "bytes = []")
    case True
    then show ?thesis using less.prems by (intro exI [of _ "[]"]) (simp add: decode_buffer.simps)
  next
    case False
    show ?thesis
    proof (cases "from_utf8 0 bytes")
      case Utf8Ok
      then have "counter_chars lower m (chars bytes) c = Goes c'" "carry = []"
        using less.prems False by (auto simp: decode_buffer.simps [of lower m False bytes] counter_text_chars scan_bind_def split: scan.splits)
      then show ?thesis using lossy_from_utf8(1) [OF Utf8Ok] by (intro exI [of _ "chars bytes"]) simp
    next
      case (Utf8Error valid e)
      note split = lossy_from_utf8(2) [OF Utf8Error]
      obtain c1 where c1: "counter_chars lower m (chars (take valid bytes)) c = Goes c1"
        using less.prems False Utf8Error
        by (auto simp: decode_buffer.simps [of lower m False bytes] counter_text_chars scan_bind_def split: scan.splits)
      show ?thesis
      proof (cases e)
        case None
        then have "c1 = c'" "carry = drop valid bytes"
          using less.prems False Utf8Error c1 by (auto simp: decode_buffer.simps [of lower m False bytes] counter_text_chars)
        then show ?thesis using c1 split None by (intro exI [of _ "chars (take valid bytes)"]) simp
      next
        case (Some n)
        let ?rest = "drop (valid + n) bytes"
        obtain c2 where c2: "counter_character lower m replacement_char c1 = Goes c2" "decode_buffer lower m False ?rest c2 = Goes (carry, c')"
          using less.prems False Utf8Error Some c1
          by (auto simp: decode_buffer.simps [of lower m False bytes] counter_text_chars scan_bind_def split: scan.splits)
        have "length ?rest < length bytes" using from_utf8_error_pos [OF Utf8Error] Some False by (cases bytes) auto
        then obtain xs where "counter_chars lower m xs c2 = Goes c'" "\<forall>extra. lossy_chars (?rest @ extra) = xs @ lossy_chars (carry @ extra)"
          using less.hyps [OF _ c2(2)] by blast
        then show ?thesis using split Some c1 c2
          by (intro exI [of _ "chars (take valid bytes) @ replacement_char # xs"]) (simp add: counter_chars_append)
      qed
    qed
  qed
qed

lemma char_lines_first: "\<exists>p ls. char_lines cur cs = (cur @ p) # ls"
  by (induction cur cs rule: char_lines.induct) auto

lemma counter_more:
  assumes "lower_ok lower" and "matcher_ok m" and "at_line m (folded lower cur) c" and "lc_sniffed c = TEXT_SNIFF_BYTES"
  shows "\<exists>c'. counter_chars lower m xs c = Goes c' \<and> counter_finish c \<le> counter_finish c'"
proof -
  obtain c' where c': "counter_chars lower m xs c = Goes c'"
      "counter_finish c' = lc_lines c + matching_lines lower (needle m) (char_lines cur xs)"
    using counter_chars_spec [OF assms(1-3), of xs] assms(4) by auto
  obtain p ls where "char_lines cur xs = (cur @ p) # ls" using char_lines_first by blast
  then have "(if lc_matched_line c then 1 else 0) \<le> matching_lines lower (needle m) (char_lines cur xs)"
    using assms(3) sublist_more [of "needle m" "folded lower cur" "folded lower p"] by (simp add: matching_lines_def at_line_def)
  then show ?thesis using c' by (simp add: counter_finish_def)
qed

definition count_agrees :: "LineCounter scan \<Rightarrow> ('e + LineCount option) option \<Rightarrow> bool" where
  "count_agrees r answer \<longleftrightarrow>
     (case r of Panics \<Rightarrow> answer = None | Stopped \<Rightarrow> answer = Some (Inr None)
      | Goes c \<Rightarrow> \<exists>n low. answer = Some (Inr (Some \<lparr>count_matches = n, is_lower_bound = low\<rparr>)) \<and> n \<le> counter_finish c
          \<and> (if low then 0 < n else n = counter_finish c))"

lemma count_agrees_simps:
  "count_agrees Panics answer \<longleftrightarrow> answer = None" "count_agrees Stopped answer \<longleftrightarrow> answer = Some (Inr None)"
  "count_agrees (Goes c) answer \<longleftrightarrow> (\<exists>n low. answer = Some (Inr (Some \<lparr>count_matches = n, is_lower_bound = low\<rparr>))
      \<and> n \<le> counter_finish c \<and> (if low then 0 < n else n = counter_finish c))"
  by (simp_all add: count_agrees_def)

lemma count_agrees_early:
  "0 < n \<Longrightarrow> n \<le> counter_finish c \<Longrightarrow> count_agrees (Goes c) (Some (Inr (Some \<lparr>count_matches = n, is_lower_bound = True\<rparr>)))"
  unfolding count_agrees_simps(3) by (intro exI [of _ n] exI [of _ True]) simp

lemma count_loop_stop:
  assumes "lower_ok lower" and "matcher_ok m"
  shows "list_all undisturbed evs \<Longrightarrow> at_line m (folded lower cur) c \<Longrightarrow> lc_sniffed c \<le> TEXT_SNIFF_BYTES \<Longrightarrow>
     count_agrees (counter_chars lower m (lossy_chars (carry @ file_bytes evs)) c) (count_loop lower m True carry c evs)"
proof (induction evs arbitrary: carry c cur)
  case Nil
  show ?case unfolding count_loop_end file_bytes.simps append_Nil2
    by (cases "counter_chars lower m (lossy_chars carry) c") (simp_all add: count_agrees_def full_count_def ex_bool_eq)
next
  case (Cons ev evs)
  show ?case
  proof (cases ev)
    case (ReadGives bytes)
    show ?thesis
    proof (cases "bytes = []")
      case True
      then have "count_loop lower m True carry c (ev # evs) = full_count (counter_chars lower m (lossy_chars carry) c)"
        using ReadGives count_loop_end [of lower m True carry c] by simp
      moreover have "file_bytes (ev # evs) = []" using True ReadGives by simp
      ultimately show ?thesis
        by (cases "counter_chars lower m (lossy_chars carry) c") (simp_all add: count_agrees_def full_count_def ex_bool_eq)
    next
      case False
      let ?all = "counter_chars lower m (lossy_chars (carry @ bytes @ file_bytes evs)) c"
      have piece: "?all = scan_bind (decode_buffer lower m False (carry @ bytes) c)
          (\<lambda>(carry', c'). counter_chars lower m (lossy_chars (carry' @ file_bytes evs)) c')"
        using decode_buffer_piece [of lower m "carry @ bytes" c "file_bytes evs"] by simp
      show ?thesis
      proof (cases "decode_buffer lower m False (carry @ bytes) c")
        case (Goes r)
        obtain carry' c' where r: "r = (carry', c')" by fastforce
        obtain xs where xs: "counter_chars lower m xs c = Goes c'"
          using decode_buffer_prefix Goes r by blast
        have spec: "at_line m (folded lower (last (char_lines cur xs))) c'" "lc_sniffed c' \<le> TEXT_SNIFF_BYTES"
          using counter_chars_spec [OF assms Cons.prems(2,3), of xs] xs by (auto split: if_splits)
        show ?thesis
        proof (cases "TEXT_SNIFF_BYTES \<le> lc_sniffed c' \<and> (0 < lc_lines c' \<or> lc_matched_line c')")
          case True
          then have "lc_sniffed c' = TEXT_SNIFF_BYTES" "0 < counter_finish c'" using spec(2) by (auto simp: counter_finish_def)
          moreover obtain d where "?all = Goes d" "counter_finish c' \<le> counter_finish d"
            using counter_more [OF assms spec(1) calculation(1), of "lossy_chars (carry' @ file_bytes evs)"] Goes r piece by auto
          ultimately show ?thesis using True False ReadGives Goes r by (simp add: count_agrees_early)
        next
          case no: False
          then show ?thesis using Cons.IH [OF _ spec, of carry'] Cons.prems(1) False ReadGives Goes r piece by auto
        qed
      qed (use piece False ReadGives in \<open>simp_all add: count_agrees_def\<close>)
    qed
  qed (use Cons in simp_all)
qed

lemma matching_rust_lines:
  assumes "lower_ok lower" and "list_all char_ok cs" and "q \<noteq> []" and "last q \<noteq> CHR 0x0D"
  shows "matching_lines lower q (char_lines [] cs)
    = length (filter (\<lambda>line. contains_str (fold_literal_case lower line) q) (rust_lines (concat cs)))"
proof -
  let ?ls = "char_lines [] cs" and ?P = "\<lambda>line. contains_str (fold_literal_case lower line) q"
  have ok: "list_all (\<lambda>l. list_all char_ok l \<and> newline \<notin> set (concat l)) ?ls" using assms(2) by (intro char_lines_ok) simp_all
  have "?P (line_text l) = sublist q (folded lower l)" if "l \<in> set ?ls" for l
    using that ok assms line_text_match [of lower l q] by (simp add: contains_str_sublist list_all_iff)
  then have init: "filter (\<lambda>l. sublist q (folded lower l)) (butlast ?ls) = filter (\<lambda>l. ?P (line_text l)) (butlast ?ls)"
    by (intro filter_cong) (auto dest: in_set_butlastD)
  have last_ok: "list_all char_ok (last ?ls)" using ok last_in_set [of ?ls] by (simp only: list_all_iff char_lines_nonempty) blast
  then have last: "?P (concat (last ?ls)) = sublist q (folded lower (last ?ls))"
    using assms(1) by (simp add: contains_str_sublist fold_literal_case_chars chars_concat)
  have empty: "\<not> ?P []" using assms(3) by (simp add: contains_str_sublist fold_literal_case_def to_ascii_lowercase_def)
  have "matching_lines lower q ?ls = matching_lines lower q (butlast ?ls @ [last ?ls])" by simp
  also have "\<dots> = length (filter (\<lambda>l. ?P (line_text l)) (butlast ?ls)) + (if ?P (concat (last ?ls)) then 1 else 0)"
    unfolding matching_lines_def filter_append init last by simp
  also have "\<dots> = length (filter ?P (rust_lines (concat cs)))"
    unfolding rust_lines_chars [OF assms(2)] filter_append filter_map comp_def length_append length_map
    using empty by (cases "concat (last ?ls) = []") (simp_all only: if_True if_False, simp_all)
  finally show ?thesis .
qed

text \<open>The reference: the file as text, and its lines that contain the query.\<close>

definition lossy_text :: "string \<Rightarrow> string" where
  "lossy_text bytes = concat (lossy_chars bytes)"

definition matching_line_count :: "(string \<Rightarrow> string list) \<Rightarrow> string \<Rightarrow> string \<Rightarrow> nat" where
  "matching_line_count lower q content =
     length (filter (\<lambda>line. contains_str (fold_literal_case lower line) q) (rust_lines content))"

definition is_binary_content :: "string \<Rightarrow> bool" where
  "is_binary_content content \<longleftrightarrow> CHR 0x00 \<in> set (take TEXT_SNIFF_BYTES content)"

lemma nul_within_text: "list_all char_ok cs \<Longrightarrow> nul_within n cs \<longleftrightarrow> CHR 0x00 \<in> set (take n (concat cs))"
proof (induction cs arbitrary: n)
  case (Cons ch cs)
  have ch: "ch \<noteq> []" "length ch = 1 \<or> list_all (\<lambda>b. \<not> is_ascii b) ch" using Cons.prems by (auto simp: char_ok_def)
  have nul: "CHR 0x00 \<in> set (take n ch) \<longleftrightarrow> 0 < n \<and> ch = [CHR 0x00]"
  proof (cases "length ch = 1")
    case True
    then show ?thesis by (cases ch; cases n) auto
  next
    case False
    then have "CHR 0x00 \<notin> set ch" using ch by (auto simp: list_all_iff is_ascii_def)
    then show ?thesis by (auto dest: in_set_takeD)
  qed
  have "0 < n" if "CHR 0x00 \<in> set (take (n - length ch) (concat cs))" using that by (cases n) auto
  then show ?case using Cons nul by auto
qed simp

lemma scan_from_start:
  assumes "lower_ok lower" and "matcher_ok m" and "last (needle m) \<noteq> CHR 0x0D"
  shows "counter_chars lower m (lossy_chars bytes) line_counter_new = Stopped \<longleftrightarrow> is_binary_content (lossy_text bytes)"
    and "\<not> is_binary_content (lossy_text bytes) \<Longrightarrow>
      \<exists>c. counter_chars lower m (lossy_chars bytes) line_counter_new = Goes c
        \<and> counter_finish c = matching_line_count lower (needle m) (lossy_text bytes)"
proof -
  have start: "at_line m (folded lower []) line_counter_new"
    using assms(2) by (auto simp: at_line_def line_counter_new_def matcher_ok_def matches_to_Nil)
  have fields: "lc_sniffed line_counter_new = 0" "lc_lines line_counter_new = 0" by (simp_all add: line_counter_new_def)
  have "needle m \<noteq> []" using assms(2) by (simp add: matcher_ok_def)
  then have count: "matching_lines lower (needle m) (char_lines [] (lossy_chars bytes)) = matching_line_count lower (needle m) (lossy_text bytes)"
    using matching_rust_lines [OF assms(1) lossy_chars_ok _ assms(3)] by (simp add: matching_line_count_def lossy_text_def)
  have nul: "nul_within TEXT_SNIFF_BYTES (lossy_chars bytes) = is_binary_content (lossy_text bytes)"
    using nul_within_text [OF lossy_chars_ok] by (simp add: is_binary_content_def lossy_text_def)
  note spec = counter_chars_spec [OF assms(1,2) start, of "lossy_chars bytes", unfolded fields count diff_zero nul, simplified]
  show "counter_chars lower m (lossy_chars bytes) line_counter_new = Stopped \<longleftrightarrow> is_binary_content (lossy_text bytes)"
    using spec by (auto split: if_splits)
  assume "\<not> is_binary_content (lossy_text bytes)"
  then show "\<exists>c. counter_chars lower m (lossy_chars bytes) line_counter_new = Goes c
      \<and> counter_finish c = matching_line_count lower (needle m) (lossy_text bytes)"
    using spec by auto
qed

section \<open>Theorems\<close>

text \<open>Claim C30. The table of the matcher is the failure function of the query: entry \<open>i\<close> is the length of the longest
  proper beginning of the query's first \<open>i + 1\<close> bytes that is also their end. Building it never leaves an array and ends.\<close>

theorem matcher_table_exact:
  assumes "query \<noteq> []" and "i < length query"
  shows "\<exists>m. line_matcher_new query = Some m \<and> prefix_table m ! i \<le> i
    \<and> suffix (take (prefix_table m ! i) query) (take (i + 1) query)
    \<and> (\<forall>j\<le>i. suffix (take j query) (take (i + 1) query) \<longrightarrow> j \<le> prefix_table m ! i)"
proof -
  obtain m where m: "line_matcher_new query = Some m" "matcher_ok m" "needle m = query"
    using line_matcher_new_spec [OF assms(1)] by blast
  let ?p = "prefix_table m ! i"
  have ok: "table_ok query (prefix_table m) (length query)" using m by (simp add: matcher_ok_def)
  then have p: "matches_to query (tl (take (i + 1) query)) ?p" using assms(2) unfolding table_ok_def by (metis Suc_eq_plus1 Suc_leI add_diff_cancel_right' le_add2)
  have le: "?p \<le> i" using table_entry_less [OF ok, of "i + 1"] assms(2) by simp
  have "suffix (take j query) (take (i + 1) query) \<longleftrightarrow> suffix (take j query) (tl (take (i + 1) query))" if "j \<le> i" for j
    using shorter_match [of "i + 1" query "take (i + 1) query" j] that assms(2) by simp
  then show ?thesis using m(1) p le assms(2) by (auto simp: matches_to_def)
qed

theorem matcher_table_exact_witness: "\<exists>m. line_matcher_new ''abcabd'' = Some m \<and> prefix_table m ! 4 \<le> 4
    \<and> suffix (take (prefix_table m ! 4) ''abcabd'') ''abcab''"
  using matcher_table_exact [of "''abcabd''" 4] by auto

text \<open>Claim C14. Counting agrees with reading the whole file: whatever pieces the file comes in, also cut inside characters
  and with interrupted reads, the count is the number of lines of the decoded file whose folded text contains the query, and
  there is no count exactly for a binary file. No index is out of range and no loop runs forever.\<close>

theorem count_lines_exact:
  assumes "lower_ok lower" and "query \<noteq> []" and "last query \<noteq> CHR 0x0D" and "list_all undisturbed evs"
  shows "\<exists>m. line_matcher_new query = Some m \<and> count_lines lower m False evs = Some (Inr
    (if is_binary_content (lossy_text (file_bytes evs)) then None
     else Some \<lparr>count_matches = matching_line_count lower query (lossy_text (file_bytes evs)), is_lower_bound = False\<rparr>))"
proof -
  obtain m where m: "line_matcher_new query = Some m" "matcher_ok m" "needle m = query"
    using line_matcher_new_spec [OF assms(2)] by blast
  have "count_lines lower m False evs = full_count (counter_chars lower m (lossy_chars (file_bytes evs)) line_counter_new)"
    using count_loop_full [OF assms(4), of lower m "[]"] by (simp add: count_lines_def)
  then show ?thesis
    using scan_from_start [OF assms(1) m(2), of "file_bytes evs"] assms(3) m(1,3) by (auto simp: full_count_def)
qed

theorem count_lines_exact_witness:
  "\<exists>m. line_matcher_new ''ab'' = Some m
    \<and> count_lines (\<lambda>ch. [to_ascii_lowercase ch]) m False [ReadGives ''xA'', Interrupted, ReadGives (''B'' @ [newline]), ReadGives ''aab'' :: unit read_event]
      = Some (Inr (Some \<lparr>count_matches = 2, is_lower_bound = False\<rparr>))"
proof -
  let ?evs = "[ReadGives ''xA'', Interrupted, ReadGives (''B'' @ [newline]), ReadGives ''aab''] :: unit read_event list"
  let ?lower = "\<lambda>ch. [to_ascii_lowercase ch]"
  have lower: "lower_ok ?lower" by (simp add: lower_ok_def to_ascii_lowercase_def)
  have decoded: "lossy_text (file_bytes ?evs) = ''xAB'' @ [newline] @ ''aab''" by (simp add: lossy_text_def check_char_def)
  have "\<not> is_binary_content (lossy_text (file_bytes ?evs))" unfolding decoded by (simp add: is_binary_content_def TEXT_SNIFF_BYTES_def)
  moreover have "matching_line_count ?lower ''ab'' (lossy_text (file_bytes ?evs)) = 2"
    unfolding decoded matching_line_count_def rust_lines_def by code_simp
  ultimately show ?thesis using count_lines_exact [OF lower, of "''ab''" ?evs] by simp
qed

text \<open>Theorem. Stopping at the first match gives a sound answer: a count marked as a lower bound is positive and at most the
  number of matching lines, any other count is exact, and a binary file still gives none.\<close>

theorem count_lines_stop_sound:
  assumes "lower_ok lower" and "query \<noteq> []" and "last query \<noteq> CHR 0x0D" and "list_all undisturbed evs"
  shows "\<exists>m. line_matcher_new query = Some m \<and>
    (if is_binary_content (lossy_text (file_bytes evs)) then count_lines lower m True evs = Some (Inr None)
     else \<exists>n low. count_lines lower m True evs = Some (Inr (Some \<lparr>count_matches = n, is_lower_bound = low\<rparr>))
       \<and> n \<le> matching_line_count lower query (lossy_text (file_bytes evs))
       \<and> (if low then 0 < n else n = matching_line_count lower query (lossy_text (file_bytes evs))))"
proof -
  obtain m where m: "line_matcher_new query = Some m" "matcher_ok m" "needle m = query"
    using line_matcher_new_spec [OF assms(2)] by blast
  have start: "at_line m (folded lower []) line_counter_new"
    using m(2) by (auto simp: at_line_def line_counter_new_def matcher_ok_def matches_to_Nil)
  have "count_agrees (counter_chars lower m (lossy_chars (file_bytes evs)) line_counter_new) (count_lines lower m True evs)"
  proof -
    have "lc_sniffed line_counter_new \<le> TEXT_SNIFF_BYTES" by (simp add: line_counter_new_def)
    from count_loop_stop [OF assms(1) m(2) assms(4) start this, of "[]"] show ?thesis
      by (simp only: count_lines_def append_Nil)
  qed
  note agrees = this
  let ?content = "lossy_text (file_bytes evs)" and ?answer = "count_lines lower m True evs"
  note scan = scan_from_start [OF assms(1) m(2), of "file_bytes evs", unfolded m(3), OF assms(3)]
  show ?thesis
  proof (cases "is_binary_content ?content")
    case True
    then have "count_agrees Stopped ?answer" using agrees scan(1) by simp
    then have "?answer = Some (Inr None)" by (simp only: count_agrees_simps)
    then show ?thesis using True m(1) by (simp only: if_True) blast
  next
    case False
    then obtain c where c: "counter_chars lower m (lossy_chars (file_bytes evs)) line_counter_new = Goes c"
        "counter_finish c = matching_line_count lower query ?content" using scan(2) by blast
    then obtain n low where "?answer = Some (Inr (Some \<lparr>count_matches = n, is_lower_bound = low\<rparr>))"
        "n \<le> matching_line_count lower query ?content" "if low then 0 < n else n = matching_line_count lower query ?content"
      using agrees unfolding c(1) count_agrees_simps(3) c(2) by blast
    then show ?thesis using False m(1) by (simp only: if_False) blast
  qed
qed

theorem count_lines_stop_sound_witness:
  "\<exists>m n low. line_matcher_new ''ab'' = Some m \<and>
    count_lines (\<lambda>ch. [to_ascii_lowercase ch]) m True [ReadGives ''ab'' :: unit read_event] = Some (Inr (Some \<lparr>count_matches = n, is_lower_bound = low\<rparr>))"
proof -
  have lower: "lower_ok (\<lambda>ch. [to_ascii_lowercase ch])" by (simp add: lower_ok_def to_ascii_lowercase_def)
  let ?evs = "[ReadGives ''ab''] :: unit read_event list"
  have "\<not> is_binary_content (lossy_text (file_bytes ?evs))"
    by (simp add: lossy_text_def is_binary_content_def check_char_def TEXT_SNIFF_BYTES_def)
  then have "\<exists>m. line_matcher_new ''ab'' = Some m \<and>
      (\<exists>n low. count_lines (\<lambda>ch. [to_ascii_lowercase ch]) m True ?evs = Some (Inr (Some \<lparr>count_matches = n, is_lower_bound = low\<rparr>)))"
    using count_lines_stop_sound [OF lower, of "''ab''" ?evs] by (simp only: if_False list.simps simp_thms) (force simp del: file_bytes.simps)
  then show ?thesis by blast
qed

end
