(* ===== verification/Literal_Search.thy ===== *)
theory Literal_Search
  imports Presentation Literal_Matcher Top_Selection
begin

text \<open>
  Searching files for a literal text (\<^verbatim>\<open>src/src/search_literal.rs\<close> and the literal hits of \<^verbatim>\<open>src/src/search.rs\<close>).
  Files are first ranked by streaming counts, then the selected ones are read for previews; a file that changed in
  between makes the whole selection start again over the live files.

  The theorems show that on files that do not change the result is what reading, counting and sorting every file gives,
  independent of the division among threads, and that a preview is a bounded piece of its line.
\<close>

section \<open>Previews\<close>

definition MAX_PREVIEW_LINE_BYTES :: nat where "MAX_PREVIEW_LINE_BYTES = 1024"

definition PREVIEW_CUT_MARKER :: string where "PREVIEW_CUT_MARKER = [CHR 0xE2, CHR 0x80, CHR 0xA6]"

definition is_char_boundary :: "string \<Rightarrow> nat \<Rightarrow> bool" where
  "is_char_boundary s i \<longleftrightarrow> i = 0 \<or> i = length s \<or> (i < length s \<and> \<not> is_continuation (s ! i))"

function next_boundary :: "string \<Rightarrow> nat \<Rightarrow> nat" where
  "next_boundary s i = (if length s \<le> i \<or> is_char_boundary s i then i else next_boundary s (i + 1))"
  by pat_completeness auto
termination by (relation "measure (\<lambda>(s, i). length s - i)") auto

declare next_boundary.simps [simp del]

fun previous_boundary :: "string \<Rightarrow> nat \<Rightarrow> nat" where
  "previous_boundary s 0 = 0"
| "previous_boundary s (Suc i) = (if is_char_boundary s (Suc i) then Suc i else previous_boundary s i)"

definition window_start_at :: "string \<Rightarrow> (nat \<times> nat) option \<Rightarrow> nat" where
  "window_start_at line first_match =
     (case first_match of
        Some (s, e) \<Rightarrow>
          if s \<le> e \<and> e \<le> length line
          then min (s - (MAX_PREVIEW_LINE_BYTES - (e - s)) div 2) (length line - MAX_PREVIEW_LINE_BYTES)
          else 0
      | None \<Rightarrow> 0)"

definition preview_line_window :: "string \<Rightarrow> (nat \<times> nat) option \<Rightarrow> string" where
  "preview_line_window line first_match =
     (if length line \<le> MAX_PREVIEW_LINE_BYTES then line
      else let s = next_boundary line (window_start_at line first_match);
               e = previous_boundary line (min (s + MAX_PREVIEW_LINE_BYTES) (length line))
           in (if 0 < s then PREVIEW_CUT_MARKER else []) @ slice_of line s e
                @ (if e < length line then PREVIEW_CUT_MARKER else []))"

text \<open>The place of the first match in a line whose folded text may have another length. \<open>origins\<close> has the start of
  every character in the folded text and in the line.\<close>

fun fold_origins :: "(string \<Rightarrow> string list) \<Rightarrow> nat \<Rightarrow> (nat \<times> string) list \<Rightarrow> (nat \<times> nat) list" where
  "fold_origins lower at_folded [] = []"
| "fold_origins lower at_folded ((offset, ch) # cs) =
     (at_folded, offset) # fold_origins lower (at_folded + length (fold_literal_char lower ch)) cs"

definition source_offset :: "(nat \<times> nat) list \<Rightarrow> nat \<Rightarrow> nat option" where
  "source_offset origins folded_offset =
     (let n = length (takeWhile (\<lambda>(s, _). s \<le> folded_offset) origins)
      in if n = 0 then None else Some (snd (origins ! (n - 1))))"

definition literal_match_range :: "(string \<Rightarrow> string list) \<Rightarrow> string \<Rightarrow> string \<Rightarrow> (nat \<times> nat) option option" where
  "literal_match_range lower line q =
     (if q = [] then Some None
      else if list_all is_ascii line
      then Some (map_option (\<lambda>s. (s, s + length q)) (find_str q (to_ascii_lowercase line)))
      else let origins = fold_origins lower 0 (char_indices 0 line)
           in case find_str q (concat (map (fold_literal_char lower) (chars line))) of
                None \<Rightarrow> Some None
              | Some found \<Rightarrow>
                  Option.bind (source_offset origins found) (\<lambda>s.
                    map_option (\<lambda>l. Some (s, l + length (first_char (drop l line))))
                      (source_offset origins (found + length q - 1))))"

fun preview_lines :: "(string \<Rightarrow> string list) \<Rightarrow> string \<Rightarrow> nat \<Rightarrow> nat \<Rightarrow> string list \<Rightarrow> string list option" where
  "preview_lines lower q match_line number [] = Some []"
| "preview_lines lower q match_line number (line # ls) =
     Option.bind (if number = match_line \<and> MAX_PREVIEW_LINE_BYTES < length line then literal_match_range lower line q else Some None)
       (\<lambda>found. map_option ((#) (preview_line_window line found)) (preview_lines lower q match_line (number + 1) ls))"

definition literal_preview :: "(string \<Rightarrow> string list) \<Rightarrow> string list \<Rightarrow> nat \<Rightarrow> nat \<Rightarrow> string \<Rightarrow> string option" where
  "literal_preview lower ls first_shown match_line q = map_option join_lines (preview_lines lower q match_line first_shown ls)"

section \<open>The hits of a file\<close>

definition literal_hit :: "(string \<Rightarrow> string list) \<Rightarrow> pathbuf \<Rightarrow> string \<Rightarrow> nat \<Rightarrow> string list \<Rightarrow> nat \<Rightarrow> SearchHit option" where
  "literal_hit lower rel_path q context_lines ls i =
     (let (s, e) = snippet_bounds (i + 1) context_lines (length ls)
      in map_option (\<lambda>shown.
           \<lparr>hit_path = rel_path, hit_start = s, hit_end = e, preview = shown,
             reason = ''literal match: '' @ truncate_for_reason (trim (ls ! i)), score = 0x3F800000,
             sources = [''literal''], neural_requested = False, neural_executed = False\<rparr>)
           (literal_preview lower (slice_of ls (s - 1) e) s (i + 1) q))"

definition matching_indices :: "(string \<Rightarrow> string list) \<Rightarrow> string \<Rightarrow> string list \<Rightarrow> nat list" where
  "matching_indices lower q ls = filter (\<lambda>i. contains_str (fold_literal_case lower (ls ! i)) q) [0..<length ls]"

definition literal_hits_in_content ::
    "(string \<Rightarrow> string list) \<Rightarrow> string \<Rightarrow> pathbuf \<Rightarrow> string \<Rightarrow> nat \<Rightarrow> nat \<Rightarrow> SearchHit list option" where
  "literal_hits_in_content lower content rel_path q context_lines max_hits =
     (if is_binary_content content then Some []
      else let ls = rust_lines content
           in those (map (literal_hit lower rel_path q context_lines ls) (take max_hits (matching_indices lower q ls))))"

section \<open>Searching files\<close>

text \<open>What a pass over the files finds: the reading of a file for counting, and its whole text; both may fail.\<close>

record 'e file_views =
  stream_of :: "pathbuf \<Rightarrow> 'e read_event list option"
  content_of :: "pathbuf \<Rightarrow> string option"

datatype file_search_mode = Files | FileNames | SingleFileName

record RankedFile =
  rf_relative :: pathbuf
  rf_absolute :: pathbuf
  rf_matches :: nat
  rf_lower_bound :: bool

definition ranked_file_rank :: "RankedFile \<Rightarrow> pathbuf file_rank" where
  "ranked_file_rank f = FileRank (rf_matches f) (rf_relative f)"

definition ranked_result_rank :: "FileSearchResult \<Rightarrow> pathbuf file_rank" where
  "ranked_result_rank r = FileRank (hit_count r) (fr_path r)"

definition MAX_LITERAL_FILE_SCORE :: nat where "MAX_LITERAL_FILE_SCORE = 2 ^ 24"
definition DEFAULT_LITERAL_PREVIEWS_PER_FILE :: nat where "DEFAULT_LITERAL_PREVIEWS_PER_FILE = 3"

text \<open>What a search is given: the query with its matcher, the context of previews and the limit; \<open>as_f32\<close> is the
  conversion of whole numbers to floating point.\<close>

record literal_query =
  lq_lower :: "string \<Rightarrow> string list"
  lq_matcher :: LineMatcher
  lq_text :: string
  lq_context :: nat
  lq_max_files :: nat
  lq_as_f32 :: "nat \<Rightarrow> f32"

definition count_file :: "literal_query \<Rightarrow> 'e file_views \<Rightarrow> bool \<Rightarrow> pathbuf \<Rightarrow> LineCount option option" where
  "count_file lq views stop_after_first_match path =
     (case stream_of views path of
        None \<Rightarrow> Some None
      | Some evs \<Rightarrow>
          (case count_lines (lq_lower lq) (lq_matcher lq) stop_after_first_match evs of
             None \<Rightarrow> None
           | Some (Inl _) \<Rightarrow> Some None
           | Some (Inr n) \<Rightarrow> Some n))"

definition read_matching_content :: "literal_query \<Rightarrow> 'e file_views \<Rightarrow> pathbuf \<Rightarrow> (string \<times> nat) option option" where
  "read_matching_content lq views path =
     (case content_of views path of
        None \<Rightarrow> Some None
      | Some content \<Rightarrow>
          (case count_lines (lq_lower lq) (lq_matcher lq) False [ReadGives content :: unit read_event] of
             None \<Rightarrow> None
           | Some (Inr (Some n)) \<Rightarrow> Some (if 0 < count_matches n then Some (content, count_matches n) else None)
           | Some _ \<Rightarrow> Some None))"

definition result_for_content :: "literal_query \<Rightarrow> pathbuf \<Rightarrow> string \<Rightarrow> nat \<Rightarrow> FileSearchResult option option" where
  "result_for_content lq relative content match_count =
     map_option (\<lambda>hits.
       if hits = [] then None
       else let n = max match_count (length hits)
            in Some \<lparr>fr_path = relative, total_score = lq_as_f32 lq (min n MAX_LITERAL_FILE_SCORE), hit_count = n,
                  more_hits_in_file = n - length hits, hit_count_is_lower_bound = False, fr_hits = hits\<rparr>)
       (literal_hits_in_content (lq_lower lq) content relative (lq_text lq) (lq_context lq) DEFAULT_LITERAL_PREVIEWS_PER_FILE)"

text \<open>A parallel map that drops items; a panic of one thread is a panic of all.\<close>

primrec filter_map_division :: "('a \<Rightarrow> 'b option option) \<Rightarrow> 'a division \<Rightarrow> 'b division option" where
  "filter_map_division f (Segment xs) = map_option (\<lambda>ys. Segment (List.map_filter id ys)) (those (map f xs))"
| "filter_map_division f (Joined l r) =
     Option.bind (filter_map_division f l) (\<lambda>l'. map_option (Joined l') (filter_map_division f r))"

definition candidate_file :: "literal_query \<Rightarrow> 'e file_views \<Rightarrow> bool \<Rightarrow> pathbuf \<times> pathbuf \<Rightarrow> RankedFile option option" where
  "candidate_file lq views stop p =
     map_option (\<lambda>counted.
       case counted of
         Some n \<Rightarrow>
           if 0 < count_matches n
           then Some \<lparr>rf_relative = fst p, rf_absolute = snd p, rf_matches = count_matches n, rf_lower_bound = is_lower_bound n\<rparr>
           else None
       | None \<Rightarrow> None)
       (count_file lq views stop (snd p))"

definition select_ranked_files ::
    "literal_query \<Rightarrow> (RankedFile list \<Rightarrow> RankedFile list) \<Rightarrow> 'e file_views \<Rightarrow> file_search_mode \<Rightarrow> (pathbuf \<times> pathbuf) division
      \<Rightarrow> RankedFile list option" where
  "select_ranked_files lq visit views mode paths =
     map_option (\<lambda>cands. sort_key ranked_file_rank
         (if length (items paths) \<le> lq_max_files lq then items cands
          else select_best visit ranked_file_rank (lq_max_files lq) cands))
       (filter_map_division (candidate_file lq views (mode = SingleFileName)) paths)"

definition would_select :: "nat \<Rightarrow> FileSearchResult list \<Rightarrow> pathbuf \<Rightarrow> nat \<Rightarrow> bool" where
  "would_select max_files h path n \<longleftrightarrow>
     length h < max_files
     \<or> (case heap_peek h of Some worst \<Rightarrow> FileRank n path < ranked_result_rank worst | None \<Rightarrow> False)"

definition reselect_step :: "literal_query \<Rightarrow> 'e file_views \<Rightarrow> FileSearchResult list \<Rightarrow> pathbuf \<times> pathbuf \<Rightarrow> FileSearchResult list option" where
  "reselect_step lq views h p =
     Option.bind (count_file lq views False (snd p)) (\<lambda>counted.
       case counted of
         None \<Rightarrow> Some h
       | Some n \<Rightarrow>
           if 0 < count_matches n \<and> would_select (lq_max_files lq) h (fst p) (count_matches n)
           then Option.bind (read_matching_content lq views (snd p)) (\<lambda>got.
             case got of
               None \<Rightarrow> Some h
             | Some (content, k) \<Rightarrow>
                 if would_select (lq_max_files lq) h (fst p) k
                 then map_option (\<lambda>r. case r of None \<Rightarrow> h | Some result \<Rightarrow> insert_ranked ranked_result_rank (lq_max_files lq) result h)
                   (result_for_content lq (fst p) content k)
                 else Some h)
           else Some h)"

definition reselect_live_files ::
    "literal_query \<Rightarrow> (FileSearchResult list \<Rightarrow> FileSearchResult list) \<Rightarrow> 'e file_views \<Rightarrow> (pathbuf \<times> pathbuf) division
      \<Rightarrow> FileSearchResult list option" where
  "reselect_live_files lq visit views paths =
     fold_reduce (\<lambda>h p. Option.bind h (\<lambda>h. reselect_step lq views h p)) (Some [])
       (\<lambda>l r. Option.bind l (\<lambda>l. map_option (\<lambda>r. foldl (\<lambda>h x. insert_ranked ranked_result_rank (lq_max_files lq) x h) l (visit r)) r))
       paths"

definition read_selected :: "literal_query \<Rightarrow> 'e file_views \<Rightarrow> RankedFile \<Rightarrow> FileSearchResult option option" where
  "read_selected lq views f =
     Option.bind (read_matching_content lq views (rf_absolute f)) (\<lambda>got.
       case got of None \<Rightarrow> Some None | Some (content, n) \<Rightarrow> result_for_content lq (rf_relative f) content n)"

definition read_selected_files ::
    "literal_query \<Rightarrow> (FileSearchResult list \<Rightarrow> FileSearchResult list) \<Rightarrow> 'e file_views \<Rightarrow> 'e file_views \<Rightarrow> bool \<times> bool
      \<Rightarrow> (pathbuf \<times> pathbuf) division \<Rightarrow> RankedFile list \<Rightarrow> FileSearchResult list option" where
  "read_selected_files lq visit views live cancelled paths selected =
     Option.bind (those (map (read_selected lq views) selected)) (\<lambda>results.
       if fst cancelled then Some []
       else if list_ex (\<lambda>(f, r). (case r of None \<Rightarrow> 0 | Some r \<Rightarrow> hit_count r) \<noteq> rf_matches f) (zip selected results)
       then map_option (\<lambda>live_results. if snd cancelled then [] else live_results) (reselect_live_files lq visit live paths)
       else Some (List.map_filter id results))"

text \<open>An unlimited request reads every file once and keeps all previews.\<close>

definition unlimited_result :: "literal_query \<Rightarrow> 'e file_views \<Rightarrow> pathbuf \<times> pathbuf \<Rightarrow> FileSearchResult option option" where
  "unlimited_result lq views p =
     (case content_of views (snd p) of
        None \<Rightarrow> Some None
      | Some content \<Rightarrow>
          map_option (\<lambda>hits.
            if hits = [] then None
            else Some \<lparr>fr_path = fst p, total_score = lq_as_f32 lq (min (length hits) MAX_LITERAL_FILE_SCORE), hit_count = length hits,
                   more_hits_in_file = 0, hit_count_is_lower_bound = False, fr_hits = hits\<rparr>)
            (literal_hits_in_content (lq_lower lq) content (fst p) (lq_text lq) (lq_context lq) (length (rust_lines content))))"

definition name_result :: "literal_query \<Rightarrow> RankedFile \<Rightarrow> FileSearchResult" where
  "name_result lq f =
     \<lparr>fr_path = rf_relative f, total_score = lq_as_f32 lq (min (rf_matches f) MAX_LITERAL_FILE_SCORE), hit_count = rf_matches f,
       more_hits_in_file = rf_matches f, hit_count_is_lower_bound = rf_lower_bound f, fr_hits = []\<rparr>"

text \<open>\<open>unlimited\<close> says that the limit is the greatest number there is; \<open>cancelled\<close> is the state of the request at its
  checks after the first pass, after the second and after a third.\<close>

definition search_files ::
    "literal_query \<Rightarrow> (RankedFile list \<Rightarrow> RankedFile list) \<Rightarrow> (FileSearchResult list \<Rightarrow> FileSearchResult list)
      \<Rightarrow> 'e file_views \<Rightarrow> 'e file_views \<Rightarrow> bool \<Rightarrow> bool \<times> bool \<times> bool \<Rightarrow> file_search_mode \<Rightarrow> (pathbuf \<times> pathbuf) division
      \<Rightarrow> FileSearchResult list option" where
  "search_files lq visit_files visit_results views live unlimited cancelled mode paths =
     (if lq_max_files lq = 0 \<or> newline \<in> set (lq_text lq) then Some []
      else if mode = Files \<and> unlimited
      then map_option (\<lambda>results. if fst cancelled then [] else sort_key ranked_result_rank (items results))
             (filter_map_division (unlimited_result lq views) paths)
      else Option.bind (select_ranked_files lq visit_files views mode paths) (\<lambda>selected.
             if fst cancelled then Some []
             else if mode \<noteq> Files then Some (map (name_result lq) selected)
             else read_selected_files lq visit_results views live (snd cancelled) paths selected))"

section \<open>Windows of lines\<close>

lemma next_boundary_spec:
  "i \<le> length s \<Longrightarrow> i \<le> next_boundary s i \<and> next_boundary s i \<le> length s \<and> is_char_boundary s (next_boundary s i)
     \<and> (\<forall>j. i \<le> j \<and> is_char_boundary s j \<longrightarrow> next_boundary s i \<le> j)"
proof (induction s i rule: next_boundary.induct)
  case (1 s i)
  show ?case
  proof (cases "length s \<le> i \<or> is_char_boundary s i")
    case True
    then show ?thesis using "1.prems" by (subst (1 2 3 4) next_boundary.simps) (auto simp: is_char_boundary_def)
  next
    case False
    then have "next_boundary s i = next_boundary s (i + 1)" by (subst next_boundary.simps) simp
    then show ?thesis using 1 False by (auto simp: Suc_le_eq) (metis le_neq_implies_less)
  qed
qed

lemma previous_boundary_spec:
  "previous_boundary s i \<le> i \<and> is_char_boundary s (previous_boundary s i)
     \<and> (\<forall>j\<le>i. is_char_boundary s j \<longrightarrow> j \<le> previous_boundary s i)"
proof (induction s i rule: previous_boundary.induct)
  case (2 s i)
  then show ?case by (auto simp: le_Suc_eq)
qed (simp add: is_char_boundary_def)

lemma preview_line_window_spec:
  assumes "MAX_PREVIEW_LINE_BYTES < length line"
  shows "\<exists>s e. preview_line_window line found = (if 0 < s then PREVIEW_CUT_MARKER else []) @ slice_of line s e
        @ (if e < length line then PREVIEW_CUT_MARKER else [])
      \<and> s \<le> e \<and> e \<le> length line \<and> e - s \<le> MAX_PREVIEW_LINE_BYTES \<and> is_char_boundary line s \<and> is_char_boundary line e
      \<and> (\<forall>a b. found = Some (a, b) \<and> a \<le> b \<and> b \<le> length line \<and> b - a \<le> MAX_PREVIEW_LINE_BYTES
            \<and> is_char_boundary line a \<and> is_char_boundary line b \<longrightarrow> s \<le> a \<and> b \<le> e)"
proof -
  let ?w = "window_start_at line found"
  let ?s = "next_boundary line ?w"
  let ?m = "min (?s + MAX_PREVIEW_LINE_BYTES) (length line)"
  let ?e = "previous_boundary line ?m"
  have w: "?w \<le> length line" using assms by (auto simp: window_start_at_def split: option.split)
  note s = next_boundary_spec [OF w]
  have e: "?e \<le> ?m" "is_char_boundary line ?e" "\<And>j. j \<le> ?m \<Longrightarrow> is_char_boundary line j \<Longrightarrow> j \<le> ?e"
    using previous_boundary_spec [of line ?m] by auto
  have "?s \<le> ?e" using e(3) [of ?s] s by simp
  moreover have "?s \<le> a \<and> b \<le> ?e"
    if f: "found = Some (a, b)" "a \<le> b" "b \<le> length line" "b - a \<le> MAX_PREVIEW_LINE_BYTES" "is_char_boundary line a"
      "is_char_boundary line b" for a b
  proof -
    have w_eq: "?w = min (a - (MAX_PREVIEW_LINE_BYTES - (b - a)) div 2) (length line - MAX_PREVIEW_LINE_BYTES)"
      using f(1-3) by (simp add: window_start_at_def)
    then have "?w \<le> a" unfolding w_eq by linarith
    then have "?s \<le> a" using s f(5) by blast
    moreover have "b \<le> ?w + MAX_PREVIEW_LINE_BYTES" using f(2-4) assms unfolding w_eq by linarith
    then have "b \<le> ?m" using s f(3) by simp
    ultimately show ?thesis using e(3) f(6) by blast
  qed
  moreover have "preview_line_window line found = (if 0 < ?s then PREVIEW_CUT_MARKER else []) @ slice_of line ?s ?e
        @ (if ?e < length line then PREVIEW_CUT_MARKER else [])"
    using assms by (simp add: preview_line_window_def Let_def)
  ultimately show ?thesis using s e(1,2) by (intro exI [of _ ?s] exI [of _ ?e]) auto
qed

section \<open>No hit panics\<close>

lemma fold_origins_first: "fold_origins lower k ((i, ch) # cs) = (k, i) # fold_origins lower (k + length (fold_literal_char lower ch)) cs"
  by simp

lemma source_offset_Some: "origins = (0, i) # rest \<Longrightarrow> \<exists>j. source_offset origins k = Some j"
  by (simp add: source_offset_def Let_def)

lemma literal_match_range_Some: "\<exists>r. literal_match_range lower line q = Some r"
proof (cases "line = []")
  case False
  then obtain ch cs where "char_indices 0 line = (0, ch) # cs" by (cases line) (simp_all add: Let_def)
  then obtain rest where "fold_origins lower 0 (char_indices 0 line) = (0, 0) # rest" by simp
  from source_offset_Some [OF this] have "\<exists>j. source_offset (fold_origins lower 0 (char_indices 0 line)) k = Some j" for k
    by blast
  then obtain g where "\<And>k. source_offset (fold_origins lower 0 (char_indices 0 line)) k = Some (g k)" by metis
  then show ?thesis by (simp add: literal_match_range_def Let_def split: option.split)
qed (simp add: literal_match_range_def)

lemma preview_lines_Some: "\<exists>r. preview_lines lower q n k ls = Some r"
proof (induction ls arbitrary: k)
  case (Cons line ls)
  then obtain r where "preview_lines lower q n (k + 1) ls = Some r" by blast
  then show ?case using literal_match_range_Some [of lower line q] by auto
qed simp

lemma literal_hit_Some: "\<exists>h. literal_hit lower rel q ctx ls i = Some h"
  by (cases "snippet_bounds (i + 1) ctx (length ls)")
    (use preview_lines_Some [of lower q "i + 1"] in \<open>auto simp: literal_hit_def literal_preview_def\<close>)

lemma those_map_Some: "(\<And>x. x \<in> set xs \<Longrightarrow> f x = Some (g x)) \<Longrightarrow> those (map f xs) = Some (map g xs)"
  by (induction xs) simp_all

lemma literal_hits_length:
  "\<exists>hits. literal_hits_in_content lower content rel q ctx n = Some hits
     \<and> length hits = min n (if is_binary_content content then 0 else matching_line_count lower q content)"
proof (cases "is_binary_content content")
  case False
  let ?ls = "rust_lines content"
  have "those (map (literal_hit lower rel q ctx ?ls) is) = Some (map (\<lambda>i. the (literal_hit lower rel q ctx ?ls i)) is)" for "is"
    by (rule those_map_Some) (metis literal_hit_Some option.sel)
  moreover have "length (matching_indices lower q ?ls) = matching_line_count lower q content"
    unfolding matching_indices_def matching_line_count_def length_filter_conv_card length_upt minus_nat.diff_0
    by (intro arg_cong [where f = card] Collect_cong conj_cong) simp_all
  ultimately show ?thesis using False by (simp add: literal_hits_in_content_def Let_def min.commute)
qed (simp add: literal_hits_in_content_def)

section \<open>Files that do not change\<close>

definition literal_matches :: "(string \<Rightarrow> string list) \<Rightarrow> string \<Rightarrow> string \<Rightarrow> nat" where
  "literal_matches lower q content = (if is_binary_content content then 0 else matching_line_count lower q content)"

text \<open>The answer for a file with some content, computed from the whole content.\<close>

definition file_result :: "literal_query \<Rightarrow> pathbuf \<Rightarrow> string \<Rightarrow> FileSearchResult" where
  "file_result lq relative content =
     (let n = literal_matches (lq_lower lq) (lq_text lq) content;
          hits = the (literal_hits_in_content (lq_lower lq) content relative (lq_text lq) (lq_context lq) DEFAULT_LITERAL_PREVIEWS_PER_FILE)
      in \<lparr>fr_path = relative, total_score = lq_as_f32 lq (min n MAX_LITERAL_FILE_SCORE), hit_count = n,
           more_hits_in_file = n - length hits, hit_count_is_lower_bound = False, fr_hits = hits\<rparr>)"

definition expected_result :: "literal_query \<Rightarrow> 'e file_views \<Rightarrow> pathbuf \<times> pathbuf \<Rightarrow> FileSearchResult option" where
  "expected_result lq views p =
     (case content_of views (snd p) of
        None \<Rightarrow> None
      | Some content \<Rightarrow>
          if 0 < literal_matches (lq_lower lq) (lq_text lq) content then Some (file_result lq (fst p) content) else None)"

definition expected_results :: "literal_query \<Rightarrow> 'e file_views \<Rightarrow> (pathbuf \<times> pathbuf) list \<Rightarrow> FileSearchResult list" where
  "expected_results lq views ps = List.map_filter (expected_result lq views) ps"

text \<open>All reads of a file give the same text: the pieces and the whole agree.\<close>

definition stable_file :: "'e file_views \<Rightarrow> pathbuf \<Rightarrow> bool" where
  "stable_file views path \<longleftrightarrow>
     (case stream_of views path of
        None \<Rightarrow> content_of views path = None
      | Some evs \<Rightarrow> list_all undisturbed evs \<and> content_of views path = Some (lossy_text (file_bytes evs)))"

definition query_ok :: "literal_query \<Rightarrow> bool" where
  "query_ok lq \<longleftrightarrow> lower_ok (lq_lower lq) \<and> lq_text lq \<noteq> [] \<and> last (lq_text lq) \<noteq> CHR 0x0D \<and> newline \<notin> set (lq_text lq)
     \<and> line_matcher_new (lq_text lq) = Some (lq_matcher lq)"

text \<open>Text that was decoded leniently is decoded into itself.\<close>

lemma check_char_replacement: "check_char (replacement_char @ bs) = Complete 3"
  by (simp add: check_char_def tail_check_def second_ok_def replacement_char_def is_continuation_def Let_def)

lemma lossy_text_idem: "lossy_text (lossy_text bytes) = lossy_text bytes"
proof -
  have "lossy_chars (concat (lossy_chars bytes)) = lossy_chars bytes"
  proof (induction bytes rule: lossy_chars.induct)
    case (2 b bs)
    have rep: "lossy_chars (replacement_char @ r) = replacement_char # lossy_chars r" for r
      using lossy_chars_nonempty [of "replacement_char @ r"] check_char_replacement [of r]
      by (simp add: replacement_char_def)
    show ?case
    proof (cases "check_char (b # bs)")
      case (Complete n)
      have "check_char (take n (b # bs)) = Complete n" "take n (b # bs) \<noteq> []" "drop n (take n (b # bs)) = []"
        using Complete check_char_size(1) [of "b # bs" n] check_char_take [of "b # bs" n] by auto
      then show ?thesis using 2 Complete lossy_append(1) [of "take n (b # bs)" n] by simp
    next
      case CutOff
      then show ?thesis using rep [of "[]"] by simp
    next
      case (Invalid n)
      then show ?thesis using 2 rep by simp
    qed
  qed simp
  then show ?thesis by (simp add: lossy_text_def)
qed

lemma count_lines_query:
  assumes "query_ok lq" and "list_all undisturbed evs"
  shows "count_lines (lq_lower lq) (lq_matcher lq) False evs = Some (Inr
    (if is_binary_content (lossy_text (file_bytes evs)) then None
     else Some \<lparr>count_matches = matching_line_count (lq_lower lq) (lq_text lq) (lossy_text (file_bytes evs)), is_lower_bound = False\<rparr>))"
proof -
  have q: "lower_ok (lq_lower lq)" "lq_text lq \<noteq> []" "last (lq_text lq) \<noteq> CHR 0x0D" "line_matcher_new (lq_text lq) = Some (lq_matcher lq)"
    using assms(1) by (simp_all add: query_ok_def)
  from line_matcher_new_spec [OF q(2)] q(4) have m: "matcher_ok (lq_matcher lq)" "needle (lq_matcher lq) = lq_text lq" by auto
  show ?thesis
    using count_loop_full [OF assms(2), of "lq_lower lq" "lq_matcher lq" "[]"]
      scan_from_start [OF q(1) m(1), of "file_bytes evs"] q(3) m(2)
    by (auto simp: count_lines_def full_count_def)
qed

lemma count_file_stable:
  assumes "query_ok lq" and "stable_file views path"
  shows "count_file lq views False path = Some (case content_of views path of
      None \<Rightarrow> None
    | Some content \<Rightarrow>
        if is_binary_content content then None
        else Some \<lparr>count_matches = literal_matches (lq_lower lq) (lq_text lq) content, is_lower_bound = False\<rparr>)"
  using assms by (cases "stream_of views path") (auto simp: stable_file_def count_file_def count_lines_query literal_matches_def)

lemma read_matching_stable:
  assumes "query_ok lq" and "stable_file views path"
  shows "read_matching_content lq views path = Some (case content_of views path of
      None \<Rightarrow> None
    | Some content \<Rightarrow>
        let n = literal_matches (lq_lower lq) (lq_text lq) content in if 0 < n then Some (content, n) else None)"
proof (cases "content_of views path")
  case (Some content)
  then have same: "lossy_text content = content"
    using assms(2) by (cases "stream_of views path") (auto simp: stable_file_def lossy_text_idem)
  have "file_bytes [ReadGives content :: unit read_event] = content" by simp
  then show ?thesis
    using Some count_lines_query [OF assms(1), of "[ReadGives content :: unit read_event]"] same
    by (simp add: read_matching_content_def literal_matches_def Let_def)
qed (simp add: read_matching_content_def)

lemma result_for_content_stable:
  assumes "0 < literal_matches (lq_lower lq) (lq_text lq) content"
  shows "result_for_content lq relative content (literal_matches (lq_lower lq) (lq_text lq) content)
    = Some (Some (file_result lq relative content))"
proof -
  obtain hits where hits: "literal_hits_in_content (lq_lower lq) content relative (lq_text lq) (lq_context lq) DEFAULT_LITERAL_PREVIEWS_PER_FILE = Some hits"
      "length hits = min DEFAULT_LITERAL_PREVIEWS_PER_FILE (literal_matches (lq_lower lq) (lq_text lq) content)"
    using literal_hits_length unfolding literal_matches_def by blast
  then have "hits \<noteq> []" "length hits \<le> literal_matches (lq_lower lq) (lq_text lq) content"
    using assms by (auto simp: DEFAULT_LITERAL_PREVIEWS_PER_FILE_def)
  then show ?thesis using hits(1) by (simp add: result_for_content_def file_result_def Let_def max_def)
qed

lemma expected_result_rank:
  "expected_result lq views p = Some r \<Longrightarrow> \<exists>content. content_of views (snd p) = Some content
     \<and> 0 < literal_matches (lq_lower lq) (lq_text lq) content
     \<and> ranked_result_rank r = FileRank (literal_matches (lq_lower lq) (lq_text lq) content) (fst p)"
  by (auto simp: expected_result_def ranked_result_rank_def file_result_def Let_def split: option.splits if_splits)

lemma expected_results_append [simp]:
  "expected_results lq views (ps @ qs) = expected_results lq views ps @ expected_results lq views qs"
  by (simp add: expected_results_def List.map_filter_def)

lemma expected_results_Nil [simp]: "expected_results lq views [] = []"
  by (simp add: expected_results_def List.map_filter_def)

lemma expected_results_Cons:
  "expected_results lq views (p # ps) =
     (case expected_result lq views p of None \<Rightarrow> expected_results lq views ps | Some r \<Rightarrow> r # expected_results lq views ps)"
  by (simp add: expected_results_def List.map_filter_def split: option.split)

lemma expected_results_rank:
  "r \<in> set (expected_results lq views ps) \<Longrightarrow> rank_path (ranked_result_rank r) \<in> fst ` set ps"
  by (induction ps) (auto simp: expected_results_Cons dest!: expected_result_rank split: option.splits)

lemma expected_results_inj:
  "distinct (map fst ps) \<Longrightarrow> inj_on ranked_result_rank (set (expected_results lq views ps))"
proof (induction ps)
  case (Cons p ps)
  have "ranked_result_rank r \<noteq> ranked_result_rank r'" if "expected_result lq views p = Some r" "r' \<in> set (expected_results lq views ps)" for r r'
  proof -
    have "rank_path (ranked_result_rank r) = fst p" using expected_result_rank [OF that(1)] by auto
    moreover have "fst p \<notin> fst ` set ps" using Cons.prems by simp
    ultimately show ?thesis using expected_results_rank [OF that(2)] by metis
  qed
  then have "\<And>r r'. expected_result lq views p = Some r \<Longrightarrow> r' \<in> set (expected_results lq views ps) \<Longrightarrow>
      ranked_result_rank r' \<noteq> ranked_result_rank r" by metis
  then have "a \<notin> set (expected_results lq views ps) \<and> ranked_result_rank a \<notin> ranked_result_rank ` set (expected_results lq views ps)"
    if "expected_result lq views p = Some a" for a using that by (metis imageE)
  then show ?case using Cons by (cases "expected_result lq views p") (auto simp: expected_results_Cons)
qed simp

section \<open>Looking again at live files\<close>

text \<open>The heap of the best results so far.\<close>

definition best_results :: "literal_query \<Rightarrow> 'e file_views \<Rightarrow> (pathbuf \<times> pathbuf) list \<Rightarrow> FileSearchResult list" where
  "best_results lq views ps = take (lq_max_files lq) (sort_key ranked_result_rank (expected_results lq views ps))"

definition live_paths :: "literal_query \<Rightarrow> (FileSearchResult list \<Rightarrow> FileSearchResult list) \<Rightarrow> 'e file_views \<Rightarrow> (pathbuf \<times> pathbuf) list \<Rightarrow> bool" where
  "live_paths lq visit views ps \<longleftrightarrow>
     query_ok lq \<and> visits_all visit \<and> distinct (map fst ps) \<and> (\<forall>p\<in>set ps. stable_file views (snd p))"

lemma would_select_take:
  assumes "sorted_by ranked_result_rank rs" and "\<not> would_select m (take m rs) (rank_path k) (rank_matches k)"
    and "\<And>r. r \<in> set rs \<Longrightarrow> ranked_result_rank r \<noteq> k" and "ranked_result_rank x = k" and "0 < m"
  shows "insert_ranked ranked_result_rank m x (take m rs) = take m rs"
proof -
  have len: "m \<le> length rs" using assms(2) by (auto simp: would_select_def not_less)
  then have ne: "take m rs \<noteq> []" using assms(5) by auto
  have "last (take m rs) = take m rs ! (m - 1)" using last_conv_nth [OF ne] len by (simp add: min_def)
  then have peek: "heap_peek (take m rs) = Some (rs ! (m - 1))" using ne assms(5) by (simp add: heap_peek_def)
  have "\<not> k < ranked_result_rank (rs ! (m - 1))" using assms(2) peek by (simp add: would_select_def)
  then have "ranked_result_rank (rs ! i) < k" if "i < m" for i
  proof -
    have "ranked_result_rank (rs ! i) \<le> ranked_result_rank (rs ! (m - 1))"
      using sorted_nth_mono [OF assms(1), of i "m - 1"] that len by simp
    moreover have "ranked_result_rank (rs ! (m - 1)) \<noteq> k" using assms(3,5) len by simp
    ultimately show ?thesis using \<open>\<not> k < _\<close> by auto
  qed
  then have below: "ranked_result_rank r < k" if "r \<in> set (take m rs)" for r
    using that len by (auto simp: in_set_conv_nth)
  have "insort_key ranked_result_rank x ys = ys @ [x]" if "\<And>r. r \<in> set ys \<Longrightarrow> ranked_result_rank r < k" for ys
    using that by (induction ys) (fastforce simp: assms(4))+
  from this [OF below] show ?thesis using len by (simp add: insert_ranked_def Let_def heap_push_def heap_pop_def)
qed

lemma reselect_step_stable:
  assumes "live_paths lq visit views (ps @ [p])" and "0 < lq_max_files lq"
  shows "reselect_step lq views (best_results lq views ps) p = Some (best_results lq views (ps @ [p]))"
proof -
  let ?m = "lq_max_files lq" and ?rs = "sort_key ranked_result_rank (expected_results lq views ps)"
  have q: "query_ok lq" and st: "stable_file views (snd p)" and d: "distinct (map fst (ps @ [p]))"
    using assms(1) by (simp_all add: live_paths_def)
  note counted = count_file_stable [OF q st] and got = read_matching_stable [OF q st]
  show ?thesis
  proof (cases "expected_result lq views p")
    case None
    then have "best_results lq views (ps @ [p]) = best_results lq views ps"
      by (simp add: best_results_def expected_results_Cons)
    moreover have "reselect_step lq views (best_results lq views ps) p = Some (best_results lq views ps)"
      using None by (auto simp: reselect_step_def counted expected_result_def split: option.splits if_splits)
    ultimately show ?thesis by simp
  next
    case (Some r)
    then obtain content where content: "content_of views (snd p) = Some content" "0 < literal_matches (lq_lower lq) (lq_text lq) content"
        "ranked_result_rank r = FileRank (literal_matches (lq_lower lq) (lq_text lq) content) (fst p)"
      using expected_result_rank by blast
    have r: "r = file_result lq (fst p) content" using Some content by (simp add: expected_result_def)
    have inj: "inj_on ranked_result_rank (set (expected_results lq views (ps @ [p])))" using d by (rule expected_results_inj)
    have "best_results lq views (ps @ [p]) = take ?m (sort_key ranked_result_rank (r # expected_results lq views ps))"
    proof -
      have "expected_results lq views (ps @ [p]) = expected_results lq views ps @ [r]"
        using Some by (simp add: expected_results_Cons)
      moreover have "sort_key ranked_result_rank (expected_results lq views (ps @ [p]))
          = sort_key ranked_result_rank (r # expected_results lq views ps)"
        by (rule sort_key_inj_mset) (use calculation inj in simp_all)
      ultimately show ?thesis by (simp only: best_results_def)
    qed
    then have add: "insert_ranked ranked_result_rank ?m r (best_results lq views ps) = best_results lq views (ps @ [p])"
      by (simp add: best_results_def insert_ranked_take)
    have nb: "\<not> is_binary_content content" using content(2) by (auto simp: literal_matches_def)
    have new: "ranked_result_rank x \<noteq> ranked_result_rank r" if "x \<in> set ?rs" for x
    proof -
      have "fst p \<notin> fst ` set ps" using d by simp
      then show ?thesis using expected_results_rank [of x lq views ps] that content(3) by (metis file_rank.sel(2) set_sort)
    qed
    have keep: "best_results lq views (ps @ [p]) = best_results lq views ps"
      if "\<not> would_select ?m (best_results lq views ps) (fst p) (literal_matches (lq_lower lq) (lq_text lq) content)"
      using would_select_take [of ?rs ?m "ranked_result_rank r" r] that new assms(2) content(3) add by (simp add: best_results_def)
    show ?thesis
      using content(1,2) nb add keep result_for_content_stable [OF content(2), of "fst p"] r
      by (auto simp: reselect_step_def counted got Let_def)
  qed
qed

interpretation live_selection: divided_fold "\<lambda>ps. 0 < lq_max_files lq \<and> live_paths lq visit views ps"
    "\<lambda>ps. Some (best_results lq views ps)" "\<lambda>h p. Option.bind h (\<lambda>h. reselect_step lq views h p)"
    "\<lambda>l r. Option.bind l (\<lambda>l. map_option (\<lambda>r. foldl (\<lambda>h x. insert_ranked ranked_result_rank (lq_max_files lq) x h) l (visit r)) r)"
  for lq :: literal_query and visit and views :: "'e file_views"
proof unfold_locales
  fix ps qs :: "(pathbuf \<times> pathbuf) list"
  assume ok: "0 < lq_max_files lq \<and> live_paths lq visit views (ps @ qs)"
  then show "(0 < lq_max_files lq \<and> live_paths lq visit views ps) \<and> 0 < lq_max_files lq \<and> live_paths lq visit views qs"
    by (simp add: live_paths_def)
  have "inj_on ranked_result_rank (set (expected_results lq views (ps @ qs)))" and "visits_all visit"
    using ok by (simp_all only: live_paths_def expected_results_inj)
  then show "Option.bind (Some (best_results lq views ps)) (\<lambda>l. map_option
      (\<lambda>r. foldl (\<lambda>h x. insert_ranked ranked_result_rank (lq_max_files lq) x h) l (visit r)) (Some (best_results lq views qs)))
      = Some (best_results lq views (ps @ qs))"
    using heap_selection.best_join [of visit ranked_result_rank "expected_results lq views ps" "expected_results lq views qs"]
    by (simp add: best_results_def)
qed (use reselect_step_stable in \<open>fastforce simp: live_paths_def\<close>)

lemma reselect_stable:
  assumes "live_paths lq visit views (items paths)" and "0 < lq_max_files lq"
  shows "reselect_live_files lq visit views paths = Some (best_results lq views (items paths))"
  using live_selection.fold_reduce_best [of lq visit views paths] assms
  by (simp add: reselect_live_files_def best_results_def)

section \<open>The two passes\<close>

lemma filter_map_division_items:
  "(\<And>x. x \<in> set (items d) \<Longrightarrow> f x = Some (g x)) \<Longrightarrow>
     \<exists>d'. filter_map_division f d = Some d' \<and> items d' = List.map_filter g (items d)"
proof (induction d)
  case (Segment xs)
  then have "those (map f xs) = Some (map g xs)" by (intro those_map_Some) simp
  then show ?case by (simp add: List.map_filter_def filter_map comp_def)
next
  case (Joined l r)
  then obtain l' r' where "filter_map_division f l = Some l'" "items l' = List.map_filter g (items l)"
      "filter_map_division f r = Some r'" "items r' = List.map_filter g (items r)" by fastforce
  then show ?case by (simp add: List.map_filter_def)
qed

lemma sort_key_map_same:
  assumes "\<And>x. x \<in> set xs \<Longrightarrow> r (g x) = k x"
  shows "sort_key r (map g xs) = map g (sort_key k xs)"
proof -
  have "insort_key r (g x) (map g ys) = map g (insort_key k x ys)"
    if "r (g x) = k x" "\<And>y. y \<in> set ys \<Longrightarrow> r (g y) = k y" for x ys
    using that by (induction ys) simp_all
  then show ?thesis using assms
  proof (induction xs)
    case (Cons x xs)
    from Cons.prems(1) [of x "sort_key k xs"] Cons.prems(2) have
      "insort_key r (g x) (map g (sort_key k xs)) = map g (insort_key k x (sort_key k xs))" by simp
    moreover have "sort_key r (map g xs) = map g (sort_key k xs)" by (rule Cons.IH) (use Cons.prems in auto)
    ultimately show ?case by simp
  qed simp
qed

text \<open>The candidate that the first pass finds for a file, and the result that the second pass makes of it.\<close>

definition expected_candidate :: "literal_query \<Rightarrow> 'e file_views \<Rightarrow> pathbuf \<times> pathbuf \<Rightarrow> RankedFile option" where
  "expected_candidate lq views p =
     (case expected_result lq views p of
        None \<Rightarrow> None
      | Some r \<Rightarrow> Some \<lparr>rf_relative = fst p, rf_absolute = snd p, rf_matches = hit_count r, rf_lower_bound = False\<rparr>)"

definition result_of_candidate :: "literal_query \<Rightarrow> 'e file_views \<Rightarrow> RankedFile \<Rightarrow> FileSearchResult" where
  "result_of_candidate lq views f = the (expected_result lq views (rf_relative f, rf_absolute f))"

lemma candidate_stable:
  assumes "query_ok lq" and "stable_file views (snd p)"
  shows "candidate_file lq views False p = Some (expected_candidate lq views p)"
  using assms count_file_stable [OF assms]
  by (auto simp: candidate_file_def expected_candidate_def expected_result_def file_result_def Let_def literal_matches_def
      split: option.split)

lemma candidate_result:
  assumes "expected_candidate lq views p = Some f"
  shows "expected_result lq views p = Some (result_of_candidate lq views f)"
    and "ranked_result_rank (result_of_candidate lq views f) = ranked_file_rank f"
    and "hit_count (result_of_candidate lq views f) = rf_matches f"
proof -
  obtain r where r: "expected_result lq views p = Some r"
      "f = \<lparr>rf_relative = fst p, rf_absolute = snd p, rf_matches = hit_count r, rf_lower_bound = False\<rparr>"
    using assms by (auto simp: expected_candidate_def split: option.splits)
  then have same: "result_of_candidate lq views f = r" by (simp add: result_of_candidate_def)
  then show "expected_result lq views p = Some (result_of_candidate lq views f)"
    and "hit_count (result_of_candidate lq views f) = rf_matches f" using r by simp_all
  show "ranked_result_rank (result_of_candidate lq views f) = ranked_file_rank f"
    using expected_result_rank [OF r(1)] r(2) same by (auto simp: ranked_file_rank_def ranked_result_rank_def)
qed

lemma candidates_results:
  "map (result_of_candidate lq views) (List.map_filter (expected_candidate lq views) ps) = expected_results lq views ps"
proof (induction ps)
  case (Cons p ps)
  then show ?case
    using candidate_result(1) [of lq views p]
    by (cases "expected_candidate lq views p") (auto simp: expected_results_Cons List.map_filter_def expected_candidate_def split: option.splits)
qed (simp add: List.map_filter_def)

lemma candidate_path: "expected_candidate lq views p = Some f \<Longrightarrow> rf_relative f = fst p"
  by (auto simp: expected_candidate_def split: option.splits)

lemma candidates_distinct:
  "distinct (map fst ps) \<Longrightarrow> distinct (map rf_relative (List.map_filter (expected_candidate lq views) ps))"
proof (induction ps)
  case (Cons p ps)
  have old: "rf_relative f \<in> fst ` set ps" if f: "f \<in> set (List.map_filter (expected_candidate lq views) ps)" for f
    using f candidate_path unfolding in_map_filter by (metis imageI)
  show ?case
  proof (cases "expected_candidate lq views p")
    case None
    then have "List.map_filter (expected_candidate lq views) (p # ps) = List.map_filter (expected_candidate lq views) ps"
      by (simp add: List.map_filter_def)
    then show ?thesis using Cons by simp
  next
    case (Some f)
    then have "List.map_filter (expected_candidate lq views) (p # ps) = f # List.map_filter (expected_candidate lq views) ps"
      by (simp add: List.map_filter_def)
    moreover have "rf_relative f \<notin> rf_relative ` set (List.map_filter (expected_candidate lq views) ps)"
    proof -
      have "fst p \<notin> fst ` set ps" using Cons.prems by simp
      then show ?thesis using old candidate_path [OF Some] by (metis imageE)
    qed
    ultimately show ?thesis using Cons by simp
  qed
qed (simp add: List.map_filter_def)

lemma select_stable:
  assumes "query_ok lq" and "visits_all visit" and "distinct (map fst (items paths))"
    and "\<And>p. p \<in> set (items paths) \<Longrightarrow> stable_file views (snd p)" and "mode \<noteq> SingleFileName"
  shows "select_ranked_files lq visit views mode paths
    = Some (take (lq_max_files lq) (sort_key ranked_file_rank (List.map_filter (expected_candidate lq views) (items paths))))"
proof -
  let ?cs = "List.map_filter (expected_candidate lq views) (items paths)" and ?m = "lq_max_files lq"
  have "candidate_file lq views False p = Some (expected_candidate lq views p)" if "p \<in> set (items paths)" for p
    using assms(1) assms(4) [OF that] by (rule candidate_stable)
  then obtain d where d: "filter_map_division (candidate_file lq views False) paths = Some d" "items d = ?cs"
    using filter_map_division_items by blast
  have len: "length ?cs \<le> length (items paths)" by (simp add: List.map_filter_def)
  have ranks: "ranked_result_rank (result_of_candidate lq views f) = ranked_file_rank f" if f: "f \<in> set ?cs" for f
  proof -
    obtain p where "expected_candidate lq views p = Some f" using f unfolding in_map_filter by blast
    then show ?thesis by (rule candidate_result(2))
  qed
  have "distinct (map rf_relative ?cs)" using assms(3) by (rule candidates_distinct)
  then have "inj_on ranked_file_rank (set ?cs)"
    by (auto simp: distinct_map ranked_file_rank_def intro!: inj_onI dest: inj_onD)
  then have "select_best visit ranked_file_rank ?m d = take ?m (sort_key ranked_file_rank ?cs)"
    using heap_selection.fold_reduce_best [of visit ranked_file_rank d ?m] assms(2) d(2) by (simp add: select_best_def)
  moreover have "sort_key ranked_file_rank (take ?m (sort_key ranked_file_rank ?cs)) = take ?m (sort_key ranked_file_rank ?cs)"
    by (rule sort_key_id_if_sorted) (simp add: take_map [symmetric] sorted_wrt_take)
  ultimately show ?thesis using d len assms(5) by (cases mode) (simp_all add: select_ranked_files_def)
qed

lemma read_selected_stable:
  assumes "query_ok lq" and "stable_file views (snd p)" and "expected_candidate lq views p = Some f"
  shows "read_selected lq views f = Some (Some (result_of_candidate lq views f))"
proof -
  have r: "expected_result lq views p = Some (result_of_candidate lq views f)" using assms(3) by (rule candidate_result)
  then obtain content where content: "content_of views (snd p) = Some content" "0 < literal_matches (lq_lower lq) (lq_text lq) content"
    using expected_result_rank by blast
  have "rf_relative f = fst p" "rf_absolute f = snd p" using assms(3) by (auto simp: expected_candidate_def split: option.splits)
  then show ?thesis
    using content r read_matching_stable [OF assms(1,2)] result_for_content_stable [OF content(2), of "fst p"]
    by (simp add: read_selected_def expected_result_def Let_def)
qed

lemma map_filter_id_Some: "List.map_filter id (map (\<lambda>x. Some (g x)) xs) = map g xs"
  by (induction xs) (simp_all add: List.map_filter_def)

lemma list_ex_zip_map: "(\<And>x. x \<in> set xs \<Longrightarrow> \<not> P (x, g x)) \<Longrightarrow> \<not> list_ex P (zip xs (map g xs))"
  by (induction xs) auto

text \<open>What a search with a limit needs of its query, its files and its heaps.\<close>

definition stable_search ::
    "literal_query \<Rightarrow> (RankedFile list \<Rightarrow> RankedFile list) \<Rightarrow> 'e file_views \<Rightarrow> (pathbuf \<times> pathbuf) division \<Rightarrow> bool" where
  "stable_search lq visit views paths \<longleftrightarrow>
     query_ok lq \<and> 0 < lq_max_files lq \<and> visits_all visit \<and> distinct (map fst (items paths))
     \<and> (\<forall>p\<in>set (items paths). stable_file views (snd p))"

text \<open>The example of the witnesses: two files, one with two matching lines.\<close>

definition sample_query :: "nat \<Rightarrow> literal_query" where
  "sample_query k = \<lparr>lq_lower = (\<lambda>ch. [to_ascii_lowercase ch]), lq_matcher = \<lparr>needle = ''ab'', prefix_table = [0, 0]\<rparr>,
     lq_text = ''ab'', lq_context = 0, lq_max_files = k, lq_as_f32 = (\<lambda>n. 0)\<rparr>"

definition sample_file :: "pathbuf \<Rightarrow> string option" where
  "sample_file p = (if p = [Normal ''a''] then Some ''x AB'' else if p = [Normal ''b''] then Some ''abc'' else None)"

definition sample_views :: "unit file_views" where
  "sample_views = \<lparr>stream_of = (\<lambda>p. map_option (\<lambda>c. [ReadGives (take 2 c), ReadGives (drop 2 c)]) (sample_file p)), content_of = sample_file\<rparr>"

definition sample_paths :: "(pathbuf \<times> pathbuf) division" where
  "sample_paths = Joined (Segment [([Normal ''b''], [Normal ''b''])]) (Segment [([Normal ''c''], [Normal ''c'']), ([Normal ''a''], [Normal ''a''])])"

lemma sample_matcher: "line_matcher_new ''ab'' = Some \<lparr>needle = ''ab'', prefix_table = [0, 0]\<rparr>"
proof -
  obtain m where m: "line_matcher_new ''ab'' = Some m" "matcher_ok m" "needle m = ''ab''" using line_matcher_new_spec [of "''ab''"] by blast
  have "fill_table ''ab'' [0, 0] [1] = Some (prefix_table m)" using m(1,3) by (auto simp: line_matcher_new_def numeral_2_eq_2)
  moreover have "fall_back ''ab'' [0, 0] (CHR ''b'') 0 = Some 0" by (subst fall_back.simps) simp
  ultimately have "prefix_table m = [0, 0]" by (simp add: fill_entry_def kmp_step_def at_def)
  then show ?thesis using m(1,3) by simp
qed

lemma sample_ok: "query_ok (sample_query k)"
  by (simp add: query_ok_def sample_query_def sample_matcher lower_ok_def to_ascii_lowercase_def)

lemma sample_stable: "stable_file sample_views p"
  by (simp add: stable_file_def sample_views_def sample_file_def lossy_text_def check_char_def)

lemma sample_search: "stable_search (sample_query 1) rev sample_views sample_paths"
  by (simp add: stable_search_def sample_ok sample_stable visits_all_def sample_paths_def) (simp add: sample_query_def)

lemma sample_live: "live_paths (sample_query 1) rev sample_views (items sample_paths)"
  by (simp add: live_paths_def sample_ok sample_stable visits_all_def sample_paths_def)

section \<open>Theorems\<close>

text \<open>Claim C15. Searching files for a literal in two passes, with heaps per thread and streaming counts, gives exactly what
  reading every file, counting its matching lines and sorting by count and path gives: the limit keeps the best files,
  every count is exact, binary and unreadable files are left out, and nothing panics. Pieces and threads do not show.\<close>

theorem search_files_exact:
  assumes "stable_search lq visit views paths"
  shows "search_files lq visit visit_results views live False (False, False, False) Files paths
    = Some (take (lq_max_files lq) (sort_key ranked_result_rank (expected_results lq views (items paths))))"
proof -
  have ok: "query_ok lq" "0 < lq_max_files lq" "visits_all visit" "distinct (map fst (items paths))"
      "\<And>p. p \<in> set (items paths) \<Longrightarrow> stable_file views (snd p)"
    using assms by (simp_all add: stable_search_def)
  let ?cs = "List.map_filter (expected_candidate lq views) (items paths)" and ?m = "lq_max_files lq"
  let ?sel = "take ?m (sort_key ranked_file_rank ?cs)" and ?g = "result_of_candidate lq views"
  have sel: "select_ranked_files lq visit views Files paths = Some ?sel"
    using ok by (intro select_stable) simp_all
  have cand: "\<exists>p. p \<in> set (items paths) \<and> expected_candidate lq views p = Some f" if f: "f \<in> set ?cs" for f
    using f unfolding in_map_filter by blast
  have chosen: "\<exists>p. p \<in> set (items paths) \<and> expected_candidate lq views p = Some f" if "f \<in> set ?sel" for f
    using that cand by (metis in_set_takeD set_sort)
  have "those (map (read_selected lq views) ?sel) = Some (map (\<lambda>f. Some (?g f)) ?sel)"
    by (rule those_map_Some) (use chosen ok(1,5) read_selected_stable in blast)
  moreover have "\<not> list_ex (\<lambda>(f, r). (case r of None \<Rightarrow> 0 | Some r \<Rightarrow> hit_count r) \<noteq> rf_matches f) (zip ?sel (map (\<lambda>f. Some (?g f)) ?sel))"
    by (rule list_ex_zip_map) (use chosen candidate_result(3) in fastforce)
  ultimately have "read_selected_files lq visit_results views live (False, False) paths ?sel = Some (map ?g ?sel)"
    by (simp add: read_selected_files_def map_filter_id_Some)
  moreover have "map ?g ?sel = take ?m (sort_key ranked_result_rank (map ?g ?cs))"
  proof -
    have "sort_key ranked_result_rank (map ?g ?cs) = map ?g (sort_key ranked_file_rank ?cs)"
      by (rule sort_key_map_same) (use cand candidate_result(2) in blast)
    then show ?thesis by (simp add: take_map)
  qed
  moreover have "newline \<notin> set (lq_text lq)" using ok(1) by (simp add: query_ok_def)
  ultimately show ?thesis using ok(2) sel by (simp add: search_files_def candidates_results)
qed

theorem search_files_exact_witness:
  "\<exists>results. search_files (sample_query 1) rev rev sample_views sample_views False (False, False, False) Files sample_paths = Some results
     \<and> length results = 1"
proof -
  have n: "literal_matches (\<lambda>ch. [to_ascii_lowercase ch]) ''ab'' ''x AB'' = 1" "literal_matches (\<lambda>ch. [to_ascii_lowercase ch]) ''ab'' ''abc'' = 1"
    by code_simp+
  have "length (expected_results (sample_query 1) sample_views (items sample_paths)) = 2"
    using n by (simp add: sample_paths_def expected_results_Cons expected_result_def sample_views_def sample_file_def sample_query_def)
  then show ?thesis
    using search_files_exact [OF sample_search, of rev sample_views] by (simp add: sample_query_def)
qed





end
