(* ===== verification/Spec2Isabelle.thy ===== *)
theory Spec2Isabelle
  imports Text_Tokens Code_Lines Enhancement_Queue Batch_Budget Job_Ledger Staging Languages Chunking Merkle Index_GC Search_Batches Mode_Coordinator Lease_Plans Search_Registry Query_Routing Presentation Byte_Caches Query_Cache Watch_Control Top_Selection Literal_Matcher Literal_Search
begin

text \<open>
  \<^bold>\<open>A verification development for ivygrep.\<close>

  ivygrep (\<^verbatim>\<open>src/src\<close>) is a local code search engine. An index run walks a workspace into a snapshot
  (\<^verbatim>\<open>merkle.rs\<close>), cuts the changed files into chunks (\<^verbatim>\<open>chunking.rs\<close>), feeds them through tokenizers
  (\<^verbatim>\<open>text.rs\<close>) into a lexical index and through an embedding model into a vector store, in batches
  under a byte budget (\<^verbatim>\<open>indexer/batch_budget.rs\<close>), into a staging directory that is promoted at the
  end (\<^verbatim>\<open>indexer/staging.rs\<close>). A daemon queues background enhancement runs (\<^verbatim>\<open>enhancement_queue.rs\<close>),
  whose worker processes are admitted by slots (\<^verbatim>\<open>indexer/enhancement.rs\<close>) and report to a job ledger
  (\<^verbatim>\<open>jobs.rs\<close>); indexes of deleted workspaces are collected (\<^verbatim>\<open>index_gc.rs\<close>). Searches read the stores.

  \<^bold>\<open>Theories.\<close> Each models one part of the program with the names of the sources, states its properties
  as theorems with a claim number and proves them; a theorem with hypotheses is followed by a witness that
  applies it to a concrete input.

  \<^item> \<^verbatim>\<open>Prelude\<close>: bytes, UTF-8 strings and the operations of \<^verbatim>\<open>str\<close> (a Rust string is the list of its bytes),
    numbers in decimal, association lists for maps, and the locale \<open>component\<close>: start states, steps and an
    invariant that all reachable states have. It is interpreted for the enhancement queue, the worker slots,
    the byte budget, the job ledger, the saved snapshot, the mode coordinator, the search registry, the caches and
    the watcher.
  \<^item> \<^verbatim>\<open>Ordered_Map\<close>: \<^verbatim>\<open>BTreeMap\<close> as an ordered association list, and the locale \<open>keyed_store\<close> with what a client
    of a map relies on, interpreted for ordered maps and for hash maps.
  \<^item> \<^verbatim>\<open>Text_Tokens\<close>, \<^verbatim>\<open>Code_Lines\<close> (\<^verbatim>\<open>text.rs\<close>): the token streams of the lexical index and the identifier
    splitter, whose ASCII fast path equals the loop over characters and whose segments partition the token;
    singular forms; and the scanner for source lines with its bracket and comment states, whose ranges are
    inside the text and free of comments.
  \<^item> \<^verbatim>\<open>Languages\<close> (\<^verbatim>\<open>chunking.rs\<close>): the language table, the lookup by file name, globs, type filters and the
    detector of signature lines of every language.
  \<^item> \<^verbatim>\<open>Chunking\<close> (\<^verbatim>\<open>chunking.rs\<close>): the tests for text and minified files on bytes and on a stream, the windows of
    lines, the line heuristics and the header of stored chunks. Chunks are bounded, inside the file and cover
    every line that matters; the header is removed again exactly; the stream test agrees with the test on the
    whole contents and reports read errors.
  \<^item> \<^verbatim>\<open>Merkle\<close> (\<^verbatim>\<open>merkle.rs\<close>): the walk, the difference of snapshots, the refresh of reported paths, the saved
    file and its stamp. The difference is exact, a refresh refines the update of the abstract map, the walk
    does not depend on the order of its workers, the stamp shortcut hides no corrupt file.
  \<^item> \<^verbatim>\<open>Batch_Budget\<close> (\<^verbatim>\<open>indexer/batch_budget.rs\<close>): threads that wait for bytes under a mutex and a condition
    variable, as a step relation: no lost wake-up, a bound on the payload, no overflow.
  \<^item> \<^verbatim>\<open>File_Store\<close>, \<^verbatim>\<open>Staging\<close> (\<^verbatim>\<open>indexer/staging.rs\<close>): a tree of files where any call may fail, and the promotion of
    a staged index with backups and rollback. The locale \<open>promotion\<close> carries the transaction argument once, and
    is interpreted for the main and the overlay stores.
  \<^item> \<^verbatim>\<open>Enhancement_Queue\<close> (\<^verbatim>\<open>enhancement_queue.rs\<close>), \<^verbatim>\<open>Worker_Slots\<close> (\<^verbatim>\<open>indexer/enhancement.rs\<close>): which requests
    are started, kept or dropped, and how many workers run per lane, over all interleavings.
  \<^item> \<^verbatim>\<open>Job_Ledger\<close> (\<^verbatim>\<open>jobs.rs\<close>): records of background jobs, their guarded updates through a file under a lock, and
    the liveness test for processes.
  \<^item> \<^verbatim>\<open>Index_GC\<close> (\<^verbatim>\<open>index_gc.rs\<close>): passes of the garbage collector over a disk of index directories. An index goes
    only under the documented conditions, and only after every pass of a grace period found its root missing.
  \<^item> \<^verbatim>\<open>Mode_Coordinator\<close>, \<^verbatim>\<open>Lease_Plans\<close> (\<^verbatim>\<open>daemon.rs\<close>): the shared and exclusive leases of a workspace as threads under a
    mutex and a condition variable, and the order in which a request takes the leases of several workspaces:
    compatible leases, no lost wake-up, no circular wait.
  \<^item> \<^verbatim>\<open>Watch_Control\<close> (\<^verbatim>\<open>daemon.rs\<close>): the watcher of a workspace. Reports of changed files, the worker task, explicit index
    requests and stops interleave in any order; no reported change is lost and readiness is announced exactly.
  \<^item> \<^verbatim>\<open>Search_Registry\<close> (\<^verbatim>\<open>daemon.rs\<close>): running searches and cancellations, also those that arrive first.
  \<^item> \<^verbatim>\<open>Search_Batches\<close> (\<^verbatim>\<open>search.rs\<close>, \<^verbatim>\<open>search_service.rs\<close>): results handed out in batches while a search runs; the
    incremental merge equals sorting everything at the end.
  \<^item> \<^verbatim>\<open>Query_Routing\<close> (\<^verbatim>\<open>search_routing.rs\<close>, \<^verbatim>\<open>query_aliases.rs\<close>): which queries use the neural model, and the aliases of
    words and phrases.
  \<^item> \<^verbatim>\<open>Presentation\<close> (\<^verbatim>\<open>search_presentation.rs\<close>): the lines and the preview of a hit.
  \<^item> \<^verbatim>\<open>Byte_Caches\<close>, \<^verbatim>\<open>Query_Cache\<close> (\<^verbatim>\<open>byte_cache.rs\<close>, \<^verbatim>\<open>search_file_cache.rs\<close>, \<^verbatim>\<open>search.rs\<close>): caches bounded by bytes over
    a library LRU map, with the laws of the map as hypotheses; a cached answer is never older than its files.
  \<^item> \<^verbatim>\<open>Top_Selection\<close> (\<^verbatim>\<open>vector_store.rs\<close>, \<^verbatim>\<open>search_literal.rs\<close>, \<^verbatim>\<open>search.rs\<close>): bounded heaps and truncated lists, also
    one per thread, keep exactly the best, by the lemmas of \<^verbatim>\<open>Stable_Merge\<close> on merging sorted lists. The locale \<open>divided_fold\<close> carries the argument about threads, and is
    interpreted for the heaps of files, the lists of hits and the second selection of \<^verbatim>\<open>Literal_Search\<close>.
  \<^item> \<^verbatim>\<open>Literal_Matcher\<close>, \<^verbatim>\<open>Literal_Search\<close> (\<^verbatim>\<open>search_literal.rs\<close>): the matcher of Knuth, Morris and Pratt over a file that
    arrives in pieces, and the search in two passes; both agree with reading every file and sorting.

  \<^bold>\<open>Conventions.\<close> Errors and early returns are values of sums and options; state is passed explicitly; loops
  are recursive functions with termination proofs, none of which needs fuel. Offsets and sizes are natural
  numbers, because they are bounded by data in memory; where the sources wrap, saturate or overflow, the model
  has the width (process ids are words, budgets and times saturate at the maximum of their type, parsed
  numbers are checked against it). Library code is a parameter: hash functions and hexadecimal encoding, JSON,
  the directory walker and its answers, the tree-sitter parser, the operating system's answers about files,
  processes and locks. Oracles and records of faults say which calls fail, and the theorems hold for all of them.

  \<^bold>\<open>Not modelled.\<close> Rendering and terminal or network I/O (\<^verbatim>\<open>cli.rs\<close>, \<^verbatim>\<open>tui.rs\<close>, \<^verbatim>\<open>web.rs\<close>, \<^verbatim>\<open>ipc.rs\<close>, \<^verbatim>\<open>launcher.rs\<close>,
  \<^verbatim>\<open>agent.rs\<close>), the models and their runtimes (\<^verbatim>\<open>embedding.rs\<close>, \<^verbatim>\<open>reranker.rs\<close>, \<^verbatim>\<open>hardware.rs\<close>), code that walks the
  syntax trees or query plans of libraries (the tree-sitter part of \<^verbatim>\<open>chunking.rs\<close>, \<^verbatim>\<open>symbols.rs\<close>,
  \<^verbatim>\<open>context_graph.rs\<close>, \<^verbatim>\<open>regex_search.rs\<close>, \<^verbatim>\<open>search_boolean.rs\<close>), the memory-mapped vector index of a library
  (\<^verbatim>\<open>vector_store/optimized.rs\<close>) and floating-point ranking (\<^verbatim>\<open>search_fusion.rs\<close>, most of \<^verbatim>\<open>search.rs\<close>). Of the daemon
  the leases, the search registry, the caches and the watcher are modelled; its sockets and request dispatch are not,
  nor are the index run that composes the parts (\<^verbatim>\<open>indexer.rs\<close>), the workspace registry and the MCP server.
\<close>

end
